theory Spec2Isabelle
  imports Complex_Main "HOL-Library.Product_Lexorder" "HOL-Library.Log_Nat"
begin

section \<open>Data model (model.py)\<close>

text \<open>
  Python integers are unbounded, so every integer field is an \<open>int\<close>.  The field
  \<open>id\<close> of the source is written \<open>id'\<close> because \<open>id\<close> is the identity function of HOL.
\<close>

datatype py_error = ZeroDivisionError | ValueError | TypeError | KeyError | OverflowError

record Task =
  name :: string
  id' :: int
  bcet :: int
  wcet :: int
  period :: int
  deadline :: int
  priority :: int

record Job =
  task_id :: int
  job_id :: int
  arrival_time :: int
  absolute_deadline :: int
  remaining_time :: int
  start_time :: int
  finish_time :: int

text \<open>The property \<open>Job.response_time\<close>: \<open>None\<close> while the job is unfinished.\<close>

definition response_time :: "Job \<Rightarrow> int option" where
  "response_time j =
     (if finish_time j = - 1 then None else Some (finish_time j - arrival_time j))"

text \<open>The property \<open>Job.is_missed\<close>.\<close>

definition is_missed :: "Job \<Rightarrow> bool" where
  "is_missed j =
     (if finish_time j = - 1 then False else finish_time j > absolute_deadline j)"

section \<open>Analysis engine (analysis.py)\<close>

text \<open>
  The source computes \<open>math.ceil(a / b)\<close> on integers.  The true division \<open>a / b\<close> of
  two Python integers is the binary64 float nearest to the exact quotient (ties to the
  even mantissa); it raises \<open>ZeroDivisionError\<close> for \<open>b = 0\<close> and \<open>OverflowError\<close> when the
  rounded quotient is too large for a float.  \<open>math.ceil\<close> of the float is again an
  exact integer.  The model computes the same on integers.
\<close>

text \<open>The integer nearest to \<open>n / d\<close> for \<open>0 \<le> n\<close> and \<open>0 < d\<close>, ties to the even one.\<close>

definition round_half_even :: "int \<Rightarrow> int \<Rightarrow> int" where
  "round_half_even n d =
     (let q = n div d; r = n mod d in
      if 2 * r < d then q else if d < 2 * r then q + 1 else if even q then q else q + 1)"

text \<open>
  The binary exponent of the quotient of two positive integers: the \<open>e\<close> with
  \<open>2\<^sup>e \<le> a / b < 2\<^sup>e\<^sup>+\<^sup>1\<close>, found from the bit lengths of \<open>a\<close> and \<open>b\<close>.
\<close>

definition quotient_exponent :: "int \<Rightarrow> int \<Rightarrow> int" where
  "quotient_exponent a b =
     (let d = bitlen a - bitlen b in
      if (if 0 \<le> d then b * 2 ^ nat d \<le> a else b \<le> a * 2 ^ nat (- d)) then d else d - 1)"

text \<open>
  The float \<open>a / b\<close> for positive \<open>a\<close> and \<open>b\<close>, as a pair \<open>(m, s)\<close> that stands for
  \<open>m / 2\<^sup>s\<close>: the quotient is rounded to a multiple of \<open>2\<^sup>-\<^sup>s\<close>, where \<open>s\<close> leaves 53
  significant bits, and at most 1074 bits after the binary point (subnormal numbers).
\<close>

definition float_quotient :: "int \<Rightarrow> int \<Rightarrow> int \<times> int" where
  "float_quotient a b =
     (let s = 52 - max (quotient_exponent a b) (- 1022) in
      (if 0 \<le> s then round_half_even (a * 2 ^ nat s) b
       else round_half_even a (b * 2 ^ nat (- s)), s))"

text \<open>The float \<open>m / 2\<^sup>s\<close> is beyond the largest binary64 number.\<close>

definition float_overflow :: "int \<times> int \<Rightarrow> bool" where
  "float_overflow f = (case f of (m, s) \<Rightarrow> s < 0 \<and> 2 ^ 1024 \<le> m * 2 ^ nat (- s))"

text \<open>Ceiling and floor of the float \<open>m / 2\<^sup>s\<close>.\<close>

definition float_ceil :: "int \<times> int \<Rightarrow> int" where
  "float_ceil f = (case f of (m, s) \<Rightarrow> if 0 \<le> s then - ((- m) div 2 ^ nat s) else m * 2 ^ nat (- s))"

definition float_floor :: "int \<times> int \<Rightarrow> int" where
  "float_floor f = (case f of (m, s) \<Rightarrow> if 0 \<le> s then m div 2 ^ nat s else m * 2 ^ nat (- s))"

text \<open>
  \<open>math.ceil(a / b)\<close>.  A negative quotient is the negated float of the absolute
  values, and its ceiling the negated floor.
\<close>

definition ceil_div :: "int \<Rightarrow> int \<Rightarrow> py_error + int" where
  "ceil_div a b =
     (if b = 0 then Inl ZeroDivisionError
      else if a = 0 then Inr 0
      else let f = float_quotient \<bar>a\<bar> \<bar>b\<bar> in
           if float_overflow f then Inl OverflowError
           else if (0 < a) = (0 < b) then Inr (float_ceil f)
           else Inr (- float_floor f))"

text \<open>
  The inner \<open>for\<close> loop of \<open>calculate_exact_wcrt_rm\<close>: the interference of the
  higher-priority tasks on a window of length \<open>R_curr\<close>, accumulated from left to right.
\<close>

fun interference_loop :: "int \<Rightarrow> Task list \<Rightarrow> int \<Rightarrow> py_error + int" where
  "interference_loop R_curr [] acc = Inr acc"
| "interference_loop R_curr (hp_task # rest) acc =
     (case ceil_div R_curr (period hp_task) of
        Inl e \<Rightarrow> Inl e
      | Inr c \<Rightarrow> interference_loop R_curr rest (acc + c * wcet hp_task))"

text \<open>
  The \<open>while True\<close> loop of \<open>calculate_exact_wcrt_rm\<close>.  It has no iteration cap, so
  it is a partial function: the value \<open>None\<close> stands for a loop that never exits,
  \<open>Some (Inl e)\<close> for an exception, \<open>Some (Inr r)\<close> for the returned response time.
\<close>

partial_function (option) wcrt_loop :: "Task \<Rightarrow> Task list \<Rightarrow> int \<Rightarrow> (py_error + int) option" where
  "wcrt_loop task higher_priority_tasks R_curr =
     (case interference_loop R_curr higher_priority_tasks 0 of
        Inl e \<Rightarrow> Some (Inl e)
      | Inr interference \<Rightarrow>
          (let R_new = wcet task + interference in
           if R_new > deadline task then Some (Inr R_new)
           else if R_new = R_curr then Some (Inr R_new)
           else wcrt_loop task higher_priority_tasks R_new))"

definition calculate_exact_wcrt_rm :: "Task \<Rightarrow> Task list \<Rightarrow> (py_error + int) option" where
  "calculate_exact_wcrt_rm task higher_priority_tasks =
     wcrt_loop task higher_priority_tasks (wcet task)"

text \<open>
  The candidate computed by one pass of the loop body from the current estimate (with the
  ceilings as the source computes them, on positive operands), and the sequence of
  candidates the loop goes through, starting at the task's wcet.
\<close>

definition next_candidate :: "Task \<Rightarrow> Task list \<Rightarrow> int \<Rightarrow> int" where
  "next_candidate task hps R_curr =
     wcet task + (\<Sum>h\<leftarrow>hps. float_ceil (float_quotient R_curr (period h)) * wcet h)"

fun candidate :: "Task \<Rightarrow> Task list \<Rightarrow> nat \<Rightarrow> int" where
  "candidate task hps 0 = wcet task"
| "candidate task hps (Suc n) = next_candidate task hps (candidate task hps n)"

text \<open>One of the divisions of the loop body overflows at the estimate \<open>R_curr\<close>.\<close>

definition division_overflows :: "Task list \<Rightarrow> int \<Rightarrow> bool" where
  "division_overflows hps R_curr =
     (\<exists>h\<in>set hps. float_overflow (float_quotient R_curr (period h)))"

text \<open>The recurrence of the docstring, with exact ceilings.\<close>

definition exact_candidate :: "Task \<Rightarrow> Task list \<Rightarrow> int \<Rightarrow> int" where
  "exact_candidate task hps R =
     wcet task + (\<Sum>h\<leftarrow>hps. (- ((- R) div period h)) * wcet h)"

text \<open>
  \<open>perform_rm_analysis\<close>: the tasks sorted by (period, id), each analysed against the
  tasks before it.  The result dictionary is a map from task id to the record of the
  source (the label \<open>"Task"\<close> is left out).  A later task with the same id overwrites an
  earlier one, as the dictionary assignment does.
\<close>

record Analysis =
  Period :: int
  WCET :: int
  WCRT_Analytic :: int
  Schedulable :: bool

fun rm_analysis_loop ::
  "Task list \<Rightarrow> Task list \<Rightarrow> (int \<rightharpoonup> Analysis) \<Rightarrow> ((py_error + (int \<rightharpoonup> Analysis)) option)" where
  "rm_analysis_loop hp_tasks [] results = Some (Inr results)"
| "rm_analysis_loop hp_tasks (task # rest) results =
     (case calculate_exact_wcrt_rm task hp_tasks of
        None \<Rightarrow> None
      | Some (Inl e) \<Rightarrow> Some (Inl e)
      | Some (Inr wcrt) \<Rightarrow>
          rm_analysis_loop (hp_tasks @ [task]) rest
            (results(id' task \<mapsto>
               \<lparr>Period = period task, WCET = wcet task, WCRT_Analytic = wcrt,
                Schedulable = (wcrt \<le> deadline task)\<rparr>)))"

definition perform_rm_analysis :: "Task list \<Rightarrow> (py_error + (int \<rightharpoonup> Analysis)) option" where
  "perform_rm_analysis ts =
     rm_analysis_loop [] (sort_key (\<lambda>x. (period x, id' x)) ts) Map.empty"

section \<open>Discrete-event scheduler (simulation.py)\<close>

text \<open>
  The scheduler mutates \<open>Job\<close> objects that are reachable both from the ready queue
  and from the local variable \<open>current_job\<close>, so the model keeps the objects in a store:
  \<open>objects\<close> lists every \<open>Job\<close> created so far, and a reference to a job is its index
  in that list.  The queues hold references.  The source never reads a reference it did
  not create, so every index the model reads is in range (lemma \<open>run_loop_inv\<close> below).
\<close>

record Scheduler =
  tasks :: "Task list"
  algorithm :: string
  time :: int
  objects :: "Job list"
  ready_queue :: "nat list"
  history :: "(int \<times> int option) list"
  completed_jobs :: "nat list"
  hyperperiod :: int

text \<open>The loop \<open>for i, t in enumerate(self.tasks): t.priority = i\<close>.\<close>

definition assign_priorities :: "Task list \<Rightarrow> Task list" where
  "assign_priorities ts = map (\<lambda>(i, t). t\<lparr>priority := int i\<rparr>) (enumerate 0 ts)"

text \<open>
  \<open>Scheduler.__init__\<close>.  The deep copy is the value semantics of HOL.  \<open>math.lcm\<close> of
  the periods is the fold of \<open>lcm\<close> from 1.  Only the branch for DM assigns priorities: the
  branch for RM is commented out in the source.
\<close>

definition Scheduler_init :: "Task list \<Rightarrow> string \<Rightarrow> Scheduler" where
  "Scheduler_init ts alg =
     \<lparr>tasks = (if alg = ''DM'' then assign_priorities (sort_key deadline ts) else ts),
      algorithm = alg,
      time = 0,
      objects = [],
      ready_queue = [],
      history = [],
      completed_jobs = [],
      hyperperiod = (if map period ts = [] then 0 else fold lcm (map period ts) 1)\<rparr>"

fun get_task :: "Task list \<Rightarrow> int \<Rightarrow> py_error + Task" where
  "get_task [] i = Inl ValueError"
| "get_task (t # ts) i = (if id' t = i then Inr t else get_task ts i)"

text \<open>
  Python's \<open>min(xs, key=f)\<close>: the keys are computed from left to right (an exception of
  the key function propagates), and the first element with the least key is returned.
  \<open>min\<close> of an empty sequence raises \<open>ValueError\<close>.
\<close>

fun keys_of :: "('a \<Rightarrow> py_error + int) \<Rightarrow> 'a list \<Rightarrow> py_error + (int \<times> 'a) list" where
  "keys_of f [] = Inr []"
| "keys_of f (x # xs) =
     (case f x of
        Inl e \<Rightarrow> Inl e
      | Inr k \<Rightarrow> (case keys_of f xs of Inl e \<Rightarrow> Inl e | Inr ks \<Rightarrow> Inr ((k, x) # ks)))"

fun py_min :: "int \<times> 'a \<Rightarrow> (int \<times> 'a) list \<Rightarrow> 'a" where
  "py_min best [] = snd best"
| "py_min best (x # xs) = py_min (if fst x < fst best then x else best) xs"

definition py_min_key :: "('a \<Rightarrow> py_error + int) \<Rightarrow> 'a list \<Rightarrow> py_error + 'a" where
  "py_min_key f xs =
     (case keys_of f xs of
        Inl e \<Rightarrow> Inl e
      | Inr [] \<Rightarrow> Inl ValueError
      | Inr (b # ks) \<Rightarrow> Inr (py_min b ks))"

text \<open>The two key functions of \<open>_get_active_job\<close>.\<close>

definition priority_key :: "Scheduler \<Rightarrow> nat \<Rightarrow> py_error + int" where
  "priority_key s a =
     (case get_task (tasks s) (task_id (objects s ! a)) of
        Inl e \<Rightarrow> Inl e
      | Inr t \<Rightarrow> Inr (priority t))"

definition deadline_key :: "Scheduler \<Rightarrow> nat \<Rightarrow> py_error + int" where
  "deadline_key s a = Inr (absolute_deadline (objects s ! a))"

text \<open>\<open>Scheduler._get_active_job\<close>; the result is a reference, or \<open>None\<close>.\<close>

definition get_active_job :: "Scheduler \<Rightarrow> py_error + nat option" where
  "get_active_job s =
     (if ready_queue s = [] then Inr None
      else if algorithm s \<in> set [''RM'', ''DM''] then
        (case py_min_key (priority_key s) (ready_queue s) of
           Inl e \<Rightarrow> Inl e | Inr a \<Rightarrow> Inr (Some a))
      else if algorithm s = ''EDF'' then
        (case py_min_key (deadline_key s) (ready_queue s) of
           Inl e \<Rightarrow> Inl e | Inr a \<Rightarrow> Inr (Some a))
      else Inr None)"

text \<open>
  Step 1 of the loop body of \<open>run\<close>: the releases at tick \<open>t\<close>.  \<open>t % task.period\<close> raises
  for a period of zero.  A job is created only where the period divides \<open>t\<close>, so
  \<open>int(t / task.period)\<close> is the exact quotient.
\<close>

definition new_job :: "Task \<Rightarrow> int \<Rightarrow> Job" where
  "new_job task t =
     \<lparr>task_id = id' task,
      job_id = t div period task,
      arrival_time = t,
      absolute_deadline = t + deadline task,
      remaining_time = wcet task,
      start_time = - 1,
      finish_time = - 1\<rparr>"

fun release_jobs :: "int \<Rightarrow> Task list \<Rightarrow> Scheduler \<Rightarrow> py_error + Scheduler" where
  "release_jobs t [] s = Inr s"
| "release_jobs t (task # rest) s =
     (if period task = 0 then Inl ZeroDivisionError
      else if t mod period task = 0 then
        release_jobs t rest
          (s\<lparr>objects := objects s @ [new_job task t],
             ready_queue := ready_queue s @ [length (objects s)]\<rparr>)
      else release_jobs t rest s)"

text \<open>
  \<open>next_job != current_job\<close>.  \<open>Job\<close> is a dataclass, so the comparison is by field
  values, not by identity; \<open>None\<close> equals only \<open>None\<close>.
\<close>

definition job_ne :: "Job list \<Rightarrow> nat option \<Rightarrow> nat option \<Rightarrow> bool" where
  "job_ne objs next_job current_job =
     (map_option (\<lambda>a. objs ! a) next_job \<noteq> map_option (\<lambda>a. objs ! a) current_job)"

text \<open>Steps 1 to 3: release, scheduling decision, context switch.\<close>

definition dispatch :: "int \<Rightarrow> Scheduler \<times> nat option \<Rightarrow> py_error + (Scheduler \<times> nat option)" where
  "dispatch t sc =
     (case sc of (s, current_job) \<Rightarrow>
      (case release_jobs t (tasks s) (s\<lparr>time := t\<rparr>) of
         Inl e \<Rightarrow> Inl e
       | Inr s1 \<Rightarrow>
          (case get_active_job s1 of
             Inl e \<Rightarrow> Inl e
           | Inr next_job \<Rightarrow>
               if job_ne (objects s1) next_job current_job then
                 (case next_job of
                    None \<Rightarrow> Inr (s1, None)
                  | Some a \<Rightarrow>
                      if start_time (objects s1 ! a) = - 1
                      then Inr (s1\<lparr>objects := (objects s1)[a := (objects s1 ! a)\<lparr>start_time := t\<rparr>]\<rparr>,
                                Some a)
                      else Inr (s1, Some a))
               else Inr (s1, current_job))))"

text \<open>
  \<open>list.remove(x)\<close> removes the first element equal to \<open>x\<close> and raises \<open>ValueError\<close>
  when there is none.
\<close>

fun remove_first :: "('a \<Rightarrow> bool) \<Rightarrow> 'a list \<Rightarrow> 'a list option" where
  "remove_first P [] = None"
| "remove_first P (x # xs) =
     (if P x then Some xs else map_option ((#) x) (remove_first P xs))"

text \<open>Steps 4 and 5: one unit of execution, and the completion of the job.\<close>

definition execute :: "int \<Rightarrow> Scheduler \<times> nat option \<Rightarrow> py_error + (Scheduler \<times> nat option)" where
  "execute t sc =
     (case sc of (s, current_job) \<Rightarrow>
      (case current_job of
         None \<Rightarrow> Inr (s\<lparr>history := history s @ [(t, None)]\<rparr>, None)
       | Some a \<Rightarrow>
           (let j = (objects s ! a)\<lparr>remaining_time := remaining_time (objects s ! a) - 1\<rparr>;
                s1 = s\<lparr>history := history s @ [(t, Some (task_id (objects s ! a)))],
                       objects := (objects s)[a := j]\<rparr>
            in if remaining_time j = 0 then
                 (let j' = j\<lparr>finish_time := t + 1\<rparr>;
                      s2 = s1\<lparr>objects := (objects s1)[a := j'],
                              completed_jobs := completed_jobs s1 @ [a]\<rparr>
                  in (case remove_first (\<lambda>b. objects s2 ! b = j') (ready_queue s2) of
                        None \<Rightarrow> Inl ValueError
                      | Some rq \<Rightarrow> Inr (s2\<lparr>ready_queue := rq\<rparr>, None)))
               else Inr (s1, Some a))))"

definition tick :: "int \<Rightarrow> Scheduler \<times> nat option \<Rightarrow> py_error + (Scheduler \<times> nat option)" where
  "tick t sc = (case dispatch t sc of Inl e \<Rightarrow> Inl e | Inr sc' \<Rightarrow> execute t sc')"

text \<open>The \<open>for t in range(duration)\<close> loop; \<open>range\<close> of a negative number is empty.\<close>

fun run_loop :: "int list \<Rightarrow> Scheduler \<times> nat option \<Rightarrow> py_error + (Scheduler \<times> nat option)" where
  "run_loop [] sc = Inr sc"
| "run_loop (t # ts) sc = (case tick t sc of Inl e \<Rightarrow> Inl e | Inr sc' \<Rightarrow> run_loop ts sc')"

definition py_range :: "int \<Rightarrow> int list" where
  "py_range n = map int [0..<nat n]"

text \<open>
  \<open>Scheduler.run\<close>.  The result carries the scheduler after the run, the completed jobs
  (the objects behind the references, as the caller sees them) and the history.
\<close>

definition run ::
  "Scheduler \<Rightarrow> int option \<Rightarrow> py_error + (Scheduler \<times> Job list \<times> (int \<times> int option) list)" where
  "run s duration =
     (let d = (case duration of None \<Rightarrow> hyperperiod s | Some d \<Rightarrow> d) in
      case run_loop (py_range d) (s, None) of
        Inl e \<Rightarrow> Inl e
      | Inr (s', current_job) \<Rightarrow>
          Inr (s', map (\<lambda>a. objects s' ! a) (completed_jobs s'), history s'))"


section \<open>Result aggregation (Scheduler.analyze_results)\<close>

text \<open>
  The statistics of one task.  \<open>Sim_Avg_RT\<close> is a float in the source; the model takes
  the exact quotient as a real number.
\<close>

record Stats =
  Sim_WCRT :: int
  Sim_Avg_RT :: real
  Missed :: int

text \<open>Python's \<open>max\<close> of a non-empty sequence: the first greatest element.\<close>

fun py_max :: "int \<Rightarrow> int list \<Rightarrow> int" where
  "py_max best [] = best"
| "py_max best (x # xs) = py_max (if x > best then x else best) xs"

text \<open>
  The body of the loop of \<open>analyze_results\<close> for the completed jobs of one task.  A
  response time of \<open>None\<close> makes \<open>max\<close> or \<open>sum\<close> raise \<open>TypeError\<close>.
\<close>

definition task_stats :: "Job list \<Rightarrow> py_error + Stats" where
  "task_stats jobs =
     (if jobs = [] then Inr \<lparr>Sim_WCRT = 0, Sim_Avg_RT = 0, Missed = 0\<rparr>
      else
        (case those (map response_time jobs) of
           None \<Rightarrow> Inl TypeError
         | Some rts \<Rightarrow>
             Inr \<lparr>Sim_WCRT = py_max (hd rts) (tl rts),
                  Sim_Avg_RT = real_of_int (sum_list rts) / real (length jobs),
                  Missed = int (length (filter is_missed jobs))\<rparr>))"

fun analyze_loop ::
  "Task list \<Rightarrow> Job list \<Rightarrow> (int \<rightharpoonup> Stats) \<Rightarrow> py_error + (int \<rightharpoonup> Stats)" where
  "analyze_loop [] completed stats = Inr stats"
| "analyze_loop (task # rest) completed stats =
     (case task_stats (filter (\<lambda>j. task_id j = id' task) completed) of
        Inl e \<Rightarrow> Inl e
      | Inr st \<Rightarrow> analyze_loop rest completed (stats(id' task \<mapsto> st)))"

definition analyze_results :: "Scheduler \<Rightarrow> py_error + (int \<rightharpoonup> Stats)" where
  "analyze_results s =
     analyze_loop (tasks s) (map (\<lambda>a. objects s ! a) (completed_jobs s)) Map.empty"

section \<open>Utilization bound (analysis.py)\<close>

text \<open>
  Floats are modelled as real numbers.  The theorems below use these definitions only
  on the empty task list, where no floating-point operation is reached before the
  division by zero.
\<close>

fun calculate_utilization :: "Task list \<Rightarrow> py_error + real" where
  "calculate_utilization [] = Inr 0"
| "calculate_utilization (t # ts) =
     (if period t = 0 then Inl ZeroDivisionError
      else (case calculate_utilization ts of
              Inl e \<Rightarrow> Inl e
            | Inr u \<Rightarrow> Inr (real_of_int (wcet t) / real_of_int (period t) + u)))"

definition check_ll_bound :: "Task list \<Rightarrow> py_error + (bool \<times> real \<times> real)" where
  "check_ll_bound ts =
     (let n = length ts in
      case calculate_utilization ts of
        Inl e \<Rightarrow> Inl e
      | Inr u \<Rightarrow>
          if n = 0 then Inl ZeroDivisionError
          else (let bound = real n * (2 powr (1 / real n) - 1) in Inr (u \<le> bound, u, bound)))"

section \<open>Loading the task set (main.py)\<close>

text \<open>
  \<open>load_tasks_from_csv\<close> reads its rows through \<open>csv.DictReader\<close>.  The model starts
  from what the reader yields: the file is missing, or it is a list of rows, each a
  dictionary from column names to values, where the value of a column that a short row
  does not reach is \<open>None\<close>.  Python's \<open>int\<close> on a string is a parameter \<open>parse\<close>
  (\<open>None\<close> where \<open>int\<close> raises \<open>ValueError\<close>); \<open>int(None)\<close> raises \<open>TypeError\<close>.
\<close>

type_synonym csv_row = "string \<rightharpoonup> string option"

datatype csv_source = FileNotFound | Rows "csv_row list"

definition row_get :: "csv_row \<Rightarrow> string \<Rightarrow> string option" where
  "row_get row k = (case row k of None \<Rightarrow> None | Some v \<Rightarrow> v)"

definition row_item :: "csv_row \<Rightarrow> string \<Rightarrow> py_error + string option" where
  "row_item row k = (case row k of None \<Rightarrow> Inl KeyError | Some v \<Rightarrow> Inr v)"

definition py_int :: "(string \<Rightarrow> int option) \<Rightarrow> string option \<Rightarrow> py_error + int" where
  "py_int parse v =
     (case v of
        None \<Rightarrow> Inl TypeError
      | Some str \<Rightarrow> (case parse str of None \<Rightarrow> Inl ValueError | Some i \<Rightarrow> Inr i))"

text \<open>
  Sequencing of two computations that may raise: the exception of the first one
  propagates, otherwise its value is passed on.
\<close>

definition raise_or :: "py_error + 'a \<Rightarrow> ('a \<Rightarrow> py_error + 'b) \<Rightarrow> py_error + 'b" where
  "raise_or r f = (case r of Inl e \<Rightarrow> Inl e | Inr v \<Rightarrow> f v)"

text \<open>
  The constructor of the dataclass \<open>Task\<close>, called with keyword arguments.  The field
  \<open>name\<close> has no default, so a call that does not pass it raises \<open>TypeError\<close>.
\<close>

definition Task_init ::
  "string option \<Rightarrow> int \<Rightarrow> int \<Rightarrow> int \<Rightarrow> int \<Rightarrow> int \<Rightarrow> int \<Rightarrow> py_error + Task" where
  "Task_init nm i b w p d pr =
     (case nm of
        None \<Rightarrow> Inl TypeError
      | Some n \<Rightarrow>
          Inr \<lparr>name = n, id' = i, bcet = b, wcet = w, period = p, deadline = d, priority = pr\<rparr>)"

text \<open>
  The call \<open>Task(id=..., bcet=..., wcet=..., period=..., deadline=..., priority=...)\<close> of
  the loop body: the arguments are evaluated from left to right, then the constructor is
  called without \<open>name\<close>.
\<close>

definition task_of_row :: "(string \<Rightarrow> int option) \<Rightarrow> csv_row \<Rightarrow> py_error + Task" where
  "task_of_row parse row =
     raise_or (row_item row ''Task'') (\<lambda>v1.
     raise_or (py_int parse v1) (\<lambda>i.
     raise_or (py_int parse (row_get row ''BCET'')) (\<lambda>b.
     raise_or (row_item row ''WCET'') (\<lambda>v3.
     raise_or (py_int parse v3) (\<lambda>w.
     raise_or (row_item row ''Period'') (\<lambda>v4.
     raise_or (py_int parse v4) (\<lambda>p.
     raise_or (row_item row ''Deadline'') (\<lambda>v5.
     raise_or (py_int parse v5) (\<lambda>d.
     raise_or (py_int parse (row_get row ''Priority'')) (\<lambda>pr.
     Task_init None i b w p d pr))))))))))"

fun load_rows :: "(string \<Rightarrow> int option) \<Rightarrow> csv_row list \<Rightarrow> Task list \<Rightarrow> py_error + Task list" where
  "load_rows parse [] acc = Inr acc"
| "load_rows parse (row # rest) acc =
     (if row_get row ''Task'' = None \<or> row_get row ''Task'' = Some [] then load_rows parse rest acc
      else (case task_of_row parse row of
              Inl e \<Rightarrow> Inl e
            | Inr t \<Rightarrow> load_rows parse rest (acc @ [t])))"

text \<open>
  \<open>load_tasks_from_csv\<close>: the result is the returned list with the lines printed, or
  the exception that no \<open>except\<close> clause catches.
\<close>

definition load_tasks_from_csv ::
  "(string \<Rightarrow> int option) \<Rightarrow> csv_source \<Rightarrow> py_error + (Task list \<times> string list)" where
  "load_tasks_from_csv parse src =
     (case src of
        FileNotFound \<Rightarrow> Inr ([], [''CSV not found, please check your file path.''])
      | Rows rows \<Rightarrow>
          (case load_rows parse rows [] of
             Inl KeyError \<Rightarrow> Inr ([], [''Error parsing CSV: Missing column''])
           | Inl ValueError \<Rightarrow> Inr ([], [''Error parsing CSV value''])
           | Inl e \<Rightarrow> Inl e
           | Inr ts \<Rightarrow> Inr (ts, [])))"


section \<open>The constructor on shared task objects\<close>

text \<open>
  \<open>Scheduler.__init__\<close> receives references to the caller's \<open>Task\<close> objects, and under DM
  it assigns to the field \<open>priority\<close>.  To say what a construction does to the caller's
  objects, the constructor is modelled a second time over a store of task objects: the
  store is a list, a reference is an index into it, and the caller's task list is a list of
  references.

  \<open>copy.deepcopy\<close> of the list: every object is copied once, to a new object at the end
  of the store; an object that occurs again in the list is found in the memo and its copy
  is used again.
\<close>

fun deepcopy_tasks :: "Task list \<Rightarrow> (nat \<times> nat) list \<Rightarrow> nat list \<Rightarrow> Task list \<times> nat list" where
  "deepcopy_tasks h memo [] = (h, [])"
| "deepcopy_tasks h memo (r # rs) =
     (case map_of memo r of
        Some r' \<Rightarrow> (case deepcopy_tasks h memo rs of (h', rs') \<Rightarrow> (h', r' # rs'))
      | None \<Rightarrow>
          (case deepcopy_tasks (h @ [h ! r]) ((r, length h) # memo) rs of
             (h', rs') \<Rightarrow> (h', length h # rs')))"

text \<open>The loop \<open>for i, t in enumerate(self.tasks): t.priority = i\<close> on the store.\<close>

fun assign_priorities_store :: "Task list \<Rightarrow> (nat \<times> nat) list \<Rightarrow> Task list" where
  "assign_priorities_store h [] = h"
| "assign_priorities_store h ((i, r) # irs) =
     assign_priorities_store (h[r := (h ! r)\<lparr>priority := int i\<rparr>]) irs"

text \<open>
  The constructor: it returns the store after the construction and the scheduler.  After
  the construction the tasks are only read, so the scheduler holds their values.
\<close>

definition Scheduler_new :: "Task list \<Rightarrow> nat list \<Rightarrow> string \<Rightarrow> Task list \<times> Scheduler" where
  "Scheduler_new h tasks_arg alg =
     (case deepcopy_tasks h [] tasks_arg of
        (h1, self_tasks) \<Rightarrow>
          (let periods = map (\<lambda>r. period (h1 ! r)) self_tasks;
               sorted_tasks = (if alg = ''DM'' then sort_key (\<lambda>r. deadline (h1 ! r)) self_tasks
                               else self_tasks);
               h2 = (if alg = ''DM'' then assign_priorities_store h1 (enumerate 0 sorted_tasks)
                     else h1)
           in (h2,
               \<lparr>tasks = map (\<lambda>r. h2 ! r) sorted_tasks,
                algorithm = alg,
                time = 0,
                objects = [],
                ready_queue = [],
                history = [],
                completed_jobs = [],
                hyperperiod = (if periods = [] then 0 else fold lcm periods 1)\<rparr>)))"

section \<open>Example task sets\<close>

text \<open>
  Tasks that satisfy the preconditions of the data model: \<open>task_a\<close> has the
  shortest period; \<open>task_b\<close> has a deadline shorter than its period; \<open>task_c\<close> has its
  deadline at its period.
\<close>

definition task_a :: Task where
  "task_a = \<lparr>name = ''T1'', id' = 1, bcet = 1, wcet = 2, period = 4, deadline = 4, priority = 1\<rparr>"

definition task_b :: Task where
  "task_b = \<lparr>name = ''T2'', id' = 2, bcet = 1, wcet = 3, period = 10, deadline = 4, priority = 2\<rparr>"

definition task_c :: Task where
  "task_c = \<lparr>name = ''T3'', id' = 3, bcet = 1, wcet = 3, period = 10, deadline = 10, priority = 3\<rparr>"

text \<open>
  \<open>task_a_low\<close> is \<open>task_a\<close> with a priority value above that of \<open>task_c\<close>;
  \<open>task_d\<close> has the priority value of \<open>task_a\<close>.
\<close>

definition task_a_low :: Task where
  "task_a_low = \<lparr>name = ''T1'', id' = 1, bcet = 1, wcet = 2, period = 4, deadline = 4, priority = 5\<rparr>"

definition task_d :: Task where
  "task_d = \<lparr>name = ''T4'', id' = 4, bcet = 1, wcet = 1, period = 4, deadline = 4, priority = 1\<rparr>"


section \<open>The float quotient\<close>

subsection \<open>Rounding to the nearest integer\<close>

lemma round_half_even_cases:
  assumes "0 < d"
  shows "round_half_even n d = n div d \<and> 2 * (n mod d) \<le> d
       \<or> round_half_even n d = n div d + 1 \<and> d \<le> 2 * (n mod d)"
  by (auto simp: round_half_even_def Let_def)

lemma round_half_even_exact:
  assumes "0 < d" "n mod d = 0"
  shows "round_half_even n d = n div d"
  using assms by (simp add: round_half_even_def Let_def)

lemma round_half_even_bounds:
  assumes "0 < d"
  shows "2 * n - d \<le> 2 * (d * round_half_even n d)" and "2 * (d * round_half_even n d) \<le> 2 * n + d"
proof -
  define q r where "q = n div d" and "r = n mod d"
  have n: "n = d * q + r" by (simp add: q_def r_def)
  have r: "0 \<le> r" "r < d" using assms by (simp_all add: r_def)
  from round_half_even_cases[OF assms, of n]
  consider "round_half_even n d = q" "2 * r \<le> d" | "round_half_even n d = q + 1" "d \<le> 2 * r"
    unfolding q_def r_def by blast
  then have "2 * n - d \<le> 2 * (d * round_half_even n d) \<and> 2 * (d * round_half_even n d) \<le> 2 * n + d"
  proof cases
    case 1
    then show ?thesis using r unfolding n by (simp add: algebra_simps)
  next
    case 2
    then show ?thesis using r unfolding n by (simp add: algebra_simps)
  qed
  then show "2 * n - d \<le> 2 * (d * round_half_even n d)" "2 * (d * round_half_even n d) \<le> 2 * n + d"
    by simp_all
qed

lemma round_half_even_ge:
  assumes "0 < d" "k * d \<le> n"
  shows "k \<le> round_half_even n d"
proof -
  have "k = (k * d) div d" using assms(1) by simp
  also have "\<dots> \<le> n div d" using assms by (intro zdiv_mono1) simp_all
  finally have "k \<le> n div d" .
  with round_half_even_cases[OF assms(1), of n] show ?thesis by linarith
qed

lemma round_half_even_le:
  assumes "0 < d" "n \<le> k * d"
  shows "round_half_even n d \<le> k"
proof (cases "n div d < k")
  case True
  with round_half_even_cases[OF assms(1), of n] show ?thesis by linarith
next
  case False
  then have q: "k \<le> n div d" by simp
  have "n div d = (n div d * d) div d" using assms(1) by simp
  have "n div d \<le> (k * d) div d" using assms by (intro zdiv_mono1) simp_all
  then have "n div d \<le> k" using assms(1) by simp
  with q have e: "n div d = k" by simp
  have "n = d * (n div d) + n mod d" by simp
  with e assms(2) have "n mod d \<le> 0" by (simp add: algebra_simps)
  moreover have "0 \<le> n mod d" using assms(1) by simp
  ultimately have "n mod d = 0" by simp
  from round_half_even_exact[OF assms(1) this] e show ?thesis by simp
qed

lemma round_half_even_mono:
  assumes "0 < d" "n \<le> n'"
  shows "round_half_even n d \<le> round_half_even n' d"
proof -
  have q: "n div d \<le> n' div d" using assms by (intro zdiv_mono1) simp_all
  show ?thesis
  proof (cases "n div d = n' div d")
    case True
    have "n = d * (n div d) + n mod d" "n' = d * (n' div d) + n' mod d" by simp_all
    with True assms(2) have r: "n mod d \<le> n' mod d" by (metis add_le_cancel_left)
    from round_half_even_cases[OF assms(1), of n] round_half_even_cases[OF assms(1), of n'] True r
    consider "round_half_even n d \<le> round_half_even n' d"
      | "round_half_even n d = n div d + 1" "round_half_even n' d = n div d"
        "2 * (n mod d) = d" "2 * (n' mod d) = d"
      by force
    then show ?thesis
    proof cases
      case 1
      then show ?thesis .
    next
      case 2
      then have "n mod d = n' mod d" by simp
      then have "round_half_even n d = round_half_even n' d"
        using True by (simp add: round_half_even_def)
      then show ?thesis by simp
    qed
  next
    case False
    with q have "n div d + 1 \<le> n' div d" by simp
    with round_half_even_cases[OF assms(1), of n] round_half_even_cases[OF assms(1), of n']
    show ?thesis by linarith
  qed
qed

subsection \<open>Powers of two\<close>

lemma pow2_nat:
  assumes "0 \<le> k"
  shows "real_of_int (2 ^ nat k) = 2 powr real_of_int k"
proof -
  have "(2::real) powr real (nat k) = 2 ^ nat k" by (rule powr_realpow) simp
  moreover have "real (nat k) = real_of_int k" using assms by simp
  ultimately show ?thesis by simp
qed

lemma pow2_pos: "0 < (2::real) powr x" by simp

lemma pow2_cancel: "(2::real) powr x * 2 powr (- x) = 1"
  by (simp add: powr_minus)

subsection \<open>The exponent\<close>

lemma bitlen_real_bounds:
  assumes "0 < a"
  shows "2 powr real_of_int (bitlen a - 1) \<le> real_of_int a" and "real_of_int a < 2 powr real_of_int (bitlen a)"
proof -
  from bitlen_bounds[OF assms] have b: "2 ^ nat (bitlen a - 1) \<le> a" "a < 2 ^ nat (bitlen a)" by simp_all
  have "1 \<le> bitlen a"
  proof (rule ccontr)
    assume "\<not> 1 \<le> bitlen a"
    with bitlen_nonneg[of a] have "bitlen a = 0" by linarith
    with b(2) assms show False by simp
  qed
  then have n: "0 \<le> bitlen a - 1" "0 \<le> bitlen a" by simp_all
  from b(1) have "real_of_int (2 ^ nat (bitlen a - 1)) \<le> real_of_int a" by (simp only: of_int_le_iff)
  then show "2 powr real_of_int (bitlen a - 1) \<le> real_of_int a" unfolding pow2_nat[OF n(1)] .
  from b(2) have "real_of_int a < real_of_int (2 ^ nat (bitlen a))" by (simp only: of_int_less_iff)
  then show "real_of_int a < 2 powr real_of_int (bitlen a)" unfolding pow2_nat[OF n(2)] .
qed

lemma quotient_exponent_test:
  assumes "0 < a" "0 < b"
  shows "(if 0 \<le> d then b * 2 ^ nat d \<le> a else b \<le> a * 2 ^ nat (- d))
       \<longleftrightarrow> real_of_int b * 2 powr real_of_int d \<le> real_of_int a"
proof (cases "0 \<le> d")
  case True
  have "b * 2 ^ nat d \<le> a \<longleftrightarrow> real_of_int (b * 2 ^ nat d) \<le> real_of_int a" by (simp only: of_int_le_iff)
  also have "real_of_int (b * 2 ^ nat d) = real_of_int b * 2 powr real_of_int d"
    using pow2_nat[OF True] by simp
  finally show ?thesis using True by simp
next
  case False
  then have n: "0 \<le> - d" by simp
  have "b \<le> a * 2 ^ nat (- d) \<longleftrightarrow> real_of_int b \<le> real_of_int (a * 2 ^ nat (- d))" by (simp only: of_int_le_iff)
  also have "real_of_int (a * 2 ^ nat (- d)) = real_of_int a * 2 powr real_of_int (- d)"
    using pow2_nat[OF n] by simp
  also have "real_of_int b \<le> real_of_int a * 2 powr real_of_int (- d)
     \<longleftrightarrow> real_of_int b * 2 powr real_of_int d \<le> real_of_int a * 2 powr real_of_int (- d) * 2 powr real_of_int d"
    by (simp only: mult_le_cancel_right_pos[OF pow2_pos])
  also have "real_of_int a * 2 powr real_of_int (- d) * 2 powr real_of_int d = real_of_int a"
    by (simp add: powr_minus)
  finally show ?thesis using False by simp
qed

text \<open>The quotient lies between \<open>2\<^sup>e\<close> and \<open>2\<^sup>e\<^sup>+\<^sup>1\<close>.\<close>

lemma quotient_exponent_bounds:
  assumes "0 < a" "0 < b"
  shows "real_of_int b * 2 powr real_of_int (quotient_exponent a b) \<le> real_of_int a"
    and "real_of_int a < real_of_int b * 2 powr real_of_int (quotient_exponent a b + 1)"
proof -
  define d where "d = bitlen a - bitlen b"
  note A = bitlen_real_bounds[OF assms(1)] and B = bitlen_real_bounds[OF assms(2)]
  have rb: "0 < real_of_int b" using assms(2) by simp
  have up: "real_of_int a < real_of_int b * 2 powr real_of_int (d + 1)"
  proof -
    have "real_of_int a < 2 powr real_of_int (bitlen a)" by (rule A(2))
    also have "\<dots> = 2 powr real_of_int (bitlen b - 1) * 2 powr real_of_int (d + 1)"
      unfolding powr_add[symmetric] d_def by simp
    also have "\<dots> \<le> real_of_int b * 2 powr real_of_int (d + 1)"
      by (rule mult_right_mono[OF B(1)]) simp
    finally show ?thesis .
  qed
  have low: "real_of_int b * 2 powr real_of_int (d - 1) \<le> real_of_int a"
  proof -
    have "real_of_int b * 2 powr real_of_int (d - 1) \<le> 2 powr real_of_int (bitlen b) * 2 powr real_of_int (d - 1)"
      by (rule mult_right_mono[OF less_imp_le[OF B(2)]]) simp
    also have "\<dots> = 2 powr real_of_int (bitlen a - 1)"
      unfolding powr_add[symmetric] d_def by simp
    also have "\<dots> \<le> real_of_int a" by (rule A(1))
    finally show ?thesis .
  qed
  have e: "quotient_exponent a b = (if real_of_int b * 2 powr real_of_int d \<le> real_of_int a then d else d - 1)"
    unfolding quotient_exponent_def Let_def d_def[symmetric] quotient_exponent_test[OF assms] ..
  show "real_of_int b * 2 powr real_of_int (quotient_exponent a b) \<le> real_of_int a"
    unfolding e using low by simp
  show "real_of_int a < real_of_int b * 2 powr real_of_int (quotient_exponent a b + 1)"
    unfolding e using up by (simp add: not_le)
qed


subsection \<open>The rounded quotient\<close>

lemma float_quotient_snd:
  "snd (float_quotient a b) = 52 - max (quotient_exponent a b) (- 1022)"
  by (simp add: float_quotient_def Let_def)

text \<open>The mantissa is the rounding of a fraction equal to \<open>a / b \<cdot> 2\<^sup>s\<close>.\<close>

lemma float_quotient_ratio:
  assumes "0 < a" "0 < b"
  shows "\<exists>N D. 0 < D \<and> fst (float_quotient a b) = round_half_even N D
      \<and> real_of_int N = real_of_int a / real_of_int b
                           * 2 powr real_of_int (snd (float_quotient a b)) * real_of_int D"
proof -
  define s where "s = 52 - max (quotient_exponent a b) (- 1022)"
  have snd: "snd (float_quotient a b) = s" by (simp add: float_quotient_snd s_def)
  have rb: "real_of_int b \<noteq> 0" using assms(2) by simp
  show ?thesis
  proof (cases "0 \<le> s")
    case True
    have m: "fst (float_quotient a b) = round_half_even (a * 2 ^ nat s) b"
      using True by (simp add: float_quotient_def Let_def s_def)
    have "real_of_int (a * 2 ^ nat s) = real_of_int a * 2 powr real_of_int s"
      using pow2_nat[OF True] by simp
    also have "\<dots> = real_of_int a / real_of_int b * 2 powr real_of_int s * real_of_int b"
      using rb by simp
    finally have "real_of_int (a * 2 ^ nat s)
        = real_of_int a / real_of_int b * 2 powr real_of_int s * real_of_int b" .
    with assms(2) m show ?thesis unfolding snd by blast
  next
    case False
    then have n: "0 \<le> - s" by simp
    have m: "fst (float_quotient a b) = round_half_even a (b * 2 ^ nat (- s))"
      using False by (simp add: float_quotient_def Let_def s_def)
    have D: "0 < b * 2 ^ nat (- s)" using assms(2) by simp
    have "real_of_int (b * 2 ^ nat (- s)) = real_of_int b * 2 powr real_of_int (- s)"
      using pow2_nat[OF n] by simp
    then have "real_of_int a / real_of_int b * 2 powr real_of_int s * real_of_int (b * 2 ^ nat (- s))
        = real_of_int a * (2 powr real_of_int s * 2 powr real_of_int (- s))"
      using rb by simp
    also have "\<dots> = real_of_int a" using pow2_cancel[of "real_of_int s"] by simp
    finally have "real_of_int a
        = real_of_int a / real_of_int b * 2 powr real_of_int s * real_of_int (b * 2 ^ nat (- s))"
      by simp
    with D m show ?thesis unfolding snd by blast
  qed
qed

lemma float_quotient_ge:
  assumes "0 < a" "0 < b"
    and "real_of_int k \<le> real_of_int a / real_of_int b * 2 powr real_of_int (snd (float_quotient a b))"
  shows "k \<le> fst (float_quotient a b)"
proof -
  from float_quotient_ratio[OF assms(1,2)] obtain N D where
    D: "0 < D" and m: "fst (float_quotient a b) = round_half_even N D"
    and N: "real_of_int N = real_of_int a / real_of_int b
                           * 2 powr real_of_int (snd (float_quotient a b)) * real_of_int D"
    by blast
  have "real_of_int k * real_of_int D \<le> real_of_int N"
    unfolding N using D by (intro mult_right_mono assms(3)) simp
  then have "real_of_int (k * D) \<le> real_of_int N" by simp
  then have "k * D \<le> N" by (simp only: of_int_le_iff)
  from round_half_even_ge[OF D this] show ?thesis unfolding m .
qed

lemma float_quotient_le:
  assumes "0 < a" "0 < b"
    and "real_of_int a / real_of_int b * 2 powr real_of_int (snd (float_quotient a b)) \<le> real_of_int k"
  shows "fst (float_quotient a b) \<le> k"
proof -
  from float_quotient_ratio[OF assms(1,2)] obtain N D where
    D: "0 < D" and m: "fst (float_quotient a b) = round_half_even N D"
    and N: "real_of_int N = real_of_int a / real_of_int b
                           * 2 powr real_of_int (snd (float_quotient a b)) * real_of_int D"
    by blast
  have "real_of_int N \<le> real_of_int k * real_of_int D"
    unfolding N using D by (intro mult_right_mono assms(3)) simp
  then have "real_of_int N \<le> real_of_int (k * D)" by simp
  then have "N \<le> k * D" by (simp only: of_int_le_iff)
  from round_half_even_le[OF D this] show ?thesis unfolding m .
qed

lemma float_quotient_near:
  assumes "0 < a" "0 < b"
  shows "real_of_int a / real_of_int b * 2 powr real_of_int (snd (float_quotient a b)) - 1 / 2
           \<le> real_of_int (fst (float_quotient a b))"
proof -
  from float_quotient_ratio[OF assms(1,2)] obtain N D where
    D: "0 < D" and m: "fst (float_quotient a b) = round_half_even N D"
    and N: "real_of_int N = real_of_int a / real_of_int b
                           * 2 powr real_of_int (snd (float_quotient a b)) * real_of_int D"
    by blast
  define x where "x = real_of_int a / real_of_int b * 2 powr real_of_int (snd (float_quotient a b))"
  define M where "M = real_of_int (fst (float_quotient a b))"
  define rD where "rD = real_of_int D"
  have rD: "0 < rD" using D by (simp add: rD_def)
  have N': "real_of_int N = x * rD" unfolding N x_def rD_def ..
  from round_half_even_bounds(1)[OF D, of N]
  have "2 * N - D \<le> 2 * (D * fst (float_quotient a b))" unfolding m .
  then have "real_of_int (2 * N - D) \<le> real_of_int (2 * (D * fst (float_quotient a b)))"
    by (simp only: of_int_le_iff)
  then have "2 * real_of_int N - rD \<le> 2 * (rD * M)"
    unfolding rD_def M_def by simp
  then have "2 * (x * rD) - rD \<le> 2 * (rD * M)"
    unfolding N' .
  then have "(x - 1 / 2) * rD \<le> M * rD"
    by (simp add: algebra_simps)
  then have "x - 1 / 2 \<le> M" by (simp only: mult_le_cancel_right_pos[OF rD])
  then show ?thesis unfolding x_def M_def .
qed

lemma float_quotient_nonneg:
  assumes "0 < a" "0 < b"
  shows "0 \<le> fst (float_quotient a b)"
proof (rule float_quotient_ge[OF assms])
  have "0 \<le> real_of_int a / real_of_int b * 2 powr real_of_int (snd (float_quotient a b))"
    using assms by (intro mult_nonneg_nonneg) simp_all
  then show "real_of_int 0 \<le> real_of_int a / real_of_int b * 2 powr real_of_int (snd (float_quotient a b))"
    by (simp only: of_int_0)
qed

text \<open>\<open>float_ceil\<close> is the ceiling of the real number the pair stands for.\<close>

lemma float_ceil_real:
  "float_ceil (m, s) = \<lceil>real_of_int m * 2 powr real_of_int (- s)\<rceil>"
proof (cases "0 \<le> s")
  case True
  have "real_of_int m * 2 powr real_of_int (- s) = real_of_int m / 2 powr real_of_int s"
    by (simp add: powr_minus divide_inverse)
  also have "\<dots> = real_of_int m / real_of_int (2 ^ nat s)" unfolding pow2_nat[OF True] ..
  finally have "\<lceil>real_of_int m * 2 powr real_of_int (- s)\<rceil> = \<lceil>real_of_int m / real_of_int (2 ^ nat s)\<rceil>"
    by simp
  also have "\<dots> = - ((- m) div 2 ^ nat s)" by (rule ceiling_divide_eq_div)
  finally show ?thesis using True by (simp add: float_ceil_def)
next
  case False
  then have n: "0 \<le> - s" by simp
  have "real_of_int m * 2 powr real_of_int (- s) = real_of_int (m * 2 ^ nat (- s))"
    using pow2_nat[OF n] by simp
  then have "\<lceil>real_of_int m * 2 powr real_of_int (- s)\<rceil> = m * 2 ^ nat (- s)"
    by (simp only: ceiling_of_int)
  with False show ?thesis by (simp add: float_ceil_def)
qed

lemma float_ceil_nonneg:
  assumes "0 < a" "0 < b"
  shows "0 \<le> float_ceil (float_quotient a b)"
proof -
  have "0 \<le> real_of_int (fst (float_quotient a b)) * 2 powr real_of_int (- snd (float_quotient a b))"
    using float_quotient_nonneg[OF assms] by simp
  then have "0 \<le> \<lceil>real_of_int (fst (float_quotient a b)) * 2 powr real_of_int (- snd (float_quotient a b))\<rceil>"
    by (simp only: zero_le_ceiling)
  then show ?thesis using float_ceil_real[of "fst (float_quotient a b)" "snd (float_quotient a b)"] by simp
qed


subsection \<open>Operands below \<open>2\<^sup>5\<^sup>3\<close>: the ceiling is exact\<close>

lemma pow2_numeral_53: "(2::real) powr real_of_int 53 = 2 ^ 53"
proof -
  have "real_of_int (2 ^ nat 53) = 2 powr real_of_int 53" by (rule pow2_nat) simp
  then show ?thesis by simp
qed

lemma pow2_less_iff: "(2::real) powr real_of_int i < 2 powr real_of_int j \<longleftrightarrow> i < j"
  by simp

lemma pow2_le_iff: "(2::real) powr real_of_int i \<le> 2 powr real_of_int j \<longleftrightarrow> i \<le> j"
  by simp

lemma pow2_add: "(2::real) powr real_of_int i * 2 powr real_of_int j = 2 powr real_of_int (i + j)"
  by (simp add: powr_add)

lemma float_ceil_exact:
  assumes a: "0 < a" "a < 2 ^ 53" and b: "0 < b" "b < 2 ^ 53"
  shows "float_ceil (float_quotient a b) = - ((- a) div b)"
    and "\<not> float_overflow (float_quotient a b)"
proof -
  define e where "e = quotient_exponent a b"
  define ra rb where "ra = real_of_int a" and "rb = real_of_int b"
  have ra: "1 \<le> ra" "ra < 2 powr real_of_int 53" and rb: "1 \<le> rb" "rb < 2 powr real_of_int 53"
    using a b unfolding pow2_numeral_53 ra_def rb_def by simp_all
  note E = quotient_exponent_bounds[OF a(1) b(1), folded e_def ra_def rb_def]
  have "2 powr real_of_int e \<le> rb * 2 powr real_of_int e"
    using rb(1) by (simp add: mult_le_cancel_right1)
  with E(1) ra(2) have "2 powr real_of_int e < 2 powr real_of_int 53" by linarith
  then have "e < 53" by (simp only: pow2_less_iff)
  then have e_up: "e \<le> 52" by simp
  have "rb * 2 powr real_of_int (e + 1) \<le> 2 powr real_of_int 53 * 2 powr real_of_int (e + 1)"
    using rb(2) by (intro mult_right_mono) simp_all
  also have "\<dots> = 2 powr real_of_int (53 + (e + 1))" by (rule pow2_add)
  finally have "1 < 2 powr real_of_int (53 + (e + 1))" using E(2) ra(1) by linarith
  moreover have "(2::real) powr real_of_int 0 = 1" by simp
  ultimately have "(2::real) powr real_of_int 0 < 2 powr real_of_int (53 + (e + 1))" by simp
  then have "0 < 53 + (e + 1)" by (simp only: pow2_less_iff)
  then have e_low: "- 53 \<le> e" by simp
  define s where "s = 52 - e"
  have s: "0 \<le> s" using e_up by (simp add: s_def)
  have snd: "snd (float_quotient a b) = s"
    unfolding float_quotient_snd e_def[symmetric] s_def using e_low by simp
  define m where "m = fst (float_quotient a b)"
  have f: "float_quotient a b = (m, s)" unfolding m_def snd[symmetric] by simp
  show "\<not> float_overflow (float_quotient a b)" unfolding f float_overflow_def using s by simp
  define P Pi where "P = (2::real) powr real_of_int s" and "Pi = (2::real) powr real_of_int (- s)"
  have PPi: "P * Pi = 1" and Pi: "0 < Pi" and P: "0 < P"
    unfolding P_def Pi_def by (simp_all add: powr_minus)
  define x where "x = ra / rb"
  define c where "c = - ((- a) div b)"
  have c: "c = \<lceil>x\<rceil>" unfolding c_def x_def ra_def rb_def by (simp only: ceiling_divide_eq_div)
  have xc: "x \<le> real_of_int c" "real_of_int c - 1 < x" unfolding c by linarith+
  define M where "M = real_of_int m"
  define v where "v = M * Pi"
  text \<open>The rounded quotient does not exceed the ceiling.\<close>
  have "x * P \<le> real_of_int c * P" using xc(1) P by simp
  also have "\<dots> = real_of_int (c * 2 ^ nat s)" using pow2_nat[OF s] by (simp add: P_def)
  finally have "ra / rb * 2 powr real_of_int (snd (float_quotient a b)) \<le> real_of_int (c * 2 ^ nat s)"
    unfolding snd x_def P_def .
  from float_quotient_le[OF a(1) b(1) this[unfolded ra_def rb_def]]
  have "m \<le> c * 2 ^ nat s" unfolding m_def .
  then have "M \<le> real_of_int (c * 2 ^ nat s)" unfolding M_def by (simp only: of_int_le_iff)
  then have "M \<le> real_of_int c * P" using pow2_nat[OF s] by (simp add: P_def)
  then have "M * Pi \<le> real_of_int c * P * Pi" using Pi by (simp only: mult_le_cancel_right_pos)
  then have v_le: "v \<le> real_of_int c" unfolding v_def using PPi by (simp add: mult.assoc)
  text \<open>It is above the integer below the ceiling.\<close>
  have "x * P - 1 / 2 \<le> M"
    using float_quotient_near[OF a(1) b(1)] unfolding snd x_def P_def M_def m_def ra_def rb_def .
  then have "(x * P - 1 / 2) * Pi \<le> M * Pi" using Pi by (simp only: mult_le_cancel_right_pos)
  moreover have "(x * P - 1 / 2) * Pi = x * (P * Pi) - Pi / 2" by (simp add: algebra_simps)
  ultimately have v_ge: "x - Pi / 2 \<le> v" unfolding v_def PPi by simp
  have "Pi = 2 powr real_of_int e * 2 powr real_of_int (- 52)"
    unfolding Pi_def s_def pow2_add by simp
  then have "rb * Pi = rb * 2 powr real_of_int e * 2 powr real_of_int (- 52)" by simp
  also have "\<dots> < 2 powr real_of_int 53 * 2 powr real_of_int (- 52)"
    using E(1) ra(2) by (intro mult_strict_right_mono) simp_all
  also have "\<dots> = 2 powr real_of_int (53 + (- 52))" by (rule pow2_add)
  also have "\<dots> = 2" by simp
  finally have "rb * Pi < 2" .
  then have half: "Pi / 2 < 1 / rb" using rb(1) by (simp add: field_simps)
  have "(c - 1) * b < a"
  proof -
    have "real_of_int (c - 1) * rb < x * rb" using xc(2) rb(1) by simp
    also have "x * rb = ra" using rb(1) by (simp add: x_def)
    finally have "real_of_int ((c - 1) * b) < real_of_int a" unfolding ra_def rb_def by simp
    then show ?thesis by (simp only: of_int_less_iff)
  qed
  then have "(c - 1) * b + 1 \<le> a" by simp
  then have "real_of_int ((c - 1) * b + 1) \<le> real_of_int a" by (simp only: of_int_le_iff)
  then have "(real_of_int c - 1) * rb + 1 \<le> ra" unfolding ra_def rb_def by simp
  then have "((real_of_int c - 1) * rb + 1) / rb \<le> ra / rb"
    using rb(1) by (intro divide_right_mono) simp_all
  moreover have "((real_of_int c - 1) * rb + 1) / rb = real_of_int c - 1 + 1 / rb"
    using rb(1) by (simp add: add_divide_distrib)
  ultimately have "real_of_int c - 1 + 1 / rb \<le> x" unfolding x_def by simp
  with half v_ge have v_gt: "real_of_int c - 1 < v" by linarith
  have "\<lceil>v\<rceil> = c" using v_gt v_le by (rule ceiling_unique)
  then show "float_ceil (float_quotient a b) = - ((- a) div b)"
    unfolding f float_ceil_real v_def M_def Pi_def c_def .
qed

lemma ceil_div_exact:
  assumes "0 < a" "a < 2 ^ 53" "0 < b" "b < 2 ^ 53"
  shows "ceil_div a b = Inr (- ((- a) div b))"
  using float_ceil_exact[OF assms] assms(1,3) by (simp add: ceil_div_def Let_def)


subsection \<open>Overflow and monotonicity\<close>

lemma quotient_exponent_quot:
  assumes "0 < a" "0 < b"
  shows "2 powr real_of_int (quotient_exponent a b) \<le> real_of_int a / real_of_int b"
    and "real_of_int a / real_of_int b < 2 powr real_of_int (quotient_exponent a b + 1)"
proof -
  have rb: "0 < real_of_int b" using assms(2) by simp
  note E = quotient_exponent_bounds[OF assms]
  show "2 powr real_of_int (quotient_exponent a b) \<le> real_of_int a / real_of_int b"
    unfolding pos_le_divide_eq[OF rb] using E(1) by (simp add: mult.commute)
  show "real_of_int a / real_of_int b < 2 powr real_of_int (quotient_exponent a b + 1)"
    unfolding pos_divide_less_eq[OF rb] using E(2) by (simp add: mult.commute)
qed

lemma pow2_of_int:
  assumes "0 \<le> k"
  shows "(2::real) powr real_of_int k = real_of_int (2 ^ nat k)"
  using pow2_nat[OF assms] by simp

text \<open>With an unclipped exponent the mantissa has at most 53 bits, and at least 53.\<close>

lemma float_quotient_mantissa_le:
  assumes "0 < a" "0 < b"
  shows "fst (float_quotient a b) \<le> 2 ^ 53"
proof (rule float_quotient_le[OF assms])
  define e where "e = quotient_exponent a b"
  define ec where "ec = max e (- 1022)"
  have s: "snd (float_quotient a b) = 52 - ec" by (simp add: float_quotient_snd e_def ec_def)
  have x0: "0 \<le> real_of_int a / real_of_int b" using assms by simp
  have "real_of_int a / real_of_int b \<le> 2 powr real_of_int (e + 1)"
    using quotient_exponent_quot(2)[OF assms] unfolding e_def by simp
  also have "\<dots> \<le> 2 powr real_of_int (ec + 1)"
    unfolding pow2_le_iff by (simp add: ec_def)
  finally have "real_of_int a / real_of_int b * 2 powr real_of_int (52 - ec)
      \<le> 2 powr real_of_int (ec + 1) * 2 powr real_of_int (52 - ec)"
    by (intro mult_right_mono) simp_all
  also have "\<dots> = 2 powr real_of_int (ec + 1 + (52 - ec))" by (rule pow2_add)
  also have "ec + 1 + (52 - ec) = 53" by simp
  also have "(2::real) powr real_of_int 53 = real_of_int (2 ^ 53)"
    using pow2_of_int[of 53] by simp
  finally show "real_of_int a / real_of_int b * 2 powr real_of_int (snd (float_quotient a b))
      \<le> real_of_int (2 ^ 53)" unfolding s .
qed

lemma float_quotient_mantissa_ge:
  assumes "0 < a" "0 < b" "- 1022 \<le> quotient_exponent a b"
  shows "2 ^ 52 \<le> fst (float_quotient a b)"
proof (rule float_quotient_ge[OF assms(1,2)])
  define e where "e = quotient_exponent a b"
  have s: "snd (float_quotient a b) = 52 - e"
    using assms(3) by (simp add: float_quotient_snd e_def)
  have "real_of_int (2 ^ 52) = (2::real) powr real_of_int 52"
    using pow2_of_int[of 52] by simp
  also have "\<dots> = 2 powr real_of_int (e + (52 - e))" by simp
  also have "\<dots> = 2 powr real_of_int e * 2 powr real_of_int (52 - e)" by (rule pow2_add[symmetric])
  also have "\<dots> \<le> real_of_int a / real_of_int b * 2 powr real_of_int (52 - e)"
    using quotient_exponent_quot(1)[OF assms(1,2)] unfolding e_def
    by (intro mult_right_mono) simp_all
  finally show "real_of_int (2 ^ 52)
      \<le> real_of_int a / real_of_int b * 2 powr real_of_int (snd (float_quotient a b))"
    unfolding s .
qed

lemma float_overflow_shift: "float_overflow f \<Longrightarrow> snd f < 0"
  by (cases f) (simp add: float_overflow_def)

text \<open>A dividend below \<open>2\<^sup>1\<^sup>0\<^sup>2\<^sup>3\<close> does not overflow.\<close>

lemma float_no_overflow:
  assumes a: "0 < a" "a < 2 ^ 1023" and b: "0 < b"
  shows "\<not> float_overflow (float_quotient a b)"
proof (cases "0 \<le> snd (float_quotient a b)")
  case True
  with float_overflow_shift[of "float_quotient a b"] show ?thesis by linarith
next
  case False
  define e where "e = quotient_exponent a b"
  define m where "m = fst (float_quotient a b)"
  from False have e: "52 < e" and s: "snd (float_quotient a b) = 52 - e"
    unfolding float_quotient_snd e_def by (simp_all add: max_def split: if_splits)
  have rb: "1 \<le> real_of_int b" using b by simp
  have "2 powr real_of_int e \<le> real_of_int a / real_of_int b"
    using quotient_exponent_quot(1)[OF a(1) b] unfolding e_def .
  also have "\<dots> \<le> real_of_int a"
    using rb a(1) by (simp add: divide_le_eq mult_le_cancel_left1)
  also have "\<dots> < real_of_int (2 ^ 1023)" using a(2) by (simp only: of_int_less_iff)
  also have "\<dots> = 2 powr real_of_int 1023" using pow2_of_int[of 1023] by simp
  finally have "e < 1023" by (simp only: pow2_less_iff)
  then have n: "nat (- (52 - e)) \<le> 970" by simp
  have m: "m \<le> 2 ^ 53" unfolding m_def by (rule float_quotient_mantissa_le[OF a(1) b])
  have "(2::int) ^ nat (- (52 - e)) \<le> 2 ^ 970" using n by (intro power_increasing) simp_all
  with m have "m * 2 ^ nat (- (52 - e)) \<le> 2 ^ 53 * 2 ^ 970"
    by (intro mult_mono) simp_all
  also have "(2::int) ^ 53 * 2 ^ 970 < 2 ^ 1024" by simp
  finally have "\<not> 2 ^ 1024 \<le> m * 2 ^ nat (- (52 - e))" by simp
  moreover have "float_quotient a b = (m, 52 - e)" unfolding m_def s[symmetric] by simp
  ultimately show ?thesis by (simp add: float_overflow_def)
qed

lemma float_quotient_same_shift_mono:
  assumes "0 < b" "a \<le> a'" "snd (float_quotient a b) = snd (float_quotient a' b)"
  shows "fst (float_quotient a b) \<le> fst (float_quotient a' b)"
proof -
  define s where "s = 52 - max (quotient_exponent a b) (- 1022)"
  have s': "52 - max (quotient_exponent a' b) (- 1022) = s"
    using assms(3) unfolding float_quotient_snd s_def by simp
  show ?thesis
  proof (cases "0 \<le> s")
    case True
    have "a * 2 ^ nat s \<le> a' * 2 ^ nat s" using assms(2) by simp
    from round_half_even_mono[OF assms(1) this] True show ?thesis
      unfolding float_quotient_def Let_def s' s_def[symmetric] by simp
  next
    case False
    have "0 < b * 2 ^ nat (- s)" using assms(1) by simp
    from round_half_even_mono[OF this assms(2)] False show ?thesis
      unfolding float_quotient_def Let_def s' s_def[symmetric] by simp
  qed
qed

text \<open>The ceiling of the float quotient does not decrease with the dividend.\<close>

lemma float_ceil_mono:
  assumes a: "0 < a" "a \<le> a'" and b: "0 < b"
  shows "float_ceil (float_quotient a b) \<le> float_ceil (float_quotient a' b)"
proof -
  have a': "0 < a'" using a by simp
  define e e' where "e = quotient_exponent a b" and "e' = quotient_exponent a' b"
  define ec ec' where "ec = max e (- 1022)" and "ec' = max e' (- 1022)"
  define m m' where "m = fst (float_quotient a b)" and "m' = fst (float_quotient a' b)"
  have s: "snd (float_quotient a b) = 52 - ec" "snd (float_quotient a' b) = 52 - ec'"
    by (simp_all add: float_quotient_snd e_def e'_def ec_def ec'_def)
  have f: "float_quotient a b = (m, 52 - ec)" "float_quotient a' b = (m', 52 - ec')"
    unfolding m_def m'_def s[symmetric] by simp_all
  have rb: "0 < real_of_int b" using b by simp
  have "2 powr real_of_int e \<le> real_of_int a / real_of_int b"
    using quotient_exponent_quot(1)[OF a(1) b] unfolding e_def .
  also have "\<dots> \<le> real_of_int a' / real_of_int b"
    using a(2) rb by (intro divide_right_mono) simp_all
  also have "\<dots> < 2 powr real_of_int (e' + 1)"
    using quotient_exponent_quot(2)[OF a' b] unfolding e'_def .
  finally have "e < e' + 1" by (simp only: pow2_less_iff)
  then have ee: "ec \<le> ec'" by (simp add: ec_def ec'_def)
  have "real_of_int m * 2 powr real_of_int (- (52 - ec))
          \<le> real_of_int m' * 2 powr real_of_int (- (52 - ec'))"
  proof (cases "ec = ec'")
    case True
    then have "snd (float_quotient a b) = snd (float_quotient a' b)" unfolding s by simp
    from float_quotient_same_shift_mono[OF b a(2) this] have "m \<le> m'" unfolding m_def m'_def .
    then have "real_of_int m \<le> real_of_int m'" by (simp only: of_int_le_iff)
    then show ?thesis unfolding True by (intro mult_right_mono) simp_all
  next
    case False
    with ee have lt: "ec + 1 \<le> ec'" by simp
    then have "- 1022 \<le> e'" "ec' = e'" by (simp_all add: ec_def ec'_def max_def split: if_splits)
    note big = float_quotient_mantissa_ge[OF a' b, folded e'_def m'_def, OF this(1)]
    note small = float_quotient_mantissa_le[OF a(1) b, folded m_def]
    have "real_of_int m \<le> real_of_int (2 ^ 53)" using small by (simp only: of_int_le_iff)
    also have "\<dots> = 2 powr real_of_int 53" using pow2_of_int[of 53] by simp
    finally have "real_of_int m * 2 powr real_of_int (- (52 - ec))
        \<le> 2 powr real_of_int 53 * 2 powr real_of_int (- (52 - ec))"
      by (intro mult_right_mono) simp_all
    also have "\<dots> = 2 powr real_of_int (53 + - (52 - ec))" by (rule pow2_add)
    also have "\<dots> \<le> 2 powr real_of_int (52 + - (52 - ec'))"
      unfolding pow2_le_iff using lt by simp
    also have "\<dots> = 2 powr real_of_int 52 * 2 powr real_of_int (- (52 - ec'))"
      by (rule pow2_add[symmetric])
    also have "(2::real) powr real_of_int 52 = real_of_int (2 ^ 52)" using pow2_of_int[of 52] by simp
    also have "real_of_int (2 ^ 52) * 2 powr real_of_int (- (52 - ec'))
        \<le> real_of_int m' * 2 powr real_of_int (- (52 - ec'))"
      using big by (intro mult_right_mono) (simp_all only: of_int_le_iff, simp)
    finally show ?thesis .
  qed
  then have "\<lceil>real_of_int m * 2 powr real_of_int (- (52 - ec))\<rceil>
          \<le> \<lceil>real_of_int m' * 2 powr real_of_int (- (52 - ec'))\<rceil>"
    by (rule ceiling_mono)
  then show ?thesis unfolding f float_ceil_real .
qed


section \<open>Termination of the response-time iteration\<close>

declare wcrt_loop.simps [code]

lemma ceil_div_pos:
  assumes "0 < a" "0 < b"
  shows "ceil_div a b = (if float_overflow (float_quotient a b) then Inl OverflowError
                         else Inr (float_ceil (float_quotient a b)))"
  using assms by (simp add: ceil_div_def Let_def)

lemma interference_loop_sum:
  assumes "0 < R" "\<forall>h\<in>set hps. 0 < period h"
  shows "interference_loop R hps acc =
     (if division_overflows hps R then Inl OverflowError
      else Inr (acc + (\<Sum>h\<leftarrow>hps. float_ceil (float_quotient R (period h)) * wcet h)))"
  using assms(2)
proof (induction hps arbitrary: acc)
  case Nil
  show ?case by (simp add: division_overflows_def)
next
  case (Cons h hps)
  have p: "0 < period h" and rest: "\<forall>h\<in>set hps. 0 < period h" using Cons.prems by simp_all
  show ?case
  proof (cases "float_overflow (float_quotient R (period h))")
    case True
    then show ?thesis by (simp add: ceil_div_pos[OF assms(1) p] division_overflows_def)
  next
    case False
    then have "division_overflows (h # hps) R = division_overflows hps R"
      by (simp add: division_overflows_def)
    with False Cons.IH[OF rest] show ?thesis
      by (simp add: ceil_div_pos[OF assms(1) p] algebra_simps)
  qed
qed

lemma next_candidate_mono:
  assumes "\<forall>h\<in>set hps. 0 < period h \<and> 0 \<le> wcet h" "0 < a" "a \<le> b"
  shows "next_candidate task hps a \<le> next_candidate task hps b"
proof -
  have "(\<Sum>h\<leftarrow>hps. float_ceil (float_quotient a (period h)) * wcet h)
      \<le> (\<Sum>h\<leftarrow>hps. float_ceil (float_quotient b (period h)) * wcet h)"
    using assms by (intro sum_list_mono mult_right_mono float_ceil_mono) auto
  then show ?thesis by (simp add: next_candidate_def)
qed

lemma next_candidate_ge_wcet:
  assumes "\<forall>h\<in>set hps. 0 < period h \<and> 0 \<le> wcet h" "0 < a"
  shows "wcet task \<le> next_candidate task hps a"
proof -
  have "0 \<le> float_ceil (float_quotient a (period x)) * wcet x" if "x \<in> set hps" for x
    using that assms by (intro mult_nonneg_nonneg float_ceil_nonneg) auto
  then have "0 \<le> (\<Sum>h\<leftarrow>hps. float_ceil (float_quotient a (period h)) * wcet h)"
    by (intro sum_list_nonneg) auto
  then show ?thesis by (simp add: next_candidate_def)
qed

lemma candidate_ge_wcet:
  assumes hp: "\<forall>h\<in>set hps. 0 < period h \<and> 0 \<le> wcet h" and w: "0 < wcet task"
  shows "wcet task \<le> candidate task hps k"
proof (induction k)
  case 0
  show ?case by simp
next
  case (Suc k)
  with w have "0 < candidate task hps k" by linarith
  from next_candidate_ge_wcet[OF hp this] show ?case by simp
qed

lemma candidate_pos:
  assumes "\<forall>h\<in>set hps. 0 < period h \<and> 0 \<le> wcet h" "0 < wcet task"
  shows "0 < candidate task hps k"
  using candidate_ge_wcet[OF assms, of k] assms(2) by linarith

lemma candidate_chain:
  assumes hp: "\<forall>h\<in>set hps. 0 < period h \<and> 0 \<le> wcet h" and w: "0 < wcet task"
  shows "candidate task hps k \<le> candidate task hps (Suc k)"
proof (induction k)
  case 0
  show ?case using next_candidate_ge_wcet[OF hp w] by simp
next
  case (Suc k)
  then show ?case using next_candidate_mono[OF hp candidate_pos[OF hp w]] by simp
qed

lemma wcrt_loop_unfold:
  assumes "0 < R" "\<forall>h\<in>set hps. 0 < period h"
  shows "wcrt_loop task hps R =
     (if division_overflows hps R then Some (Inl OverflowError)
      else let R_new = next_candidate task hps R in
           if R_new > deadline task then Some (Inr R_new)
           else if R_new = R then Some (Inr R_new)
           else wcrt_loop task hps R_new)"
  by (subst wcrt_loop.simps) (simp add: interference_loop_sum[OF assms] next_candidate_def)

text \<open>
  From the \<open>m\<close>-th candidate on the loop reaches an exit: there is an \<open>n\<close> up to which
  no division overflows and every candidate is within the deadline and new, and at \<open>n\<close>
  either a division overflows, or the next candidate is returned.
\<close>

lemma wcrt_loop_from:
  assumes hp: "\<forall>h\<in>set hps. 0 < period h \<and> 0 \<le> wcet h" and w: "0 < wcet task"
  shows "\<exists>n\<ge>m.
      (\<forall>k. m \<le> k \<and> k < n \<longrightarrow>
            \<not> division_overflows hps (candidate task hps k)
          \<and> candidate task hps (Suc k) \<le> deadline task
          \<and> candidate task hps (Suc k) \<noteq> candidate task hps k)
    \<and> (division_overflows hps (candidate task hps n)
          \<and> wcrt_loop task hps (candidate task hps m) = Some (Inl OverflowError)
        \<or> \<not> division_overflows hps (candidate task hps n)
          \<and> wcrt_loop task hps (candidate task hps m) = Some (Inr (candidate task hps (Suc n)))
          \<and> (candidate task hps (Suc n) > deadline task
               \<or> candidate task hps (Suc n) = candidate task hps n))"
proof (induction "nat (deadline task - candidate task hps m)" arbitrary: m rule: less_induct)
  case less
  have nz: "\<forall>h\<in>set hps. 0 < period h" using hp by auto
  let ?c = "candidate task hps"
  let ?o = "division_overflows hps"
  note unf = wcrt_loop_unfold[OF candidate_pos[OF hp w] nz, of task m]
  show ?case
  proof (cases "?o (?c m) \<or> ?c (Suc m) > deadline task \<or> ?c (Suc m) = ?c m")
    case True
    then have "?o (?c m) \<and> wcrt_loop task hps (?c m) = Some (Inl OverflowError)
        \<or> \<not> ?o (?c m) \<and> wcrt_loop task hps (?c m) = Some (Inr (?c (Suc m)))
          \<and> (?c (Suc m) > deadline task \<or> ?c (Suc m) = ?c m)"
      using unf by (auto simp: Let_def)
    then show ?thesis by (intro exI[of _ m]) auto
  next
    case False
    then have no: "\<not> ?o (?c m)" and le: "?c (Suc m) \<le> deadline task" and ne: "?c (Suc m) \<noteq> ?c m"
      by auto
    have "?c m \<le> ?c (Suc m)" by (rule candidate_chain[OF hp w])
    with ne have lt: "?c m < ?c (Suc m)" by simp
    have step: "wcrt_loop task hps (?c m) = wcrt_loop task hps (?c (Suc m))"
      using unf False by (auto simp: Let_def)
    have "nat (deadline task - ?c (Suc m)) < nat (deadline task - ?c m)"
      using lt le by simp
    from less[OF this] obtain n where n: "n \<ge> Suc m"
      "\<forall>k. Suc m \<le> k \<and> k < n \<longrightarrow>
          \<not> ?o (?c k) \<and> ?c (Suc k) \<le> deadline task \<and> ?c (Suc k) \<noteq> ?c k"
      "?o (?c n) \<and> wcrt_loop task hps (?c (Suc m)) = Some (Inl OverflowError)
        \<or> \<not> ?o (?c n) \<and> wcrt_loop task hps (?c (Suc m)) = Some (Inr (?c (Suc n)))
          \<and> (?c (Suc n) > deadline task \<or> ?c (Suc n) = ?c n)"
      by (elim exE conjE)
    have all: "\<forall>k. m \<le> k \<and> k < n \<longrightarrow>
          \<not> ?o (?c k) \<and> ?c (Suc k) \<le> deadline task \<and> ?c (Suc k) \<noteq> ?c k"
    proof (intro allI impI)
      fix k assume "m \<le> k \<and> k < n"
      then consider "k = m" | "Suc m \<le> k \<and> k < n" by linarith
      then show "\<not> ?o (?c k) \<and> ?c (Suc k) \<le> deadline task \<and> ?c (Suc k) \<noteq> ?c k"
        using no le ne n(2) by cases auto
    qed
    have mn: "m \<le> n" using n(1) by simp
    from n(3) have last: "?o (?c n) \<and> wcrt_loop task hps (?c m) = Some (Inl OverflowError)
        \<or> \<not> ?o (?c n) \<and> wcrt_loop task hps (?c m) = Some (Inr (?c (Suc n)))
          \<and> (?c (Suc n) > deadline task \<or> ?c (Suc n) = ?c n)"
      unfolding step .
    from mn all last show ?thesis by blast
  qed
qed

text \<open>While the loop runs, the candidates stay within the larger of wcet and deadline.\<close>

lemma candidate_bounded:
  assumes "\<forall>k<n. candidate task hps (Suc k) \<le> deadline task" "k \<le> n"
  shows "candidate task hps k \<le> max (wcet task) (deadline task)"
proof (cases k)
  case 0
  then show ?thesis by simp
next
  case (Suc j)
  with assms have "candidate task hps (Suc j) \<le> deadline task" by simp
  with Suc show ?thesis by simp
qed

lemma no_division_overflow:
  assumes "\<forall>h\<in>set hps. 0 < period h" "0 < R" "R < 2 ^ 1023"
  shows "\<not> division_overflows hps R"
  using assms float_no_overflow[of R] by (auto simp: division_overflows_def)

text \<open>
  C3.  For a task with positive wcet and deadline and higher-priority tasks with positive
  periods and non-negative wcet, the loop of \<open>calculate_exact_wcrt_rm\<close> terminates
  without an iteration cap.  The candidates, starting at the task's wcet, never decrease.
  There is an \<open>n\<close> such that every candidate up to the \<open>n\<close>-th is computed without an
  overflow, is within the deadline and differs from its predecessor, and then the loop
  exits: it returns the next candidate, which exceeds the deadline or repeats the \<open>n\<close>-th
  (the first fixed point), or a float division of the \<open>n\<close>-th candidate is too large for a
  float and \<open>OverflowError\<close> is raised.  With wcet and deadline below \<open>2\<^sup>1\<^sup>0\<^sup>2\<^sup>3\<close> no division
  overflows and a value is returned.
\<close>

theorem calculate_exact_wcrt_rm_terminates:
  assumes "wcet task > 0" and "deadline task > 0"
    and "\<forall>h\<in>set hps. period h > 0 \<and> wcet h \<ge> 0"
  shows "\<exists>n. (\<forall>k. candidate task hps k \<le> candidate task hps (Suc k))
      \<and> (\<forall>k<n. \<not> division_overflows hps (candidate task hps k)
                \<and> candidate task hps (Suc k) \<le> deadline task
                \<and> candidate task hps (Suc k) \<noteq> candidate task hps k)
      \<and> (division_overflows hps (candidate task hps n)
            \<and> calculate_exact_wcrt_rm task hps = Some (Inl OverflowError)
          \<or> \<not> division_overflows hps (candidate task hps n)
            \<and> calculate_exact_wcrt_rm task hps = Some (Inr (candidate task hps (Suc n)))
            \<and> (candidate task hps (Suc n) > deadline task
                 \<or> candidate task hps (Suc n) = candidate task hps n))
      \<and> (wcet task < 2 ^ 1023 \<and> deadline task < 2 ^ 1023
            \<longrightarrow> \<not> division_overflows hps (candidate task hps n))"
proof -
  let ?c = "candidate task hps"
  let ?o = "division_overflows hps"
  have nz: "\<forall>h\<in>set hps. 0 < period h" using assms(3) by auto
  from wcrt_loop_from[OF assms(3,1), of 0] obtain n where
    run: "\<forall>k. 0 \<le> k \<and> k < n \<longrightarrow> \<not> ?o (?c k) \<and> ?c (Suc k) \<le> deadline task \<and> ?c (Suc k) \<noteq> ?c k"
    and exit: "?o (?c n) \<and> wcrt_loop task hps (?c 0) = Some (Inl OverflowError)
        \<or> \<not> ?o (?c n) \<and> wcrt_loop task hps (?c 0) = Some (Inr (?c (Suc n)))
          \<and> (?c (Suc n) > deadline task \<or> ?c (Suc n) = ?c n)"
    by (elim exE conjE)
  have 1: "\<forall>k. ?c k \<le> ?c (Suc k)" using candidate_chain[OF assms(3,1)] by blast
  have 2: "\<forall>k<n. \<not> ?o (?c k) \<and> ?c (Suc k) \<le> deadline task \<and> ?c (Suc k) \<noteq> ?c k"
    using run by simp
  have 3: "?o (?c n) \<and> calculate_exact_wcrt_rm task hps = Some (Inl OverflowError)
        \<or> \<not> ?o (?c n) \<and> calculate_exact_wcrt_rm task hps = Some (Inr (?c (Suc n)))
          \<and> (?c (Suc n) > deadline task \<or> ?c (Suc n) = ?c n)"
    using exit unfolding calculate_exact_wcrt_rm_def by simp
  have 4: "wcet task < 2 ^ 1023 \<and> deadline task < 2 ^ 1023 \<longrightarrow> \<not> ?o (?c n)"
  proof
    assume b: "wcet task < 2 ^ 1023 \<and> deadline task < 2 ^ 1023"
    have "\<forall>k<n. ?c (Suc k) \<le> deadline task" using 2 by simp
    from candidate_bounded[OF this order_refl] b have "?c n < 2 ^ 1023" by (simp add: max_def split: if_splits)
    from no_division_overflow[OF nz candidate_pos[OF assms(3,1)] this] show "\<not> ?o (?c n)" .
  qed
  from 1 2 3 4 show ?thesis by blast
qed

theorem calculate_exact_wcrt_rm_terminates_witness:
  "\<exists>n. calculate_exact_wcrt_rm task_c [task_a] = Some (Inr (candidate task_c [task_a] (Suc n)))
      \<and> \<not> division_overflows [task_a] (candidate task_c [task_a] n)
      \<and> candidate task_c [task_a] (Suc n) = 7"
proof -
  have pre: "wcet task_c > 0" "deadline task_c > 0"
    "\<forall>h\<in>set [task_a]. period h > 0 \<and> wcet h \<ge> 0"
    by (simp_all add: task_a_def task_c_def)
  have small: "wcet task_c < 2 ^ 1023 \<and> deadline task_c < 2 ^ 1023" by (simp add: task_c_def)
  have v: "calculate_exact_wcrt_rm task_c [task_a] = Some (Inr 7)" by code_simp
  from calculate_exact_wcrt_rm_terminates[OF pre] obtain n where
    exit: "division_overflows [task_a] (candidate task_c [task_a] n)
            \<and> calculate_exact_wcrt_rm task_c [task_a] = Some (Inl OverflowError)
          \<or> \<not> division_overflows [task_a] (candidate task_c [task_a] n)
            \<and> calculate_exact_wcrt_rm task_c [task_a] = Some (Inr (candidate task_c [task_a] (Suc n)))
            \<and> (candidate task_c [task_a] (Suc n) > deadline task_c
                 \<or> candidate task_c [task_a] (Suc n) = candidate task_c [task_a] n)"
    and no: "wcet task_c < 2 ^ 1023 \<and> deadline task_c < 2 ^ 1023
            \<longrightarrow> \<not> division_overflows [task_a] (candidate task_c [task_a] n)"
    by (elim exE conjE)
  from no small have o: "\<not> division_overflows [task_a] (candidate task_c [task_a] n)" by (rule mp)
  with exit have r: "calculate_exact_wcrt_rm task_c [task_a] = Some (Inr (candidate task_c [task_a] (Suc n)))"
    by blast
  with v have "candidate task_c [task_a] (Suc n) = 7" by simp
  with r o show ?thesis by blast
qed

text \<open>
  A task whose wcet is beyond the range of a float: the first division of the loop raises
  \<open>OverflowError\<close>, so the loop exits neither at a fixed point nor above the deadline.
\<close>

theorem calculate_exact_wcrt_rm_overflows:
  "0 < wcet (task_c\<lparr>wcet := 10 ^ 309, deadline := 10 ^ 309\<rparr>)
   \<and> 0 < deadline (task_c\<lparr>wcet := 10 ^ 309, deadline := 10 ^ 309\<rparr>)
   \<and> 0 < period task_a \<and> 0 \<le> wcet task_a
   \<and> calculate_exact_wcrt_rm (task_c\<lparr>wcet := 10 ^ 309, deadline := 10 ^ 309\<rparr>) [task_a]
       = Some (Inl OverflowError)"
proof -
  have "calculate_exact_wcrt_rm (task_c\<lparr>wcet := 10 ^ 309, deadline := 10 ^ 309\<rparr>) [task_a]
       = Some (Inl OverflowError)" by code_simp
  then show ?thesis by (simp add: task_a_def task_c_def)
qed

text \<open>
  Above \<open>2\<^sup>5\<^sup>3\<close> the float ceiling can differ from the exact one: the quotient
  \<open>(2\<^sup>5\<^sup>3 + 1) / 1\<close> is rounded to \<open>2\<^sup>5\<^sup>3\<close>, and the value returned is one less than the
  recurrence of the docstring gives.
\<close>

lemma calculate_exact_wcrt_rm_inexact:
  "calculate_exact_wcrt_rm (task_c\<lparr>wcet := 2 ^ 53 + 1, deadline := 2 ^ 53 + 1\<rparr>)
       [task_a\<lparr>wcet := 1, period := 1\<rparr>] = Some (Inr (2 ^ 54 + 1))
   \<and> exact_candidate (task_c\<lparr>wcet := 2 ^ 53 + 1, deadline := 2 ^ 53 + 1\<rparr>)
       [task_a\<lparr>wcet := 1, period := 1\<rparr>] (2 ^ 53 + 1) = 2 ^ 54 + 2"
  by code_simp


section \<open>Releases, and runs in which no job is dispatched\<close>

text \<open>The jobs that the release step creates at tick \<open>t\<close>, in the order of the task list.\<close>

definition releases :: "Task list \<Rightarrow> int \<Rightarrow> Job list" where
  "releases ts t = map (\<lambda>task. new_job task t) (filter (\<lambda>task. t mod period task = 0) ts)"

lemma release_jobs_closed:
  "\<forall>task\<in>set ts. period task \<noteq> 0 \<Longrightarrow>
   release_jobs t ts s =
     Inr (s\<lparr>objects := objects s @ releases ts t,
            ready_queue := ready_queue s @ [length (objects s)..<length (objects s) + length (releases ts t)]\<rparr>)"
proof (induction ts arbitrary: s)
  case Nil
  then show ?case by (simp add: releases_def)
next
  case (Cons a ts)
  then show ?case by (simp add: releases_def upt_rec[of "length (objects s)"])
qed

lemma upt_adjacent: "i \<le> j \<Longrightarrow> j \<le> k \<Longrightarrow> [i..<j] @ [j..<k] = [i..<k]"
  by (metis le_Suc_ex upt_add_eq_append)

lemma get_active_job_unknown:
  "algorithm s \<notin> {''RM'', ''DM'', ''EDF''} \<Longrightarrow> get_active_job s = Inr None"
  by (simp add: get_active_job_def)

lemma tick_unknown:
  assumes "algorithm s \<notin> {''RM'', ''DM'', ''EDF''}" "\<forall>task\<in>set (tasks s). period task \<noteq> 0"
  shows "tick t (s, None) =
     Inr (s\<lparr>time := t, objects := objects s @ releases (tasks s) t,
            ready_queue := ready_queue s @ [length (objects s)..<length (objects s) + length (releases (tasks s) t)],
            history := history s @ [(t, None)]\<rparr>, None)"
  using assms
  by (simp add: tick_def dispatch_def execute_def release_jobs_closed get_active_job_unknown job_ne_def)

lemma run_loop_unknown:
  assumes "algorithm s \<notin> {''RM'', ''DM'', ''EDF''}" "\<forall>task\<in>set (tasks s). period task \<noteq> 0"
  shows "\<exists>s'. run_loop ts (s, None) = Inr (s', None)
     \<and> tasks s' = tasks s \<and> algorithm s' = algorithm s
     \<and> completed_jobs s' = completed_jobs s
     \<and> history s' = history s @ map (\<lambda>t. (t, None)) ts
     \<and> objects s' = objects s @ concat (map (releases (tasks s)) ts)
     \<and> ready_queue s' = ready_queue s @ [length (objects s)..<length (objects s')]"
  using assms
proof (induction ts arbitrary: s)
  case Nil
  then show ?case by simp
next
  case (Cons t ts)
  let ?s1 = "s\<lparr>time := t, objects := objects s @ releases (tasks s) t,
            ready_queue := ready_queue s @ [length (objects s)..<length (objects s) + length (releases (tasks s) t)],
            history := history s @ [(t, None)]\<rparr>"
  have t: "tick t (s, None) = Inr (?s1, None)" using Cons.prems by (rule tick_unknown)
  have "algorithm ?s1 \<notin> {''RM'', ''DM'', ''EDF''}" "\<forall>task\<in>set (tasks ?s1). period task \<noteq> 0"
    using Cons.prems by simp_all
  from Cons.IH[OF this] obtain s' where s': "run_loop ts (?s1, None) = Inr (s', None)"
     "tasks s' = tasks ?s1" "algorithm s' = algorithm ?s1"
     "completed_jobs s' = completed_jobs ?s1"
     "history s' = history ?s1 @ map (\<lambda>t. (t, None)) ts"
     "objects s' = objects ?s1 @ concat (map (releases (tasks ?s1)) ts)"
     "ready_queue s' = ready_queue ?s1 @ [length (objects ?s1)..<length (objects s')]"
    by blast
  have "[length (objects s)..<length (objects s) + length (releases (tasks s) t)] @
        [length (objects s) + length (releases (tasks s) t)..<length (objects s')]
        = [length (objects s)..<length (objects s')]"
    using s'(6) by (intro upt_adjacent) simp_all
  with s' t show ?case by (intro exI[of _ s']) simp
qed

text \<open>
  C10.  A scheduler constructed with an algorithm string other than "RM", "DM" and "EDF",
  over tasks whose periods are not zero (the release step divides by the period), runs
  for any duration without raising.  No job is completed, every trace entry is idle, and
  the jobs are still released: the objects created are exactly the releases of each
  tick, untouched (remaining time at the wcet, start and finish time unset), and all of
  them are in the ready queue.
\<close>

theorem unknown_algorithm_idles:
  assumes "alg \<notin> {''RM'', ''DM'', ''EDF''}" and "\<forall>task\<in>set ts. period task \<noteq> 0"
  shows "\<exists>s'. run (Scheduler_init ts alg) (Some d) = Inr (s', [], map (\<lambda>t. (t, None)) (py_range d))
     \<and> completed_jobs s' = []
     \<and> objects s' = concat (map (releases ts) (py_range d))
     \<and> ready_queue s' = [0..<length (objects s')]"
proof -
  let ?s = "Scheduler_init ts alg"
  have "algorithm ?s \<notin> {''RM'', ''DM'', ''EDF''}" "\<forall>task\<in>set (tasks ?s). period task \<noteq> 0"
    using assms by (simp_all add: Scheduler_init_def)
  from run_loop_unknown[OF this, of "py_range d"] obtain s' where
    "run_loop (py_range d) (?s, None) = Inr (s', None)"
     "completed_jobs s' = completed_jobs ?s"
     "history s' = history ?s @ map (\<lambda>t. (t, None)) (py_range d)"
     "objects s' = objects ?s @ concat (map (releases (tasks ?s)) (py_range d))"
     "ready_queue s' = ready_queue ?s @ [length (objects ?s)..<length (objects s')]"
    by blast
  then show ?thesis using assms(1)
    by (intro exI[of _ s']) (simp add: run_def Scheduler_init_def)
qed

theorem unknown_algorithm_idles_witness:
  "\<exists>s'. run (Scheduler_init [task_a, task_b] ''FIFO'') (Some 5) =
          Inr (s', [], [(0, None), (1, None), (2, None), (3, None), (4, None)])
     \<and> ready_queue s' = [0, 1, 2]
     \<and> objects s' = [new_job task_a 0, new_job task_b 0, new_job task_a 4]"
proof -
  have pre: "''FIFO'' \<notin> {''RM'', ''DM'', ''EDF''}" "\<forall>task\<in>set [task_a, task_b]. period task \<noteq> 0"
    by (simp_all add: task_a_def task_b_def)
  have r: "py_range 5 = [0, 1, 2, 3, 4]" by (simp add: py_range_def upt_rec)
  have o: "concat (map (releases [task_a, task_b]) (py_range 5))
             = [new_job task_a 0, new_job task_b 0, new_job task_a 4]"
    unfolding r by (simp add: releases_def task_a_def task_b_def)
  from unknown_algorithm_idles[OF pre, of 5] show ?thesis unfolding o unfolding r
    by (auto simp: upt_rec)
qed

section \<open>The empty task set\<close>

lemma run_loop_empty:
  assumes "tasks s = []" "ready_queue s = []"
  shows "run_loop ts (s, None) = Inr (s\<lparr>time := (if ts = [] then time s else last ts), history := history s @ map (\<lambda>t. (t, None)) ts\<rparr>, None)"
  using assms
proof (induction ts arbitrary: s)
  case Nil
  then show ?case by simp
next
  case (Cons t ts)
  have "tick t (s, None) = Inr (s\<lparr>time := t, history := history s @ [(t, None)]\<rparr>, None)"
    using Cons.prems by (simp add: tick_def dispatch_def execute_def get_active_job_def job_ne_def)
  with Cons show ?case by simp
qed

text \<open>
  C4.  For the empty task set \<open>check_ll_bound\<close> raises \<open>ZeroDivisionError\<close> (it
  divides by the number of tasks); \<open>main\<close> returns before it calls it on an empty list.
  The constructor of the scheduler gives hyperperiod 0, and a run for a duration supplied
  by the caller returns: no job completes and every entry of the trace is idle.
\<close>

theorem empty_task_set:
  "check_ll_bound [] = Inl ZeroDivisionError
   \<and> hyperperiod (Scheduler_init [] alg) = 0
   \<and> (\<exists>s'. run (Scheduler_init [] alg) (Some d) = Inr (s', [], map (\<lambda>t. (t, None)) (py_range d)))"
proof -
  have "tasks (Scheduler_init [] alg) = []" "ready_queue (Scheduler_init [] alg) = []"
    by (simp_all add: Scheduler_init_def assign_priorities_def)
  from run_loop_empty[OF this, of "py_range d"] show ?thesis
    by (simp add: check_ll_bound_def run_def Scheduler_init_def)
qed

theorem check_ll_bound_empty_raises: "\<not> (\<exists>r. check_ll_bound [] = Inr r)"
  by (simp add: check_ll_bound_def)


definition released :: "int \<Rightarrow> Scheduler \<Rightarrow> Scheduler" where
  "released t s =
     s\<lparr>time := t, objects := objects s @ releases (tasks s) t,
       ready_queue := ready_queue s @
         [length (objects s)..<length (objects s) + length (releases (tasks s) t)]\<rparr>"

lemma release_jobs_released:
  "\<forall>task\<in>set (tasks s). period task \<noteq> 0 \<Longrightarrow>
   release_jobs t (tasks s) (s\<lparr>time := t\<rparr>) = Inr (released t s)"
  by (simp add: release_jobs_closed released_def)

lemma release_jobs_Inr_periods:
  "release_jobs t ts s = Inr s1 \<Longrightarrow> \<forall>task\<in>set ts. period task \<noteq> 0"
  by (induction ts arbitrary: s) (auto split: if_splits)

lemma get_task_found:
  "i \<in> id' ` set ts \<Longrightarrow> \<exists>t. get_task ts i = Inr t \<and> t \<in> set ts \<and> id' t = i"
  by (induction ts) auto

lemma keys_of_Inr:
  "\<forall>x\<in>set xs. \<exists>k. f x = Inr k \<Longrightarrow>
   keys_of f xs = Inr (map (\<lambda>x. (projr (f x), x)) xs)"
  by (induction xs) auto

lemma keys_of_Inr_conv:
  "keys_of f xs = Inr ks \<Longrightarrow> ks = map (\<lambda>x. (projr (f x), x)) xs \<and> (\<forall>x\<in>set xs. \<exists>k. f x = Inr k)"
  by (induction xs arbitrary: ks) (auto split: sum.splits)

lemma cons_pair_eq: "b # ks = (m, r) # post \<Longrightarrow> fst b = m \<and> ks = post"
  by auto

lemma py_min_first:
  "\<exists>pre m post. b # ks = pre @ (m, py_min b ks) # post
     \<and> (\<forall>x\<in>set pre. m < fst x) \<and> (\<forall>x\<in>set post. m \<le> fst x)"
proof (induction ks arbitrary: b)
  case Nil
  show ?case by (rule exI[of _ "[]"], rule exI[of _ "fst b"], rule exI[of _ "[]"]) simp
next
  case (Cons x ks)
  show ?case
  proof (cases "fst x < fst b")
    case True
    from Cons[of x] obtain pre m post where p: "x # ks = pre @ (m, py_min x ks) # post"
      "\<forall>y\<in>set pre. m < fst y" "\<forall>y\<in>set post. m \<le> fst y" by blast
    have "m \<le> fst x"
    proof (cases pre)
      case Nil
      note e = p(1)[unfolded Nil append_Nil]
      from cons_pair_eq[OF e] show ?thesis by simp
    next
      case (Cons y ys)
      with p(1) have "y = x" by simp
      with Cons p(2) show ?thesis by auto
    qed
    with True have "m < fst b" by simp
    with p(2) have "\<forall>y\<in>set (b # pre). m < fst y" by simp
    moreover have "py_min b (x # ks) = py_min x ks" using True by simp
    then have "b # x # ks = (b # pre) @ (m, py_min b (x # ks)) # post"
      using p(1) by (metis append_Cons)
    ultimately show ?thesis using p(3) by blast
  next
    case False
    from Cons[of b] obtain pre m post where p: "b # ks = pre @ (m, py_min b ks) # post"
      "\<forall>y\<in>set pre. m < fst y" "\<forall>y\<in>set post. m \<le> fst y" by blast
    show ?thesis
    proof (cases pre)
      case Nil
      note e = p(1)[unfolded Nil append_Nil]
      from cons_pair_eq[OF e] have b: "fst b = m" "ks = post" by simp_all
      with False have mx: "m \<le> fst x" by simp
      have "py_min b (x # ks) = py_min b ks" using False by simp
      then have "b # x # ks = [] @ (m, py_min b (x # ks)) # (x # post)"
        using e by (metis append_Nil cons_pair_eq list.inject)
      moreover have "\<forall>y\<in>set (x # post). m \<le> fst y" using mx p(3) by simp
      moreover have "\<forall>y\<in>set ([]::(int \<times> 'a) list). m < fst y" by simp
      ultimately show ?thesis by blast
    next
      case (Cons y ys)
      note e = p(1)[unfolded Cons append_Cons]
      from e have y: "y = b" "ks = ys @ (m, py_min b ks) # post" by blast+
      from Cons y p(2) have "m < fst b" by auto
      with False have "m < fst x" by simp
      with p(2) Cons y have "\<forall>z\<in>set (b # x # ys). m < fst z" by simp
      moreover have "py_min b (x # ks) = py_min b ks" using False by simp
      then have "b # x # ks = (b # x # ys) @ (m, py_min b (x # ks)) # post"
        using y(2) by (metis append_Cons)
      ultimately show ?thesis using p(3) by blast
    qed
  qed
qed

text \<open>The first element with the least key, as a predicate on the list.\<close>

definition first_min :: "('a \<Rightarrow> int) \<Rightarrow> 'a list \<Rightarrow> 'a \<Rightarrow> bool" where
  "first_min k xs a =
     (\<exists>pre post. xs = pre @ a # post \<and> (\<forall>x\<in>set pre. k a < k x) \<and> (\<forall>x\<in>set post. k a \<le> k x))"

lemma py_min_key_first_min:
  assumes "\<forall>x\<in>set xs. f x = Inr (k x)" "xs \<noteq> []"
  shows "\<exists>a. py_min_key f xs = Inr a \<and> first_min k xs a"
proof -
  from assms(2) obtain x0 xr where xs: "xs = x0 # xr" by (cases xs) auto
  have ks: "keys_of f xs = Inr (map (\<lambda>x. (k x, x)) xs)"
    using keys_of_Inr[of xs f] assms(1) by simp
  let ?b = "(k x0, x0)" and ?ks = "map (\<lambda>x. (k x, x)) xr"
  let ?a = "py_min ?b ?ks"
  have r: "py_min_key f xs = Inr ?a" using ks xs by (simp add: py_min_key_def)
  from py_min_first[of ?b ?ks] obtain pre m post where p:
     "?b # ?ks = pre @ (m, ?a) # post"
      "\<forall>y\<in>set pre. m < fst y" "\<forall>y\<in>set post. m \<le> fst y" by blast
  have m: "map (\<lambda>x. (k x, x)) xs = pre @ (m, ?a) # post" using p(1) xs by simp
  have sxs: "xs = map snd pre @ ?a # map snd post"
  proof -
    have "map snd (map (\<lambda>x. (k x, x)) xs) = map snd (pre @ (m, ?a) # post)"
      using m by simp
    then show ?thesis by (simp add: comp_def)
  qed
  have allk: "\<forall>y \<in> set (map (\<lambda>x. (k x, x)) xs). fst y = k (snd y)" by auto
  then have ka: "m = k ?a" unfolding m by auto
  have pre: "\<forall>y\<in>set pre. fst y = k (snd y)" and post: "\<forall>y\<in>set post. fst y = k (snd y)"
    using allk unfolding m by auto
  have "first_min k xs ?a"
    unfolding first_min_def
    apply (rule exI[of _ "map snd pre"], rule exI[of _ "map snd post"])
    using sxs p(2,3) pre post ka by auto
  with r show ?thesis by blast
qed

lemma first_min_mem: "first_min k xs a \<Longrightarrow> a \<in> set xs \<and> (\<forall>x\<in>set xs. k a \<le> k x)"
  by (auto simp: first_min_def order.strict_implies_order)


definition mark_started :: "int \<Rightarrow> nat option \<Rightarrow> Scheduler \<Rightarrow> Scheduler" where
  "mark_started t next_job s =
     (case next_job of
        None \<Rightarrow> s
      | Some a \<Rightarrow>
          if start_time (objects s ! a) = - 1
          then s\<lparr>objects := (objects s)[a := (objects s ! a)\<lparr>start_time := t\<rparr>]\<rparr>
          else s)"

definition sched_inv :: "int \<Rightarrow> Scheduler \<times> nat option \<Rightarrow> bool" where
  "sched_inv T sc =
     (case sc of (s, cur) \<Rightarrow>
        distinct (ready_queue s)
      \<and> (\<forall>a\<in>set (ready_queue s). a < length (objects s) \<and> finish_time (objects s ! a) = - 1
            \<and> task_id (objects s ! a) \<in> id' ` set (tasks s))
      \<and> (\<forall>c. cur = Some c \<longrightarrow> c \<in> set (ready_queue s) \<and> start_time (objects s ! c) \<noteq> - 1)
      \<and> (\<forall>a<length (objects s). \<forall>b<length (objects s).
            start_time (objects s ! a) = start_time (objects s ! b) \<and> start_time (objects s ! a) \<noteq> - 1
            \<longrightarrow> a = b)
      \<and> (\<forall>a<length (objects s). start_time (objects s ! a) < T)
      \<and> (\<forall>a\<in>set (completed_jobs s). a < length (objects s) \<and> a \<notin> set (ready_queue s)
            \<and> finish_time (objects s ! a) \<noteq> - 1))"

lemma released_simps [simp]:
  "tasks (released t s) = tasks s"
  "algorithm (released t s) = algorithm s"
  "history (released t s) = history s"
  "completed_jobs (released t s) = completed_jobs s"
  "hyperperiod (released t s) = hyperperiod s"
  "time (released t s) = t"
  "objects (released t s) = objects s @ releases (tasks s) t"
  "ready_queue (released t s) = ready_queue s @
         [length (objects s)..<length (objects s) + length (releases (tasks s) t)]"
  by (simp_all add: released_def)

lemma releases_nth:
  "i < length (releases ts t) \<Longrightarrow>
     start_time (releases ts t ! i) = - 1 \<and> finish_time (releases ts t ! i) = - 1
     \<and> arrival_time (releases ts t ! i) = t
     \<and> task_id (releases ts t ! i) \<in> id' ` set ts"
proof -
  assume "i < length (releases ts t)"
  then have "releases ts t ! i \<in> set (releases ts t)" by simp
  then obtain task where "task \<in> set ts" "releases ts t ! i = new_job task t"
    by (auto simp: releases_def)
  then show ?thesis by (auto simp: new_job_def)
qed

lemma sched_inv_released:
  assumes "sched_inv T (s, cur)" "0 \<le> T"
  shows "sched_inv T (released t s, cur)"
proof -
  let ?n = "length (objects s)" and ?r = "releases (tasks s) t"
  from assms have d: "distinct (ready_queue s)"
    and rq: "\<forall>a\<in>set (ready_queue s). a < ?n \<and> finish_time (objects s ! a) = - 1
            \<and> task_id (objects s ! a) \<in> id' ` set (tasks s)"
    and cur: "\<forall>c. cur = Some c \<longrightarrow> c \<in> set (ready_queue s) \<and> start_time (objects s ! c) \<noteq> - 1"
    and uniq: "\<forall>a<?n. \<forall>b<?n.
            start_time (objects s ! a) = start_time (objects s ! b) \<and> start_time (objects s ! a) \<noteq> - 1
            \<longrightarrow> a = b"
    and bound: "\<forall>a<?n. start_time (objects s ! a) < T"
    and comp: "\<forall>a\<in>set (completed_jobs s). a < ?n \<and> a \<notin> set (ready_queue s)
            \<and> finish_time (objects s ! a) \<noteq> - 1"
    by (auto simp: sched_inv_def)
  have new: "\<And>a. ?n \<le> a \<Longrightarrow> a < ?n + length ?r \<Longrightarrow>
      start_time ((objects s @ ?r) ! a) = - 1 \<and> finish_time ((objects s @ ?r) ! a) = - 1
      \<and> task_id ((objects s @ ?r) ! a) \<in> id' ` set (tasks s)"
    using releases_nth[of _ "tasks s" t] by (simp add: nth_append)
  have old: "\<And>a. a < ?n \<Longrightarrow> (objects s @ ?r) ! a = objects s ! a"
    by (simp add: nth_append)
  have 1: "distinct (ready_queue (released t s))"
    using d rq by auto
  have 2: "\<forall>a\<in>set (ready_queue (released t s)). a < length (objects (released t s))
       \<and> finish_time (objects (released t s) ! a) = - 1
       \<and> task_id (objects (released t s) ! a) \<in> id' ` set (tasks (released t s))"
  proof
    fix a assume "a \<in> set (ready_queue (released t s))"
    then consider "a \<in> set (ready_queue s)" | "?n \<le> a" "a < ?n + length ?r" by auto
    then show "a < length (objects (released t s))
       \<and> finish_time (objects (released t s) ! a) = - 1
       \<and> task_id (objects (released t s) ! a) \<in> id' ` set (tasks (released t s))"
    proof cases
      case 1
      with rq old[of a] show ?thesis by auto
    next
      case 2
      with new[of a] show ?thesis by simp
    qed
  qed
  have 3: "\<forall>c. cur = Some c \<longrightarrow> c \<in> set (ready_queue (released t s))
        \<and> start_time (objects (released t s) ! c) \<noteq> - 1"
    using cur rq old by auto
  have st: "\<And>a. a < ?n + length ?r \<Longrightarrow> start_time ((objects s @ ?r) ! a) \<noteq> - 1 \<Longrightarrow> a < ?n"
    using new by (metis not_le)
  have 4: "\<forall>a<length (objects (released t s)). \<forall>b<length (objects (released t s)).
            start_time (objects (released t s) ! a) = start_time (objects (released t s) ! b)
            \<and> start_time (objects (released t s) ! a) \<noteq> - 1 \<longrightarrow> a = b"
  proof (intro allI impI)
    fix a b assume a: "a < length (objects (released t s))" and b: "b < length (objects (released t s))"
      and e: "start_time (objects (released t s) ! a) = start_time (objects (released t s) ! b)
            \<and> start_time (objects (released t s) ! a) \<noteq> - 1"
    from a e st[of a] have a': "a < ?n" by simp
    from b e st[of b] have b': "b < ?n" by simp
    from e a' b' old have "start_time (objects s ! a) = start_time (objects s ! b) \<and> start_time (objects s ! a) \<noteq> - 1"
      by simp
    with uniq a' b' show "a = b" by blast
  qed
  have 5: "\<forall>a<length (objects (released t s)). start_time (objects (released t s) ! a) < T"
  proof (intro allI impI)
    fix a assume a: "a < length (objects (released t s))"
    show "start_time (objects (released t s) ! a) < T"
    proof (cases "a < ?n")
      case True
      with bound old show ?thesis by simp
    next
      case False
      with a new[of a] assms(2) show ?thesis by simp
    qed
  qed
  have 6: "\<forall>a\<in>set (completed_jobs (released t s)). a < length (objects (released t s))
        \<and> a \<notin> set (ready_queue (released t s))
        \<and> finish_time (objects (released t s) ! a) \<noteq> - 1"
    using comp old by auto
  show ?thesis unfolding sched_inv_def prod.case by (intro conjI 1 2 3 4 5 6)
qed


definition task_priority :: "Scheduler \<Rightarrow> nat \<Rightarrow> int" where
  "task_priority s a =
     (case get_task (tasks s) (task_id (objects s ! a)) of Inl e \<Rightarrow> 0 | Inr t \<Rightarrow> priority t)"

definition sched_key :: "Scheduler \<Rightarrow> nat \<Rightarrow> int" where
  "sched_key s a =
     (if algorithm s = ''EDF'' then absolute_deadline (objects s ! a) else task_priority s a)"

lemma priority_key_found:
  assumes "task_id (objects s ! a) \<in> id' ` set (tasks s)"
  shows "priority_key s a = Inr (task_priority s a)"
proof -
  from get_task_found[OF assms] obtain t where "get_task (tasks s) (task_id (objects s ! a)) = Inr t"
    by blast
  then show ?thesis by (simp add: priority_key_def task_priority_def)
qed

lemma get_active_job_idle:
  "ready_queue s = [] \<or> algorithm s \<notin> {''RM'', ''DM'', ''EDF''} \<Longrightarrow> get_active_job s = Inr None"
  by (auto simp: get_active_job_def)

lemma get_active_job_first_min:
  assumes "ready_queue s \<noteq> []" "algorithm s \<in> {''RM'', ''DM'', ''EDF''}"
    and "\<forall>a\<in>set (ready_queue s). task_id (objects s ! a) \<in> id' ` set (tasks s)"
  shows "\<exists>a. get_active_job s = Inr (Some a) \<and> first_min (sched_key s) (ready_queue s) a"
proof (cases "algorithm s = ''EDF''")
  case True
  have "\<forall>a\<in>set (ready_queue s). deadline_key s a = Inr (sched_key s a)"
    using True by (simp add: deadline_key_def sched_key_def)
  from py_min_key_first_min[OF this assms(1)] obtain a where
    "py_min_key (deadline_key s) (ready_queue s) = Inr a" "first_min (sched_key s) (ready_queue s) a"
    by blast
  then show ?thesis using True assms(1) by (simp add: get_active_job_def)
next
  case False
  with assms(2) have alg: "algorithm s = ''RM'' \<or> algorithm s = ''DM''" by auto
  have "\<forall>a\<in>set (ready_queue s). priority_key s a = Inr (sched_key s a)"
    using False assms(3) by (simp add: priority_key_found sched_key_def)
  from py_min_key_first_min[OF this assms(1)] obtain a where
    "py_min_key (priority_key s) (ready_queue s) = Inr a" "first_min (sched_key s) (ready_queue s) a"
    by blast
  then show ?thesis using alg assms(1) by (auto simp: get_active_job_def)
qed

lemma get_active_job_total:
  assumes "\<forall>a\<in>set (ready_queue s). task_id (objects s ! a) \<in> id' ` set (tasks s)"
  shows "\<exists>next_job. get_active_job s = Inr next_job
           \<and> (\<forall>a. next_job = Some a \<longrightarrow> a \<in> set (ready_queue s))"
proof (cases "ready_queue s = [] \<or> algorithm s \<notin> {''RM'', ''DM'', ''EDF''}")
  case True
  from get_active_job_idle[OF this] show ?thesis by simp
next
  case False
  then have "ready_queue s \<noteq> []" "algorithm s \<in> {''RM'', ''DM'', ''EDF''}" by auto
  from get_active_job_first_min[OF this assms] first_min_mem show ?thesis by fastforce
qed

lemma sched_invD:
  assumes "sched_inv T (s, cur)"
  shows "distinct (ready_queue s)"
    and "\<And>a. a \<in> set (ready_queue s) \<Longrightarrow> a < length (objects s)"
    and "\<And>a. a \<in> set (ready_queue s) \<Longrightarrow> finish_time (objects s ! a) = - 1"
    and "\<And>a. a \<in> set (ready_queue s) \<Longrightarrow> task_id (objects s ! a) \<in> id' ` set (tasks s)"
    and "\<And>c. cur = Some c \<Longrightarrow> c \<in> set (ready_queue s)"
    and "\<And>c. cur = Some c \<Longrightarrow> start_time (objects s ! c) \<noteq> - 1"
    and "\<And>a b. a < length (objects s) \<Longrightarrow> b < length (objects s) \<Longrightarrow>
            start_time (objects s ! a) = start_time (objects s ! b) \<Longrightarrow> start_time (objects s ! a) \<noteq> - 1
            \<Longrightarrow> a = b"
    and "\<And>a. a < length (objects s) \<Longrightarrow> start_time (objects s ! a) < T"
    and "\<And>a. a \<in> set (completed_jobs s) \<Longrightarrow> a < length (objects s)"
    and "\<And>a. a \<in> set (completed_jobs s) \<Longrightarrow> a \<notin> set (ready_queue s)"
    and "\<And>a. a \<in> set (completed_jobs s) \<Longrightarrow> finish_time (objects s ! a) \<noteq> - 1"
  using assms unfolding sched_inv_def prod.case by blast+

lemma sched_invI:
  assumes "distinct (ready_queue s)"
    and "\<And>a. a \<in> set (ready_queue s) \<Longrightarrow> a < length (objects s) \<and> finish_time (objects s ! a) = - 1
            \<and> task_id (objects s ! a) \<in> id' ` set (tasks s)"
    and "\<And>c. cur = Some c \<Longrightarrow> c \<in> set (ready_queue s) \<and> start_time (objects s ! c) \<noteq> - 1"
    and "\<And>a b. a < length (objects s) \<Longrightarrow> b < length (objects s) \<Longrightarrow>
            start_time (objects s ! a) = start_time (objects s ! b) \<Longrightarrow> start_time (objects s ! a) \<noteq> - 1
            \<Longrightarrow> a = b"
    and "\<And>a. a < length (objects s) \<Longrightarrow> start_time (objects s ! a) < T"
    and "\<And>a. a \<in> set (completed_jobs s) \<Longrightarrow> a < length (objects s) \<and> a \<notin> set (ready_queue s)
            \<and> finish_time (objects s ! a) \<noteq> - 1"
  shows "sched_inv T (s, cur)"
  unfolding sched_inv_def prod.case using assms by blast

lemma mark_started_simps [simp]:
  "tasks (mark_started t n s) = tasks s"
  "algorithm (mark_started t n s) = algorithm s"
  "history (mark_started t n s) = history s"
  "completed_jobs (mark_started t n s) = completed_jobs s"
  "ready_queue (mark_started t n s) = ready_queue s"
  "length (objects (mark_started t n s)) = length (objects s)"
  by (simp_all add: mark_started_def split: option.splits)

lemma nth_list_update_any:
  "j < length xs \<Longrightarrow> xs[i := x] ! j = (if i = j then x else xs ! j)"
  by (cases "i < length xs") (auto simp: nth_list_update)

lemma mark_started_nth:
  "b < length (objects s) \<Longrightarrow>
   objects (mark_started t n s) ! b =
     (if n = Some b \<and> start_time (objects s ! b) = - 1 then (objects s ! b)\<lparr>start_time := t\<rparr>
      else objects s ! b)"
  by (auto simp: mark_started_def nth_list_update_any split: option.splits)

lemma dispatch_closed:
  assumes inv: "sched_inv T (s, cur)" and T: "0 \<le> T"
    and per: "\<forall>task\<in>set (tasks s). period task \<noteq> 0"
  shows "\<exists>next_job. get_active_job (released t s) = Inr next_job
           \<and> (\<forall>a. next_job = Some a \<longrightarrow> a \<in> set (ready_queue (released t s)))
           \<and> dispatch t (s, cur) = Inr (mark_started t next_job (released t s), next_job)"
proof -
  let ?s1 = "released t s"
  have inv1: "sched_inv T (?s1, cur)" by (rule sched_inv_released[OF inv T])
  note D = sched_invD[OF inv1]
  from get_active_job_total[of ?s1] D(4) obtain nj where nj: "get_active_job ?s1 = Inr nj"
    "\<forall>a. nj = Some a \<longrightarrow> a \<in> set (ready_queue ?s1)" by blast
  have rel: "release_jobs t (tasks s) (s\<lparr>time := t\<rparr>) = Inr ?s1"
    by (rule release_jobs_released[OF per])
  have "dispatch t (s, cur) = Inr (mark_started t nj ?s1, nj)"
  proof (cases "job_ne (objects ?s1) nj cur")
    case True
    then show ?thesis using rel nj(1)
      by (simp add: dispatch_def mark_started_def split: option.splits)
  next
    case False
    then have eq: "map_option (\<lambda>a. objects ?s1 ! a) nj = map_option (\<lambda>a. objects ?s1 ! a) cur"
      by (simp add: job_ne_def)
    show ?thesis
    proof (cases nj)
      case None
      with eq have "cur = None" by simp
      with None False rel nj(1) show ?thesis by (simp add: dispatch_def mark_started_def)
    next
      case (Some a)
      with eq obtain c where c: "cur = Some c" "objects ?s1 ! a = objects ?s1 ! c"
        by (cases cur) auto
      from Some nj(2) have a: "a \<in> set (ready_queue ?s1)" by simp
      have "start_time (objects ?s1 ! a) \<noteq> - 1" using D(6)[OF c(1)] c(2) by simp
      moreover have "a = c"
        using D(7)[of a c] D(2)[OF a] D(2)[OF D(5)[OF c(1)]] c(2) \<open>start_time (objects ?s1 ! a) \<noteq> - 1\<close>
        by simp
      ultimately show ?thesis using Some c False rel nj(1)
        by (simp add: dispatch_def mark_started_def)
    qed
  qed
  with nj show ?thesis by blast
qed

lemma sched_inv_mark_started:
  assumes inv: "sched_inv T (s, cur)" and T: "0 \<le> T" "T \<le> t"
    and nj: "\<forall>a. nj = Some a \<longrightarrow> a \<in> set (ready_queue s)"
  shows "sched_inv (t + 1) (mark_started t nj s, nj)"
proof (rule sched_invI)
  note D = sched_invD[OF inv]
  let ?s = "mark_started t nj s"
  show "distinct (ready_queue ?s)" using D(1) by simp
  show "a < length (objects ?s) \<and> finish_time (objects ?s ! a) = - 1
            \<and> task_id (objects ?s ! a) \<in> id' ` set (tasks ?s)" if "a \<in> set (ready_queue ?s)" for a
    using that D(2)[of a] D(3)[of a] D(4)[of a] by (simp add: mark_started_nth)
  show "c \<in> set (ready_queue ?s) \<and> start_time (objects ?s ! c) \<noteq> - 1" if "nj = Some c" for c
    using that nj D(2)[of c] T by (auto simp: mark_started_nth)
  have st: "start_time (objects ?s ! a) = t \<or>
        (start_time (objects ?s ! a) = start_time (objects s ! a) \<and> (nj = Some a \<longrightarrow> start_time (objects s ! a) \<noteq> - 1))"
    if "a < length (objects s)" for a
    using that by (simp add: mark_started_nth)
  have st_t: "nj = Some a" if "a < length (objects s)" "start_time (objects ?s ! a) = t" for a
  proof (rule ccontr)
    assume "nj \<noteq> Some a"
    with that have "start_time (objects s ! a) = t" by (simp add: mark_started_nth)
    with D(8)[OF that(1)] T show False by simp
  qed
  show "a = b" if "a < length (objects ?s)" "b < length (objects ?s)"
     "start_time (objects ?s ! a) = start_time (objects ?s ! b)" "start_time (objects ?s ! a) \<noteq> - 1" for a b
  proof (cases "start_time (objects ?s ! a) = t")
    case True
    with that st_t[of a] st_t[of b] show ?thesis by simp
  next
    case False
    with that st[of a] st[of b] have "start_time (objects s ! a) = start_time (objects s ! b)"
      "start_time (objects s ! a) \<noteq> - 1" by auto
    with D(7)[of a b] that show ?thesis by simp
  qed
  show "start_time (objects ?s ! a) < t + 1" if "a < length (objects ?s)" for a
    using that st[of a] D(8)[of a] T by auto
  show "a < length (objects ?s) \<and> a \<notin> set (ready_queue ?s) \<and> finish_time (objects ?s ! a) \<noteq> - 1"
    if "a \<in> set (completed_jobs ?s)" for a
    using that D(9)[of a] D(10)[of a] D(11)[of a] by (simp add: mark_started_nth)
qed


definition run_job :: "int \<Rightarrow> nat \<Rightarrow> Scheduler \<Rightarrow> Scheduler \<times> nat option" where
  "run_job t a s =
     (let j = objects s ! a;
          s1 = s\<lparr>history := history s @ [(t, Some (task_id j))]\<rparr>
      in if remaining_time j = 1
         then (s1\<lparr>objects := (objects s)[a := j\<lparr>remaining_time := 0, finish_time := t + 1\<rparr>],
                  completed_jobs := completed_jobs s @ [a],
                  ready_queue := remove1 a (ready_queue s)\<rparr>, None)
         else (s1\<lparr>objects := (objects s)[a := j\<lparr>remaining_time := remaining_time j - 1\<rparr>]\<rparr>, Some a))"

definition tick_result :: "int \<Rightarrow> nat option \<Rightarrow> Scheduler \<Rightarrow> Scheduler \<times> nat option" where
  "tick_result t nj s1 =
     (case nj of
        None \<Rightarrow> (s1\<lparr>history := history s1 @ [(t, None)]\<rparr>, None)
      | Some a \<Rightarrow> run_job t a (mark_started t nj s1))"

lemma remove_first_remove1:
  assumes "a \<in> set xs" "P a" "\<And>b. b \<in> set xs \<Longrightarrow> P b \<Longrightarrow> b = a"
  shows "remove_first P xs = Some (remove1 a xs)"
  using assms(1,3)
proof (induction xs)
  case Nil
  then show ?case by simp
next
  case (Cons x xs)
  show ?case
  proof (cases "P x")
    case True
    with Cons.prems(2)[of x] have "x = a" by simp
    with True show ?thesis by simp
  next
    case False
    with assms(2) have ne: "x \<noteq> a" by blast
    with Cons.prems(1) have "a \<in> set xs" by simp
    moreover have "\<And>b. b \<in> set xs \<Longrightarrow> P b \<Longrightarrow> b = a" using Cons.prems(2) by simp
    ultimately have "remove_first P xs = Some (remove1 a xs)" by (rule Cons.IH)
    with False ne show ?thesis by simp
  qed
qed

lemma execute_closed:
  assumes inv: "sched_inv T (s, Some a)" and t: "0 \<le> t"
  shows "execute t (s, Some a) = Inr (run_job t a s)"
proof -
  note D = sched_invD[OF inv]
  have a: "a \<in> set (ready_queue s)" "a < length (objects s)" using D(5) D(2) by auto
  let ?j = "(objects s ! a)\<lparr>remaining_time := remaining_time (objects s ! a) - 1\<rparr>"
  let ?j' = "?j\<lparr>finish_time := t + 1\<rparr>"
  let ?objs = "(objects s)[a := ?j, a := ?j']"
  have "remove_first (\<lambda>b. ?objs ! b = ?j') (ready_queue s) = Some (remove1 a (ready_queue s))"
  proof (rule remove_first_remove1[OF a(1)])
    show "?objs ! a = ?j'" using a(2) by simp
    show "b = a" if b: "b \<in> set (ready_queue s)" "?objs ! b = ?j'" for b
    proof (rule ccontr)
      assume "b \<noteq> a"
      with b(2) have "objects s ! b = ?j'" by simp
      then have "finish_time (objects s ! b) = finish_time ?j'" by (rule arg_cong)
      then have "finish_time (objects s ! b) = t + 1" by simp
      with D(3)[OF b(1)] t show False by simp
    qed
  qed
  then show ?thesis
    by (auto simp: execute_def run_job_def Let_def)
qed

lemma sched_inv_run_job:
  assumes inv: "sched_inv T (s, Some a)" and t: "0 \<le> t"
  shows "sched_inv T (run_job t a s)"
proof -
  note D = sched_invD[OF inv]
  have a: "a \<in> set (ready_queue s)" "a < length (objects s)" using D(5) D(2) by auto
  show ?thesis
  proof (cases "remaining_time (objects s ! a) = 1")
    case True
    let ?s' = "s\<lparr>history := history s @ [(t, Some (task_id (objects s ! a)))],
        objects := (objects s)[a := (objects s ! a)\<lparr>remaining_time := 0, finish_time := t + 1\<rparr>],
        completed_jobs := completed_jobs s @ [a], ready_queue := remove1 a (ready_queue s)\<rparr>"
    have r: "run_job t a s = (?s', None)" using True by (simp add: run_job_def Let_def)
    have nth: "\<And>b. b < length (objects s) \<Longrightarrow> start_time (objects ?s' ! b) = start_time (objects s ! b)
         \<and> task_id (objects ?s' ! b) = task_id (objects s ! b)
         \<and> (b \<noteq> a \<longrightarrow> finish_time (objects ?s' ! b) = finish_time (objects s ! b))
         \<and> (b = a \<longrightarrow> finish_time (objects ?s' ! b) = t + 1)"
      by (simp add: nth_list_update_any)
    have "sched_inv T (?s', None)"
    proof (rule sched_invI)
      show "distinct (ready_queue ?s')" using D(1) by simp
      show "b < length (objects ?s') \<and> finish_time (objects ?s' ! b) = - 1
            \<and> task_id (objects ?s' ! b) \<in> id' ` set (tasks ?s')" if "b \<in> set (ready_queue ?s')" for b
      proof -
        from that D(1) have b: "b \<in> set (ready_queue s)" "b \<noteq> a" by auto
        with D(2)[OF b(1)] D(3)[OF b(1)] D(4)[OF b(1)] nth[of b] show ?thesis by simp
      qed
      show "c \<in> set (ready_queue ?s') \<and> start_time (objects ?s' ! c) \<noteq> - 1" if "None = Some c" for c
        using that by simp
      show "b = c" if "b < length (objects ?s')" "c < length (objects ?s')"
        "start_time (objects ?s' ! b) = start_time (objects ?s' ! c)" "start_time (objects ?s' ! b) \<noteq> - 1" for b c
        using that nth[of b] nth[of c] D(7)[of b c] by simp
      show "start_time (objects ?s' ! b) < T" if "b < length (objects ?s')" for b
        using that nth[of b] D(8)[of b] by simp
      show "b < length (objects ?s') \<and> b \<notin> set (ready_queue ?s') \<and> finish_time (objects ?s' ! b) \<noteq> - 1"
        if "b \<in> set (completed_jobs ?s')" for b
      proof (cases "b = a")
        case True
        with a D(1) nth[of a] t show ?thesis by simp
      next
        case False
        with that have "b \<in> set (completed_jobs s)" by simp
        with D(9)[of b] D(10)[of b] D(11)[of b] nth[of b] False show ?thesis
          by (auto dest: notin_set_remove1)
      qed
    qed
    with r show ?thesis by simp
  next
    case False
    let ?s' = "s\<lparr>history := history s @ [(t, Some (task_id (objects s ! a)))],
        objects := (objects s)[a := (objects s ! a)\<lparr>remaining_time := remaining_time (objects s ! a) - 1\<rparr>]\<rparr>"
    have r: "run_job t a s = (?s', Some a)" using False by (simp add: run_job_def Let_def)
    have nth: "\<And>b. b < length (objects s) \<Longrightarrow> start_time (objects ?s' ! b) = start_time (objects s ! b)
         \<and> task_id (objects ?s' ! b) = task_id (objects s ! b)
         \<and> finish_time (objects ?s' ! b) = finish_time (objects s ! b)"
      by (simp add: nth_list_update_any)
    have "sched_inv T (?s', Some a)"
    proof (rule sched_invI)
      show "distinct (ready_queue ?s')" using D(1) by simp
      show "b < length (objects ?s') \<and> finish_time (objects ?s' ! b) = - 1
            \<and> task_id (objects ?s' ! b) \<in> id' ` set (tasks ?s')" if "b \<in> set (ready_queue ?s')" for b
        using that D(2)[of b] D(3)[of b] D(4)[of b] nth[of b] by simp
      show "c \<in> set (ready_queue ?s') \<and> start_time (objects ?s' ! c) \<noteq> - 1" if "Some a = Some c" for c
        using that a D(6)[of a] nth[of a] by simp
      show "b = c" if "b < length (objects ?s')" "c < length (objects ?s')"
        "start_time (objects ?s' ! b) = start_time (objects ?s' ! c)" "start_time (objects ?s' ! b) \<noteq> - 1" for b c
        using that nth[of b] nth[of c] D(7)[of b c] by simp
      show "start_time (objects ?s' ! b) < T" if "b < length (objects ?s')" for b
        using that nth[of b] D(8)[of b] by simp
      show "b < length (objects ?s') \<and> b \<notin> set (ready_queue ?s') \<and> finish_time (objects ?s' ! b) \<noteq> - 1"
        if "b \<in> set (completed_jobs ?s')" for b
        using that D(9)[of b] D(10)[of b] D(11)[of b] nth[of b] by simp
    qed
    with r show ?thesis by simp
  qed
qed

lemma sched_inv_idle:
  assumes "sched_inv T (s, cur)"
  shows "sched_inv T (s\<lparr>history := h\<rparr>, None)"
  using assms unfolding sched_inv_def prod.case by simp

lemma sched_inv_mono: "sched_inv T sc \<Longrightarrow> T \<le> T' \<Longrightarrow> sched_inv T' sc"
  unfolding sched_inv_def by (cases sc) fastforce

lemma tick_closed:
  assumes inv: "sched_inv T (s, cur)" and T: "0 \<le> T" "T \<le> t"
    and per: "\<forall>task\<in>set (tasks s). period task \<noteq> 0"
  shows "\<exists>nj. get_active_job (released t s) = Inr nj
           \<and> (\<forall>a. nj = Some a \<longrightarrow> a \<in> set (ready_queue (released t s)))
           \<and> tick t (s, cur) = Inr (tick_result t nj (released t s))
           \<and> sched_inv (t + 1) (tick_result t nj (released t s))"
proof -
  let ?s1 = "released t s"
  from dispatch_closed[OF inv T(1) per, of t] obtain nj where nj:
    "get_active_job ?s1 = Inr nj" "\<forall>a. nj = Some a \<longrightarrow> a \<in> set (ready_queue ?s1)"
    "dispatch t (s, cur) = Inr (mark_started t nj ?s1, nj)" by blast
  have inv1: "sched_inv T (?s1, cur)" by (rule sched_inv_released[OF inv T(1)])
  have inv2: "sched_inv (t + 1) (mark_started t nj ?s1, nj)"
    by (rule sched_inv_mark_started[OF inv1 T nj(2)])
  have t0: "0 \<le> t" using T by simp
  have "tick t (s, cur) = Inr (tick_result t nj ?s1) \<and> sched_inv (t + 1) (tick_result t nj ?s1)"
  proof (cases nj)
    case None
    have "sched_inv (t + 1) (?s1\<lparr>history := history ?s1 @ [(t, None)]\<rparr>, None)"
      using sched_inv_idle[OF inv2] None by (simp add: mark_started_def)
    then show ?thesis using None nj(3)
      by (simp add: tick_def tick_result_def execute_def mark_started_def)
  next
    case (Some a)
    from execute_closed[OF inv2[unfolded Some] t0] sched_inv_run_job[OF inv2[unfolded Some] t0]
    show ?thesis using Some nj(3) by (simp add: tick_def tick_result_def)
  qed
  with nj show ?thesis by blast
qed


definition state_after :: "Task list \<Rightarrow> string \<Rightarrow> nat \<Rightarrow> py_error + (Scheduler \<times> nat option)" where
  "state_after ts alg n = run_loop (py_range (int n)) (Scheduler_init ts alg, None)"

lemma run_loop_append:
  "run_loop (xs @ ys) sc = (case run_loop xs sc of Inl e \<Rightarrow> Inl e | Inr sc' \<Rightarrow> run_loop ys sc')"
  by (induction xs arbitrary: sc) (auto split: sum.splits)

lemma state_after_0: "state_after ts alg 0 = Inr (Scheduler_init ts alg, None)"
  by (simp add: state_after_def py_range_def)

lemma py_range_Suc: "py_range (int (Suc n)) = py_range (int n) @ [int n]"
  by (simp only: py_range_def nat_int upt_Suc_append[OF le0] map_append list.map)

lemma state_after_Suc:
  "state_after ts alg (Suc n) =
     (case state_after ts alg n of Inl e \<Rightarrow> Inl e | Inr sc \<Rightarrow> tick (int n) sc)"
  unfolding state_after_def py_range_Suc run_loop_append by (simp split: sum.splits)

lemma run_state_after:
  "run (Scheduler_init ts alg) (Some d) =
     (case state_after ts alg (nat d) of
        Inl e \<Rightarrow> Inl e
      | Inr (s', cur) \<Rightarrow> Inr (s', map (\<lambda>a. objects s' ! a) (completed_jobs s'), history s'))"
proof -
  have "py_range (int (nat d)) = py_range d" by (simp add: py_range_def)
  then show ?thesis by (simp add: run_def state_after_def)
qed

lemma set_assign_priorities:
  "period ` set (assign_priorities ts) = period ` set ts"
  "id' ` set (assign_priorities ts) = id' ` set ts"
proof -
  have "map period (assign_priorities ts) = map period ts"
    unfolding assign_priorities_def
    by (simp add: comp_def case_prod_unfold flip: map_map[of period snd, unfolded comp_def])
  then show "period ` set (assign_priorities ts) = period ` set ts" by (metis set_map)
  have "map id' (assign_priorities ts) = map id' ts"
    unfolding assign_priorities_def
    by (simp add: comp_def case_prod_unfold flip: map_map[of id' snd, unfolded comp_def])
  then show "id' ` set (assign_priorities ts) = id' ` set ts" by (metis set_map)
qed

lemma Scheduler_init_periods:
  "period ` set (tasks (Scheduler_init ts alg)) = period ` set ts"
  by (simp add: Scheduler_init_def set_assign_priorities)

lemma Scheduler_init_inv: "sched_inv 0 (Scheduler_init ts alg, None)"
  by (simp add: sched_inv_def Scheduler_init_def)

lemma tick_result_frame [simp]:
  "tasks (fst (tick_result t nj s)) = tasks s"
  "algorithm (fst (tick_result t nj s)) = algorithm s"
  by (auto simp: tick_result_def run_job_def Let_def split: option.splits)

lemma released_periods:
  "period ` set (tasks (released t s)) = period ` set (tasks s)"
  by simp

text \<open>Every reachable state: the run does not raise, and the invariant holds.\<close>

lemma state_after_inv:
  assumes "\<forall>task\<in>set ts. period task \<noteq> 0"
  shows "\<exists>s cur. state_after ts alg n = Inr (s, cur) \<and> sched_inv (int n) (s, cur)
           \<and> tasks s = tasks (Scheduler_init ts alg) \<and> algorithm s = alg"
proof (induction n)
  case 0
  show ?case using Scheduler_init_inv[of ts alg]
    by (simp add: state_after_0) (simp add: Scheduler_init_def)
next
  case (Suc n)
  then obtain s cur where s: "state_after ts alg n = Inr (s, cur)" "sched_inv (int n) (s, cur)"
    "tasks s = tasks (Scheduler_init ts alg)" "algorithm s = alg" by blast
  have "period ` set (tasks s) = period ` set ts" using s(3) Scheduler_init_periods by simp
  with assms have per: "\<forall>task\<in>set (tasks s). period task \<noteq> 0"
    by (metis imageE imageI)
  from tick_closed[OF s(2) _ _ per, of "int n"] obtain nj where nj:
    "tick (int n) (s, cur) = Inr (tick_result (int n) nj (released (int n) s))"
    "sched_inv (int n + 1) (tick_result (int n) nj (released (int n) s))" by auto
  let ?sc = "tick_result (int n) nj (released (int n) s)"
  have "state_after ts alg (Suc n) = Inr (fst ?sc, snd ?sc)"
    using s(1) nj(1) by (simp add: state_after_Suc)
  moreover have "sched_inv (int (Suc n)) (fst ?sc, snd ?sc)" using nj(2) by (simp add: add.commute)
  moreover have "tasks (fst ?sc) = tasks (Scheduler_init ts alg)" "algorithm (fst ?sc) = alg"
    using s(3,4) by simp_all
  ultimately show ?case by blast
qed


section \<open>The effect of one tick\<close>

text \<open>What one tick does to the job it runs.\<close>

definition executed_job :: "int \<Rightarrow> Job \<Rightarrow> Job" where
  "executed_job t j =
     (let j1 = (if start_time j = - 1 then j\<lparr>start_time := t\<rparr> else j)
      in if remaining_time j = 1 then j1\<lparr>remaining_time := 0, finish_time := t + 1\<rparr>
         else j1\<lparr>remaining_time := remaining_time j - 1\<rparr>)"

definition completes :: "Scheduler \<Rightarrow> nat option \<Rightarrow> nat \<Rightarrow> bool" where
  "completes s nj a = (nj = Some a \<and> remaining_time (objects s ! a) = 1)"

lemma tick_result_None:
  "tick_result t None s = (s\<lparr>history := history s @ [(t, None)]\<rparr>, None)"
  by (simp add: tick_result_def)

lemma tick_result_Some:
  assumes "a < length (objects s)"
  shows "tick_result t (Some a) s =
     (s\<lparr>history := history s @ [(t, Some (task_id (objects s ! a)))],
        objects := (objects s)[a := executed_job t (objects s ! a)],
        completed_jobs := completed_jobs s @ (if remaining_time (objects s ! a) = 1 then [a] else []),
        ready_queue := (if remaining_time (objects s ! a) = 1 then remove1 a (ready_queue s)
                        else ready_queue s)\<rparr>,
      if remaining_time (objects s ! a) = 1 then None else Some a)"
  using assms
  by (simp add: tick_result_def run_job_def mark_started_def executed_job_def Let_def)

lemma tick_result_length [simp]:
  "length (objects (fst (tick_result t nj s))) = length (objects s)"
  by (auto simp: tick_result_def run_job_def Let_def split: option.splits)

lemma tick_result_history:
  assumes "\<forall>a. nj = Some a \<longrightarrow> a < length (objects s)"
  shows "history (fst (tick_result t nj s)) =
           history s @ [(t, map_option (\<lambda>a. task_id (objects s ! a)) nj)]"
  using assms by (cases nj) (simp_all add: tick_result_None tick_result_Some)

lemma tick_result_nth:
  assumes "\<forall>a. nj = Some a \<longrightarrow> a < length (objects s)" "b < length (objects s)"
  shows "objects (fst (tick_result t nj s)) ! b =
           (if nj = Some b then executed_job t (objects s ! b) else objects s ! b)"
  using assms by (cases nj) (simp_all add: tick_result_None tick_result_Some nth_list_update_any)

lemma tick_result_ready_queue:
  assumes "\<forall>a. nj = Some a \<longrightarrow> a < length (objects s)"
  shows "ready_queue (fst (tick_result t nj s)) =
           (case nj of None \<Rightarrow> ready_queue s
            | Some a \<Rightarrow> if remaining_time (objects s ! a) = 1 then remove1 a (ready_queue s)
                        else ready_queue s)"
  using assms by (cases nj) (simp_all add: tick_result_None tick_result_Some)

lemma tick_result_completed_jobs:
  assumes "\<forall>a. nj = Some a \<longrightarrow> a < length (objects s)"
  shows "completed_jobs (fst (tick_result t nj s)) =
           completed_jobs s @
           (case nj of None \<Rightarrow> []
            | Some a \<Rightarrow> if remaining_time (objects s ! a) = 1 then [a] else [])"
  using assms by (cases nj) (simp_all add: tick_result_None tick_result_Some)

lemma executed_job_simps [simp]:
  "task_id (executed_job t j) = task_id j"
  "job_id (executed_job t j) = job_id j"
  "arrival_time (executed_job t j) = arrival_time j"
  "absolute_deadline (executed_job t j) = absolute_deadline j"
  "remaining_time (executed_job t j) = remaining_time j - 1"
  "start_time (executed_job t j) = (if start_time j = - 1 then t else start_time j)"
  "finish_time (executed_job t j) = (if remaining_time j = 1 then t + 1 else finish_time j)"
  by (simp_all add: executed_job_def Let_def)

text \<open>
  One tick from a reachable state, in full: the releases, the scheduling decision, and
  the state after the tick.
\<close>

lemma state_after_step:
  assumes "\<forall>task\<in>set ts. period task \<noteq> 0"
  shows "\<exists>s cur s1 nj.
           state_after ts alg n = Inr (s, cur) \<and> sched_inv (int n) (s, cur)
         \<and> tasks s = tasks (Scheduler_init ts alg) \<and> algorithm s = alg
         \<and> release_jobs (int n) (tasks s) (s\<lparr>time := int n\<rparr>) = Inr s1 \<and> s1 = released (int n) s
         \<and> sched_inv (int n) (s1, cur)
         \<and> get_active_job s1 = Inr nj
         \<and> (\<forall>a. nj = Some a \<longrightarrow> a \<in> set (ready_queue s1) \<and> a < length (objects s1))
         \<and> dispatch (int n) (s, cur) = Inr (mark_started (int n) nj s1, nj)
         \<and> state_after ts alg (Suc n) = Inr (tick_result (int n) nj s1)"
proof -
  from state_after_inv[OF assms, of alg n] obtain s cur where s:
    "state_after ts alg n = Inr (s, cur)" "sched_inv (int n) (s, cur)"
    "tasks s = tasks (Scheduler_init ts alg)" "algorithm s = alg" by blast
  have "period ` set (tasks s) = period ` set ts" using s(3) Scheduler_init_periods by simp
  with assms have per: "\<forall>task\<in>set (tasks s). period task \<noteq> 0"
    by (metis imageE imageI)
  let ?s1 = "released (int n) s"
  have inv1: "sched_inv (int n) (?s1, cur)" by (rule sched_inv_released[OF s(2)]) simp
  from tick_closed[OF s(2) _ _ per, of "int n"] obtain nj where nj:
    "get_active_job ?s1 = Inr nj" "\<forall>a. nj = Some a \<longrightarrow> a \<in> set (ready_queue ?s1)"
    "tick (int n) (s, cur) = Inr (tick_result (int n) nj ?s1)" by auto
  from dispatch_closed[OF s(2) _ per, of "int n"] nj(1)
  have d: "dispatch (int n) (s, cur) = Inr (mark_started (int n) nj ?s1, nj)" by auto
  have "\<forall>a. nj = Some a \<longrightarrow> a \<in> set (ready_queue ?s1) \<and> a < length (objects ?s1)"
    using nj(2) sched_invD(2)[OF inv1] by blast
  moreover have "state_after ts alg (Suc n) = Inr (tick_result (int n) nj ?s1)"
    using s(1) nj(3) by (simp add: state_after_Suc)
  moreover note release_jobs_released[OF per, of "int n"]
  ultimately show ?thesis using s nj(1) inv1 d by blast
qed

lemma state_after_history_length:
  assumes "\<forall>task\<in>set ts. period task \<noteq> 0" "state_after ts alg n = Inr (s, cur)"
  shows "length (history s) = n"
  using assms(2)
proof (induction n arbitrary: s cur)
  case 0
  then have "s = Scheduler_init ts alg" by (simp add: state_after_0)
  then show ?case by (simp add: Scheduler_init_def)
next
  case (Suc n)
  from state_after_step[OF assms(1), of alg n] obtain s0 cur0 nj where
    s0: "state_after ts alg n = Inr (s0, cur0)"
    and nj: "\<forall>a. nj = Some a \<longrightarrow> a \<in> set (ready_queue (released (int n) s0)) \<and> a < length (objects (released (int n) s0))"
    and st: "state_after ts alg (Suc n) = Inr (tick_result (int n) nj (released (int n) s0))"
    by blast
  from Suc.IH[OF s0] have l: "length (history s0) = n" .
  have "tick_result (int n) nj (released (int n) s0) = (s, cur)"
    using st Suc.prems by simp
  then have s: "fst (tick_result (int n) nj (released (int n) s0)) = s" by simp
  have "\<forall>a. nj = Some a \<longrightarrow> a < length (objects (released (int n) s0))" using nj by blast
  from tick_result_history[OF this, of "int n"] have "length (history s) = Suc (length (history s0))"
    unfolding s by simp
  with l show ?case by simp
qed

text \<open>The history only grows: an entry, once written, stays.\<close>

lemma state_after_history_prefix:
  assumes "\<forall>task\<in>set ts. period task \<noteq> 0"
    and "state_after ts alg m = Inr (s, cur)" "state_after ts alg (m + k) = Inr (s', cur')"
  shows "take m (history s') = history s"
  using assms(3)
proof (induction k arbitrary: s' cur')
  case 0
  with assms(2) have "s' = s" by simp
  with state_after_history_length[OF assms(1,2)] show ?case by simp
next
  case (Suc k)
  from state_after_step[OF assms(1), of alg "m + k"] obtain s0 cur0 nj where
    s0: "state_after ts alg (m + k) = Inr (s0, cur0)"
    and nj: "\<forall>a. nj = Some a \<longrightarrow> a \<in> set (ready_queue (released (int (m + k)) s0))
                 \<and> a < length (objects (released (int (m + k)) s0))"
    and st: "state_after ts alg (Suc (m + k)) = Inr (tick_result (int (m + k)) nj (released (int (m + k)) s0))"
    by blast
  have "tick_result (int (m + k)) nj (released (int (m + k)) s0) = (s', cur')"
    using st Suc.prems by simp
  then have s': "fst (tick_result (int (m + k)) nj (released (int (m + k)) s0)) = s'" by simp
  have "\<forall>a. nj = Some a \<longrightarrow> a < length (objects (released (int (m + k)) s0))" using nj by blast
  from tick_result_history[OF this, of "int (m + k)"]
  have h: "history s' = history s0 @ [(int (m + k), map_option (\<lambda>a. task_id (objects (released (int (m + k)) s0) ! a)) nj)]"
    unfolding s' by (simp only: released_simps)
  have "length (history s0) = m + k" by (rule state_after_history_length[OF assms(1) s0])
  then have "take m (history s') = take m (history s0)" unfolding h by simp
  with Suc.IH[OF s0] show ?case by simp
qed


section \<open>The execution trace\<close>

lemma nth_snoc: "length xs = i \<Longrightarrow> ys = xs @ [e] \<Longrightarrow> ys ! i = e"
  by auto

text \<open>
  C7.  A run of a freshly constructed scheduler for \<open>d\<close> ticks (over tasks with non-zero
  periods, so that the release step does not raise) returns a trace of exactly \<open>d\<close>
  entries (none for a negative \<open>d\<close>).  Entry \<open>i\<close> was written at tick \<open>i\<close>: with \<open>s1\<close> the
  state after the releases of tick \<open>i\<close> and \<open>nj\<close> the scheduling decision there, the
  entry is \<open>(i, task id of nj)\<close>, or \<open>(i, None)\<close> when there is no such job; the job \<open>nj\<close>
  is the one that executes at tick \<open>i\<close> (its remaining time drops by one, that of every
  other job is unchanged); and an empty ready queue gives an idle entry.
\<close>

theorem trace_one_entry_per_tick:
  assumes "\<forall>task\<in>set ts. period task \<noteq> 0"
  shows "\<exists>s' jobs h. run (Scheduler_init ts alg) (Some d) = Inr (s', jobs, h)
     \<and> length h = nat d
     \<and> (\<forall>i<nat d. \<exists>s cur s1 nj s2 cur2.
           state_after ts alg i = Inr (s, cur)
         \<and> release_jobs (int i) (tasks s) (s\<lparr>time := int i\<rparr>) = Inr s1
         \<and> get_active_job s1 = Inr nj
         \<and> state_after ts alg (Suc i) = Inr (s2, cur2)
         \<and> h ! i = (int i, map_option (\<lambda>a. task_id (objects s1 ! a)) nj)
         \<and> (ready_queue s1 = [] \<longrightarrow> nj = None)
         \<and> (\<forall>b<length (objects s1).
               remaining_time (objects s2 ! b) =
                 (if nj = Some b then remaining_time (objects s1 ! b) - 1
                  else remaining_time (objects s1 ! b))))"
proof -
  from state_after_inv[OF assms, of alg "nat d"] obtain s' cur' where
    fin: "state_after ts alg (nat d) = Inr (s', cur')" by blast
  let ?jobs = "map (\<lambda>a. objects s' ! a) (completed_jobs s')"
  have r: "run (Scheduler_init ts alg) (Some d) = Inr (s', ?jobs, history s')"
    using fin by (simp add: run_state_after)
  have len: "length (history s') = nat d" by (rule state_after_history_length[OF assms fin])
  have "\<exists>s cur s1 nj s2 cur2.
           state_after ts alg i = Inr (s, cur)
         \<and> release_jobs (int i) (tasks s) (s\<lparr>time := int i\<rparr>) = Inr s1
         \<and> get_active_job s1 = Inr nj
         \<and> state_after ts alg (Suc i) = Inr (s2, cur2)
         \<and> history s' ! i = (int i, map_option (\<lambda>a. task_id (objects s1 ! a)) nj)
         \<and> (ready_queue s1 = [] \<longrightarrow> nj = None)
         \<and> (\<forall>b<length (objects s1).
               remaining_time (objects s2 ! b) =
                 (if nj = Some b then remaining_time (objects s1 ! b) - 1
                  else remaining_time (objects s1 ! b)))" if i: "i < nat d" for i
  proof -
    from state_after_step[OF assms, of alg i] obtain s cur nj where
      s: "state_after ts alg i = Inr (s, cur)"
      and rel: "release_jobs (int i) (tasks s) (s\<lparr>time := int i\<rparr>) = Inr (released (int i) s)"
      and g: "get_active_job (released (int i) s) = Inr nj"
      and nj: "\<forall>a. nj = Some a \<longrightarrow> a \<in> set (ready_queue (released (int i) s))
                 \<and> a < length (objects (released (int i) s))"
      and st: "state_after ts alg (Suc i) = Inr (tick_result (int i) nj (released (int i) s))"
      by blast
    let ?s1 = "released (int i) s"
    let ?s2 = "fst (tick_result (int i) nj ?s1)" and ?c2 = "snd (tick_result (int i) nj ?s1)"
    have st': "state_after ts alg (Suc i) = Inr (?s2, ?c2)" using st by simp
    have nj': "\<forall>a. nj = Some a \<longrightarrow> a < length (objects ?s1)" using nj by blast
    have hl: "length (history s) = i" by (rule state_after_history_length[OF assms s])
    have h2: "history ?s2 = history s @ [(int i, map_option (\<lambda>a. task_id (objects ?s1 ! a)) nj)]"
      using tick_result_history[OF nj', of "int i"] by (simp only: released_simps)
    have "Suc i + (nat d - Suc i) = nat d" using i by simp
    with fin have "state_after ts alg (Suc i + (nat d - Suc i)) = Inr (s', cur')" by simp
    from state_after_history_prefix[OF assms st' this]
    have "take (Suc i) (history s') = history ?s2" .
    then have "history s' ! i = history ?s2 ! i"
      by (metis lessI nth_take)
    also have "\<dots> = (int i, map_option (\<lambda>a. task_id (objects ?s1 ! a)) nj)"
      by (rule nth_snoc[OF hl h2])
    finally have e: "history s' ! i = (int i, map_option (\<lambda>a. task_id (objects ?s1 ! a)) nj)" .
    have emp: "ready_queue ?s1 = [] \<longrightarrow> nj = None"
    proof
      assume "ready_queue ?s1 = []"
      with nj show "nj = None" by (cases nj) auto
    qed
    have rem: "\<forall>b<length (objects ?s1).
               remaining_time (objects ?s2 ! b) =
                 (if nj = Some b then remaining_time (objects ?s1 ! b) - 1
                  else remaining_time (objects ?s1 ! b))"
      using tick_result_nth[OF nj', of _ "int i"] by simp
    from s rel g st' e emp rem show ?thesis by blast
  qed
  with r len show ?thesis by blast
qed

theorem trace_one_entry_per_tick_witness:
  "\<exists>s' jobs. run (Scheduler_init [task_a, task_b] ''RM'') (Some 3) =
       Inr (s', jobs, [(0, Some 1), (1, Some 1), (2, Some 2)])"
proof -
  have pre: "\<forall>task\<in>set [task_a, task_b]. period task \<noteq> 0"
    by (simp add: task_a_def task_b_def)
  from trace_one_entry_per_tick[OF pre, of "''RM''" 3] obtain s' jobs h where
    r: "run (Scheduler_init [task_a, task_b] ''RM'') (Some 3) = Inr (s', jobs, h)" by blast
  have "map_sum id (\<lambda>r. snd (snd r)) (run (Scheduler_init [task_a, task_b] ''RM'') (Some 3))
          = Inr [(0, Some 1), (1, Some 1), (2, Some 2)]"
    by code_simp
  with r have "h = [(0, Some 1), (1, Some 1), (2, Some 2)]" by simp
  with r show ?thesis by blast
qed


section \<open>Start times\<close>

lemma state_after_start_time_step:
  assumes "\<forall>task\<in>set ts. period task \<noteq> 0"
  shows "\<exists>s cur s1 nj s2 cur2.
         state_after ts alg i = Inr (s, cur)
       \<and> release_jobs (int i) (tasks s) (s\<lparr>time := int i\<rparr>) = Inr s1
       \<and> get_active_job s1 = Inr nj
       \<and> state_after ts alg (Suc i) = Inr (s2, cur2)
       \<and> length (objects s) \<le> length (objects s1) \<and> length (objects s2) = length (objects s1)
       \<and> (\<forall>b<length (objects s). start_time (objects s1 ! b) = start_time (objects s ! b))
       \<and> (\<forall>b<length (objects s1). length (objects s) \<le> b \<longrightarrow> start_time (objects s1 ! b) = - 1)
       \<and> (\<forall>b<length (objects s1).
             start_time (objects s2 ! b) =
               (if nj = Some b \<and> start_time (objects s1 ! b) = - 1 then int i
                else start_time (objects s1 ! b)))
       \<and> (\<forall>b. nj = Some b \<and> start_time (objects s1 ! b) = - 1 \<longrightarrow> job_ne (objects s1) nj cur)"
proof -
  from state_after_step[OF assms, of alg i] obtain s cur nj where
    s: "state_after ts alg i = Inr (s, cur)"
    and rel: "release_jobs (int i) (tasks s) (s\<lparr>time := int i\<rparr>) = Inr (released (int i) s)"
    and inv1: "sched_inv (int i) (released (int i) s, cur)"
    and g: "get_active_job (released (int i) s) = Inr nj"
    and nj: "\<forall>a. nj = Some a \<longrightarrow> a \<in> set (ready_queue (released (int i) s))
               \<and> a < length (objects (released (int i) s))"
    and st: "state_after ts alg (Suc i) = Inr (tick_result (int i) nj (released (int i) s))"
    by blast
  let ?s1 = "released (int i) s"
  let ?s2 = "fst (tick_result (int i) nj ?s1)" and ?c2 = "snd (tick_result (int i) nj ?s1)"
  have st': "state_after ts alg (Suc i) = Inr (?s2, ?c2)" using st by simp
  have nj': "\<forall>a. nj = Some a \<longrightarrow> a < length (objects ?s1)" using nj by blast
  have 1: "length (objects s) \<le> length (objects ?s1)" "length (objects ?s2) = length (objects ?s1)"
    by simp_all
  have 2: "\<forall>b<length (objects s). start_time (objects ?s1 ! b) = start_time (objects s ! b)"
    by (simp add: nth_append)
  have 3: "\<forall>b<length (objects ?s1). length (objects s) \<le> b \<longrightarrow> start_time (objects ?s1 ! b) = - 1"
    using releases_nth[of _ "tasks s" "int i"] by (simp add: nth_append)
  have 4: "\<forall>b<length (objects ?s1).
             start_time (objects ?s2 ! b) =
               (if nj = Some b \<and> start_time (objects ?s1 ! b) = - 1 then int i
                else start_time (objects ?s1 ! b))"
    using tick_result_nth[OF nj', of _ "int i"] by simp
  have 5: "\<forall>b. nj = Some b \<and> start_time (objects ?s1 ! b) = - 1 \<longrightarrow> job_ne (objects ?s1) nj cur"
  proof (intro allI impI)
    fix b assume b: "nj = Some b \<and> start_time (objects ?s1 ! b) = - 1"
    show "job_ne (objects ?s1) nj cur"
    proof (cases cur)
      case None
      with b show ?thesis by (simp add: job_ne_def)
    next
      case (Some c)
      from sched_invD(6)[OF inv1 Some] have "start_time (objects ?s1 ! c) \<noteq> - 1" .
      with b have "objects ?s1 ! b \<noteq> objects ?s1 ! c" by auto
      with b Some show ?thesis by (simp add: job_ne_def)
    qed
  qed
  from s rel g st' 1 2 3 4 5 show ?thesis by blast
qed

lemma state_after_start_time_kept:
  assumes "\<forall>task\<in>set ts. period task \<noteq> 0"
    and "state_after ts alg i = Inr (s, cur)" "state_after ts alg (i + k) = Inr (s', cur')"
    and "b < length (objects s)" "start_time (objects s ! b) \<noteq> - 1"
  shows "b < length (objects s') \<and> start_time (objects s' ! b) = start_time (objects s ! b)"
  using assms(3)
proof (induction k arbitrary: s' cur')
  case 0
  with assms(2) have "s' = s" by simp
  with assms(4) show ?case by simp
next
  case (Suc k)
  let ?n = "i + k"
  from state_after_step[OF assms(1), of alg ?n] obtain s0 cur0 nj where
    s0: "state_after ts alg ?n = Inr (s0, cur0)"
    and nj: "\<forall>a. nj = Some a \<longrightarrow> a \<in> set (ready_queue (released (int ?n) s0))
               \<and> a < length (objects (released (int ?n) s0))"
    and st: "state_after ts alg (Suc ?n) = Inr (tick_result (int ?n) nj (released (int ?n) s0))"
    by blast
  let ?s1 = "released (int ?n) s0"
  from Suc.IH[OF s0] have ih: "b < length (objects s0)" "start_time (objects s0 ! b) = start_time (objects s ! b)"
    by simp_all
  have "tick_result (int ?n) nj ?s1 = (s', cur')" using st Suc.prems by simp
  then have s': "fst (tick_result (int ?n) nj ?s1) = s'" by simp
  have nj': "\<forall>a. nj = Some a \<longrightarrow> a < length (objects ?s1)" using nj by blast
  have b1: "b < length (objects ?s1)" using ih(1) by simp
  have "start_time (objects ?s1 ! b) = start_time (objects s ! b)" using ih by (simp add: nth_append)
  moreover have "objects s' ! b = (if nj = Some b then executed_job (int ?n) (objects ?s1 ! b) else objects ?s1 ! b)"
    using tick_result_nth[OF nj' b1, of "int ?n"] unfolding s' .
  moreover have "length (objects s') = length (objects ?s1)"
    using tick_result_length[of "int ?n" nj ?s1] unfolding s' .
  ultimately show ?case using b1 assms(5) by simp
qed

text \<open>
  C9.  In every run (over tasks with non-zero periods) a job's start time is assigned at
  most once.  At tick \<open>i\<close>, with \<open>s1\<close> the state after the releases and \<open>nj\<close> the
  scheduling decision: the release step leaves the start times of the existing jobs alone
  and creates jobs with the start time unset (\<open>- 1\<close>); the tick sets the start time of
  exactly the job \<open>nj\<close>, to \<open>i\<close>, and only if it was unset; a job selected with its start
  time unset always differs from the previously running job.  A start time that is set
  keeps its value in every later state of the run.
\<close>

theorem start_time_assigned_once:
  assumes "\<forall>task\<in>set ts. period task \<noteq> 0"
  shows "(\<forall>i. \<exists>s cur s1 nj s2 cur2.
         state_after ts alg i = Inr (s, cur)
       \<and> release_jobs (int i) (tasks s) (s\<lparr>time := int i\<rparr>) = Inr s1
       \<and> get_active_job s1 = Inr nj
       \<and> state_after ts alg (Suc i) = Inr (s2, cur2)
       \<and> length (objects s) \<le> length (objects s1) \<and> length (objects s2) = length (objects s1)
       \<and> (\<forall>b<length (objects s). start_time (objects s1 ! b) = start_time (objects s ! b))
       \<and> (\<forall>b<length (objects s1). length (objects s) \<le> b \<longrightarrow> start_time (objects s1 ! b) = - 1)
       \<and> (\<forall>b<length (objects s1).
             start_time (objects s2 ! b) =
               (if nj = Some b \<and> start_time (objects s1 ! b) = - 1 then int i
                else start_time (objects s1 ! b)))
       \<and> (\<forall>b. nj = Some b \<and> start_time (objects s1 ! b) = - 1 \<longrightarrow> job_ne (objects s1) nj cur))
    \<and> (\<forall>i k s cur s' cur' b.
          state_after ts alg i = Inr (s, cur) \<and> state_after ts alg (i + k) = Inr (s', cur')
          \<and> b < length (objects s) \<and> start_time (objects s ! b) \<noteq> - 1
          \<longrightarrow> b < length (objects s') \<and> start_time (objects s' ! b) = start_time (objects s ! b))"
  using state_after_start_time_step[OF assms, of alg] state_after_start_time_kept[OF assms, of alg]
  by blast

theorem start_time_assigned_once_witness:
  "\<exists>s cur s' cur'. state_after [task_a, task_b] ''RM'' 3 = Inr (s, cur)
     \<and> state_after [task_a, task_b] ''RM'' 7 = Inr (s', cur')
     \<and> start_time (objects s ! 1) = 2 \<and> start_time (objects s' ! 1) = 2
     \<and> finish_time (objects s' ! 1) = 7"
proof -
  let ?ts = "[task_a, task_b]"
  have pre: "\<forall>task\<in>set ?ts. period task \<noteq> 0"
    by (simp add: task_a_def task_b_def)
  note fact1 = start_time_assigned_once[OF pre, of "''RM''"]
  from fact1 obtain s cur where s: "state_after ?ts ''RM'' 3 = Inr (s, cur)" by blast
  from fact1 obtain s' cur' where s': "state_after ?ts ''RM'' (Suc 6) = Inr (s', cur')" by blast
  have e3: "map_sum id (\<lambda>sc. (length (objects (fst sc)), start_time (objects (fst sc) ! 1)))
              (state_after ?ts ''RM'' 3) = Inr (2, 2)"
    by code_simp
  have e7: "map_sum id (\<lambda>sc. finish_time (objects (fst sc) ! 1)) (state_after ?ts ''RM'' 7) = Inr 7"
    by code_simp
  from e3 s have a: "1 < length (objects s)" "start_time (objects s ! 1) = 2" by simp_all
  have s7: "state_after ?ts ''RM'' (3 + 4) = Inr (s', cur')" using s' by simp
  from fact1 s s7 a have "start_time (objects s' ! 1) = start_time (objects s ! 1)"
    by (metis (no_types, lifting) one_neq_neg_one numeral_neq_neg_one)
  moreover from e7 s7 have "finish_time (objects s' ! 1) = 7" by simp
  ultimately show ?thesis using s s7 a by auto
qed


section \<open>The scheduling decision\<close>

lemma first_min_unique:
  assumes "first_min k xs a" "first_min k xs b"
  shows "a = b"
proof -
  from assms(1) obtain p1 q1 where 1: "xs = p1 @ a # q1" "\<forall>x\<in>set p1. k a < k x" "\<forall>x\<in>set q1. k a \<le> k x"
    unfolding first_min_def by blast
  from assms(2) obtain p2 q2 where 2: "xs = p2 @ b # q2" "\<forall>x\<in>set p2. k b < k x" "\<forall>x\<in>set q2. k b \<le> k x"
    unfolding first_min_def by blast
  have e: "p1 @ a # q1 = p2 @ b # q2" using 1(1) 2(1) by simp
  show ?thesis
  proof (rule ccontr)
    assume ne: "a \<noteq> b"
    from e consider us where "p1 = p2 @ us" "us @ a # q1 = b # q2" | us where "p1 @ us = p2" "a # q1 = us @ b # q2"
      by (auto simp: append_eq_append_conv2)
    then show False
    proof cases
      case 1
      with ne obtain us' where "us = b # us'" by (cases us) auto
      with 1 have "b \<in> set p1" "a \<in> set q2" by auto
      with \<open>\<forall>x\<in>set p1. k a < k x\<close> \<open>\<forall>x\<in>set q2. k b \<le> k x\<close> show False by fastforce
    next
      case 2
      with ne obtain us' where "us = a # us'" by (cases us) auto
      with 2 have "a \<in> set p2" "b \<in> set q1" by auto
      with \<open>\<forall>x\<in>set p2. k b < k x\<close> \<open>\<forall>x\<in>set q1. k a \<le> k x\<close> show False by fastforce
    qed
  qed
qed

text \<open>
  The decision at tick \<open>n\<close> of a run under one of the three known algorithms: idle
  exactly when the ready queue is empty after the releases, otherwise the first job of
  the queue with the least key; that job is the one the tick runs.
\<close>

lemma state_after_decision:
  assumes "\<forall>task\<in>set ts. period task \<noteq> 0" and "alg \<in> {''RM'', ''DM'', ''EDF''}"
  shows "\<exists>s cur s1 nj s1'.
           state_after ts alg n = Inr (s, cur)
         \<and> tasks s = tasks (Scheduler_init ts alg)
         \<and> release_jobs (int n) (tasks s) (s\<lparr>time := int n\<rparr>) = Inr s1
         \<and> tasks s1 = tasks s
         \<and> get_active_job s1 = Inr nj
         \<and> dispatch (int n) (s, cur) = Inr (s1', nj)
         \<and> (\<forall>b\<in>set (ready_queue s1). \<exists>t. get_task (tasks s) (task_id (objects s1 ! b)) = Inr t)
         \<and> (ready_queue s1 = [] \<longrightarrow> nj = None)
         \<and> (ready_queue s1 \<noteq> [] \<longrightarrow>
              (\<exists>a. nj = Some a \<and> first_min (sched_key s1) (ready_queue s1) a))"
proof -
  from state_after_step[OF assms(1), of alg n] obtain s cur nj where
    s: "state_after ts alg n = Inr (s, cur)"
    and ts: "tasks s = tasks (Scheduler_init ts alg)" and alg: "algorithm s = alg"
    and rel: "release_jobs (int n) (tasks s) (s\<lparr>time := int n\<rparr>) = Inr (released (int n) s)"
    and inv1: "sched_inv (int n) (released (int n) s, cur)"
    and g: "get_active_job (released (int n) s) = Inr nj"
    and nj: "\<forall>a. nj = Some a \<longrightarrow> a \<in> set (ready_queue (released (int n) s))
               \<and> a < length (objects (released (int n) s))"
    and d: "dispatch (int n) (s, cur) = Inr (mark_started (int n) nj (released (int n) s), nj)"
    by blast
  let ?s1 = "released (int n) s"
  have ids: "\<forall>b\<in>set (ready_queue ?s1). task_id (objects ?s1 ! b) \<in> id' ` set (tasks ?s1)"
    using sched_invD(4)[OF inv1] by blast
  have found: "\<forall>b\<in>set (ready_queue ?s1). \<exists>t. get_task (tasks s) (task_id (objects ?s1 ! b)) = Inr t"
  proof
    fix b assume "b \<in> set (ready_queue ?s1)"
    with ids have "task_id (objects ?s1 ! b) \<in> id' ` set (tasks s)" by simp
    from get_task_found[OF this] show "\<exists>t. get_task (tasks s) (task_id (objects ?s1 ! b)) = Inr t"
      by blast
  qed
  have emp: "ready_queue ?s1 = [] \<longrightarrow> nj = None"
  proof
    assume "ready_queue ?s1 = []"
    with nj show "nj = None" by (cases nj) auto
  qed
  have ne: "ready_queue ?s1 \<noteq> [] \<longrightarrow> (\<exists>a. nj = Some a \<and> first_min (sched_key ?s1) (ready_queue ?s1) a)"
  proof
    assume q: "ready_queue ?s1 \<noteq> []"
    have "algorithm ?s1 \<in> {''RM'', ''DM'', ''EDF''}" using alg assms(2) by simp
    from get_active_job_first_min[OF q this ids] g
    show "\<exists>a. nj = Some a \<and> first_min (sched_key ?s1) (ready_queue ?s1) a" by auto
  qed
  have "tasks ?s1 = tasks s" by simp
  with s ts rel g d found emp ne show ?thesis by blast
qed

lemma sched_key_priority:
  assumes "algorithm s \<noteq> ''EDF''" "get_task (tasks s) (task_id (objects s ! b)) = Inr t"
  shows "sched_key s b = priority t"
  using assms by (simp add: sched_key_def task_priority_def)

text \<open>
  C1.  Under RM the constructor leaves the task list as it was supplied, priorities
  included: no policy assigns priorities by period.  At every tick of an RM run (over
  tasks with non-zero periods) the job dispatched is the first job in the ready queue,
  in queue order, whose task has the least priority value among the ready jobs, where
  the priority of a task is the one it carried on input.
\<close>

theorem rm_dispatch_by_input_priority:
  assumes "\<forall>task\<in>set ts. period task \<noteq> 0"
  shows "tasks (Scheduler_init ts ''RM'') = ts
     \<and> (\<forall>n. \<exists>s cur s1 nj s1'.
           state_after ts ''RM'' n = Inr (s, cur) \<and> tasks s = ts
         \<and> release_jobs (int n) ts (s\<lparr>time := int n\<rparr>) = Inr s1
         \<and> get_active_job s1 = Inr nj
         \<and> dispatch (int n) (s, cur) = Inr (s1', nj)
         \<and> (ready_queue s1 = [] \<longrightarrow> nj = None)
         \<and> (ready_queue s1 \<noteq> [] \<longrightarrow>
              (\<exists>a pre post ta. nj = Some a \<and> ready_queue s1 = pre @ a # post
                 \<and> get_task ts (task_id (objects s1 ! a)) = Inr ta
                 \<and> (\<forall>b\<in>set pre. \<exists>tb. get_task ts (task_id (objects s1 ! b)) = Inr tb
                        \<and> priority ta < priority tb)
                 \<and> (\<forall>b\<in>set post. \<exists>tb. get_task ts (task_id (objects s1 ! b)) = Inr tb
                        \<and> priority ta \<le> priority tb))))"
proof -
  have init: "tasks (Scheduler_init ts ''RM'') = ts" by (simp add: Scheduler_init_def)
  have "\<exists>s cur s1 nj s1'.
           state_after ts ''RM'' n = Inr (s, cur) \<and> tasks s = ts
         \<and> release_jobs (int n) ts (s\<lparr>time := int n\<rparr>) = Inr s1
         \<and> get_active_job s1 = Inr nj
         \<and> dispatch (int n) (s, cur) = Inr (s1', nj)
         \<and> (ready_queue s1 = [] \<longrightarrow> nj = None)
         \<and> (ready_queue s1 \<noteq> [] \<longrightarrow>
              (\<exists>a pre post ta. nj = Some a \<and> ready_queue s1 = pre @ a # post
                 \<and> get_task ts (task_id (objects s1 ! a)) = Inr ta
                 \<and> (\<forall>b\<in>set pre. \<exists>tb. get_task ts (task_id (objects s1 ! b)) = Inr tb
                        \<and> priority ta < priority tb)
                 \<and> (\<forall>b\<in>set post. \<exists>tb. get_task ts (task_id (objects s1 ! b)) = Inr tb
                        \<and> priority ta \<le> priority tb)))" for n
  proof -
    have "''RM'' \<in> {''RM'', ''DM'', ''EDF''}" by simp
    from state_after_decision[OF assms this, of n] obtain s cur s1 nj s1' where
      s: "state_after ts ''RM'' n = Inr (s, cur)" and ts: "tasks s = tasks (Scheduler_init ts ''RM'')"
      and rel: "release_jobs (int n) (tasks s) (s\<lparr>time := int n\<rparr>) = Inr s1"
      and ts1: "tasks s1 = tasks s"
      and g: "get_active_job s1 = Inr nj"
      and d: "dispatch (int n) (s, cur) = Inr (s1', nj)"
      and found: "\<forall>b\<in>set (ready_queue s1). \<exists>t. get_task (tasks s) (task_id (objects s1 ! b)) = Inr t"
      and emp: "ready_queue s1 = [] \<longrightarrow> nj = None"
      and ne: "ready_queue s1 \<noteq> [] \<longrightarrow> (\<exists>a. nj = Some a \<and> first_min (sched_key s1) (ready_queue s1) a)"
      by blast
    have tss: "tasks s = ts" "tasks s1 = ts" using ts ts1 init by simp_all
    from state_after_inv[OF assms, of "''RM''" n] s have alg: "algorithm s = ''RM''" by auto
    have alg1: "algorithm s1 \<noteq> ''EDF''"
    proof -
      from release_jobs_released[of s "int n"] rel assms tss have "s1 = released (int n) s" by simp
      with alg show ?thesis by simp
    qed
    have key: "\<exists>tb. get_task ts (task_id (objects s1 ! b)) = Inr tb \<and> sched_key s1 b = priority tb"
      if "b \<in> set (ready_queue s1)" for b
    proof -
      from found that tss obtain tb where "get_task ts (task_id (objects s1 ! b)) = Inr tb" by auto
      with sched_key_priority[OF alg1, of b tb] tss show ?thesis by simp
    qed
    have "\<exists>a pre post ta. nj = Some a \<and> ready_queue s1 = pre @ a # post
                 \<and> get_task ts (task_id (objects s1 ! a)) = Inr ta
                 \<and> (\<forall>b\<in>set pre. \<exists>tb. get_task ts (task_id (objects s1 ! b)) = Inr tb
                        \<and> priority ta < priority tb)
                 \<and> (\<forall>b\<in>set post. \<exists>tb. get_task ts (task_id (objects s1 ! b)) = Inr tb
                        \<and> priority ta \<le> priority tb)" if q: "ready_queue s1 \<noteq> []"
    proof -
      from ne q obtain a where a: "nj = Some a" "first_min (sched_key s1) (ready_queue s1) a" by blast
      then obtain pre post where pp: "ready_queue s1 = pre @ a # post"
        "\<forall>x\<in>set pre. sched_key s1 a < sched_key s1 x" "\<forall>x\<in>set post. sched_key s1 a \<le> sched_key s1 x"
        unfolding first_min_def by blast
      from key[of a] pp(1) obtain ta where ta: "get_task ts (task_id (objects s1 ! a)) = Inr ta"
        "sched_key s1 a = priority ta" by auto
      have "\<forall>b\<in>set pre. \<exists>tb. get_task ts (task_id (objects s1 ! b)) = Inr tb \<and> priority ta < priority tb"
      proof
        fix b assume b: "b \<in> set pre"
        with pp(1) key[of b] obtain tb where "get_task ts (task_id (objects s1 ! b)) = Inr tb"
          "sched_key s1 b = priority tb" by auto
        with pp(2) b ta(2) show "\<exists>tb. get_task ts (task_id (objects s1 ! b)) = Inr tb \<and> priority ta < priority tb"
          by auto
      qed
      moreover have "\<forall>b\<in>set post. \<exists>tb. get_task ts (task_id (objects s1 ! b)) = Inr tb \<and> priority ta \<le> priority tb"
      proof
        fix b assume b: "b \<in> set post"
        with pp(1) key[of b] obtain tb where "get_task ts (task_id (objects s1 ! b)) = Inr tb"
          "sched_key s1 b = priority tb" by auto
        with pp(3) b ta(2) show "\<exists>tb. get_task ts (task_id (objects s1 ! b)) = Inr tb \<and> priority ta \<le> priority tb"
          by auto
      qed
      ultimately show ?thesis using a(1) pp(1) ta(1) by blast
    qed
    with s tss rel g d emp show ?thesis by blast
  qed
  with init show ?thesis by blast
qed


section \<open>Construction from shared task objects\<close>

text \<open>
  The deep copy of a list of distinct references: the copies are appended to the store in
  the order of the list, and the new list refers to them.
\<close>

lemma deepcopy_tasks_distinct:
  assumes "distinct rs" "set rs \<inter> fst ` set memo = {}" "\<forall>r\<in>set rs. r < length h"
  shows "deepcopy_tasks h memo rs = (h @ map ((!) h) rs, [length h..<length h + length rs])"
  using assms
proof (induction rs arbitrary: h memo)
  case Nil
  show ?case by simp
next
  case (Cons r rs)
  have none: "map_of memo r = None" using Cons.prems(2) by (auto simp: map_of_eq_None_iff)
  have d: "distinct rs" and r: "r \<notin> set rs" using Cons.prems(1) by simp_all
  have m: "set rs \<inter> fst ` set ((r, length h) # memo) = {}" using Cons.prems(2) r by auto
  have l: "\<forall>x\<in>set rs. x < length (h @ [h ! r])" using Cons.prems(3) by auto
  have vals: "map ((!) (h @ [h ! r])) rs = map ((!) h) rs"
    using Cons.prems(3) by (auto simp: nth_append)
  have "deepcopy_tasks h memo (r # rs)
      = ((h @ [h ! r]) @ map ((!) (h @ [h ! r])) rs,
         length h # [length (h @ [h ! r])..<length (h @ [h ! r]) + length rs])"
    using none Cons.IH[OF d m l] by simp
  also have "length h # [length (h @ [h ! r])..<length (h @ [h ! r]) + length rs]
      = [length h..<length h + length (r # rs)]"
    using upt_conv_Cons[of "length h" "length h + Suc (length rs)"] by simp
  also have "(h @ [h ! r]) @ map ((!) (h @ [h ! r])) rs = h @ map ((!) h) (r # rs)"
    unfolding vals by simp
  finally show ?case .
qed

lemma map_nth_copies: "map ((!) (h @ vs)) [length h..<length h + length vs] = vs"
proof -
  have "[length h..<length h + length vs] = map (\<lambda>i. i + length h) [0..<length vs]"
    by (simp add: map_add_upt add.commute)
  then have "map ((!) (h @ vs)) [length h..<length h + length vs]
      = map (\<lambda>i. (h @ vs) ! (i + length h)) [0..<length vs]"
    by (simp only: map_map o_def)
  also have "\<dots> = map ((!) vs) [0..<length vs]" by (simp add: nth_append)
  also have "\<dots> = vs" by (rule map_nth)
  finally show ?thesis .
qed

lemma snd_set_enumerate: "snd ` set (enumerate n xs) = set xs"
proof -
  have "snd ` set (enumerate n xs) = set (map snd (enumerate n xs))" by (simp only: set_map)
  then show ?thesis by (simp only: map_snd_enumerate)
qed

lemma assign_priorities_store_length [simp]:
  "length (assign_priorities_store h irs) = length h"
  by (induction irs arbitrary: h) auto

lemma assign_priorities_store_frame:
  assumes "r \<notin> snd ` set irs"
  shows "assign_priorities_store h irs ! r = h ! r"
  using assms
proof (induction irs arbitrary: h)
  case Nil
  show ?case by simp
next
  case (Cons ir irs)
  obtain i r' where ir: "ir = (i, r')" by (cases ir)
  from Cons.prems have ne: "r \<noteq> r'" and rest: "r \<notin> snd ` set irs" unfolding ir by auto
  have "assign_priorities_store h (ir # irs) ! r
      = assign_priorities_store (h[r' := (h ! r')\<lparr>priority := int i\<rparr>]) irs ! r"
    unfolding ir by simp
  also have "\<dots> = (h[r' := (h ! r')\<lparr>priority := int i\<rparr>]) ! r" by (rule Cons.IH[OF rest])
  also have "\<dots> = h ! r" using ne by simp
  finally show ?case .
qed

lemma assign_priorities_store_values:
  assumes "distinct (map snd irs)" "\<forall>r\<in>snd ` set irs. r < length h"
  shows "map ((!) (assign_priorities_store h irs)) (map snd irs)
           = map (\<lambda>(i, r). (h ! r)\<lparr>priority := int i\<rparr>) irs"
  using assms
proof (induction irs arbitrary: h)
  case Nil
  show ?case by simp
next
  case (Cons ir irs)
  obtain i r where ir: "ir = (i, r)" by (cases ir)
  let ?h = "h[r := (h ! r)\<lparr>priority := int i\<rparr>]"
  have r: "r \<notin> snd ` set irs" and d: "distinct (map snd irs)" and rl: "r < length h"
    using Cons.prems unfolding ir by auto
  have l: "\<forall>x\<in>snd ` set irs. x < length ?h" using Cons.prems(2) by simp
  have head: "assign_priorities_store ?h irs ! r = (h ! r)\<lparr>priority := int i\<rparr>"
    using assign_priorities_store_frame[OF r, of ?h] rl by simp
  have "map (\<lambda>(j, x). (?h ! x)\<lparr>priority := int j\<rparr>) irs
      = map (\<lambda>(j, x). (h ! x)\<lparr>priority := int j\<rparr>) irs"
  proof (rule map_cong[OF refl])
    fix p assume p: "p \<in> set irs"
    obtain j x where jx: "p = (j, x)" by (cases p)
    with p r have "x \<noteq> r" by force
    then show "(case p of (j, x) \<Rightarrow> (?h ! x)\<lparr>priority := int j\<rparr>)
             = (case p of (j, x) \<Rightarrow> (h ! x)\<lparr>priority := int j\<rparr>)"
      unfolding jx by simp
  qed
  with Cons.IH[OF d l] have tail: "map ((!) (assign_priorities_store ?h irs)) (map snd irs)
      = map (\<lambda>(j, x). (h ! x)\<lparr>priority := int j\<rparr>) irs" by simp
  show ?case unfolding ir using head tail by simp
qed

lemma map_sort_key:
  "map g (sort_key (\<lambda>x. f (g x)) xs) = sort_key f (map g xs)"
proof (induction xs)
  case Nil
  show ?case by simp
next
  case (Cons x xs)
  have ins: "map g (insort_key (\<lambda>x. f (g x)) x ys) = insort_key f (g x) (map g ys)" for ys
    by (induction ys) simp_all
  show ?case using Cons by (simp add: ins)
qed

lemma enumerate_map_snd:
  "map (\<lambda>(i, r). F i (g r)) (enumerate n rs) = map (\<lambda>(i, t). F i t) (enumerate n (map g rs))"
  by (induction rs arbitrary: n) simp_all

text \<open>
  A construction from distinct references changes no object that existed before, and the
  scheduler it builds is the scheduler of the value model over the values of the tasks.
\<close>

lemma Scheduler_new_distinct:
  assumes refs: "\<forall>r\<in>set rs. r < length h" and dist: "distinct rs"
  shows "\<forall>r<length h. fst (Scheduler_new h rs alg) ! r = h ! r"
    and "snd (Scheduler_new h rs alg) = Scheduler_init (map ((!) h) rs) alg"
    and "length (fst (Scheduler_new h rs alg)) = length h + length rs"
proof -
  define n where "n = length h"
  define vals where "vals = map ((!) h) rs"
  define h1 where "h1 = h @ vals"
  define new where "new = [n..<n + length rs]"
  have copy: "deepcopy_tasks h [] rs = (h1, new)"
    unfolding h1_def new_def vals_def n_def by (rule deepcopy_tasks_distinct[OF dist _ refs]) simp
  have "length vals = length rs" by (simp add: vals_def)
  then have newvals: "map ((!) h1) new = vals"
    unfolding h1_def new_def n_def using map_nth_copies[of h vals] by simp
  have old1: "h1 ! r = h ! r" if "r < length h" for r using that by (simp add: h1_def nth_append)
  have "map (\<lambda>r. period (h1 ! r)) new = map period (map ((!) h1) new)" by (simp add: o_def)
  then have per: "map (\<lambda>r. period (h1 ! r)) new = map period vals" unfolding newvals .
  show "snd (Scheduler_new h rs alg) = Scheduler_init (map ((!) h) rs) alg"
  proof (cases "alg = ''DM''")
    case False
    then show ?thesis
      unfolding Scheduler_new_def copy prod.case Let_def per Scheduler_init_def vals_def[symmetric]
      using newvals by simp
  next
    case True
    define sorted where "sorted = sort_key (\<lambda>r. deadline (h1 ! r)) new"
    define h2 where "h2 = assign_priorities_store h1 (enumerate 0 sorted)"
    have ds: "distinct sorted" "set sorted = set new" by (simp_all add: sorted_def new_def)
    have "snd ` set (enumerate 0 sorted) = set new"
      unfolding snd_set_enumerate by (rule ds(2))
    then have sl: "\<forall>r\<in>snd ` set (enumerate 0 sorted). r < length h1"
      by (simp add: new_def h1_def n_def vals_def)
    have sv: "map ((!) h1) sorted = sort_key deadline vals"
      unfolding sorted_def map_sort_key newvals ..
    have "map ((!) h2) sorted = map ((!) h2) (map snd (enumerate 0 sorted))" by simp
    also have "\<dots> = map (\<lambda>(i, r). (h1 ! r)\<lparr>priority := int i\<rparr>) (enumerate 0 sorted)"
      unfolding h2_def by (rule assign_priorities_store_values[OF _ sl]) (simp add: ds(1))
    also have "\<dots> = map (\<lambda>(i, t). t\<lparr>priority := int i\<rparr>) (enumerate 0 (map ((!) h1) sorted))"
      by (rule enumerate_map_snd[of "\<lambda>i t. t\<lparr>priority := int i\<rparr>"])
    also have "\<dots> = assign_priorities (sort_key deadline vals)"
      unfolding sv assign_priorities_def ..
    finally have tv: "map ((!) h2) sorted = assign_priorities (sort_key deadline vals)" .
    show ?thesis
      unfolding Scheduler_new_def copy prod.case Let_def per Scheduler_init_def vals_def[symmetric]
        sorted_def[symmetric]
      using True tv by (simp add: h2_def[symmetric])
  qed
  show "length (fst (Scheduler_new h rs alg)) = length h + length rs"
    unfolding Scheduler_new_def copy by (simp add: Let_def h1_def vals_def)
  show "\<forall>r<length h. fst (Scheduler_new h rs alg) ! r = h ! r"
  proof (intro allI impI)
    fix r assume r: "r < length h"
    show "fst (Scheduler_new h rs alg) ! r = h ! r"
    proof (cases "alg = ''DM''")
      case False
      then show ?thesis unfolding Scheduler_new_def copy using old1[OF r] by (simp add: Let_def)
    next
      case True
      define sorted where "sorted = sort_key (\<lambda>r. deadline (h1 ! r)) new"
      have "snd ` set (enumerate 0 sorted) = set new"
        unfolding snd_set_enumerate by (simp add: sorted_def)
      then have "r \<notin> snd ` set (enumerate 0 sorted)"
        using r by (simp add: new_def n_def)
      from assign_priorities_store_frame[OF this, of h1] old1[OF r] True
      show ?thesis unfolding Scheduler_new_def copy by (simp add: Let_def sorted_def[symmetric])
    qed
  qed
qed


lemma decision_eval:
  assumes "state_after ts alg n = Inr (s, cur)"
    and "release_jobs t (g s) (s\<lparr>time := t\<rparr>) = Inr s1"
    and "get_active_job s1 = Inr nj"
    and "map_sum id (\<lambda>sc. case release_jobs t (g (fst sc)) ((fst sc)\<lparr>time := t\<rparr>) of
              Inl e \<Rightarrow> Inl e
            | Inr s1 \<Rightarrow> map_sum id (\<lambda>n. (n, f s1)) (get_active_job s1))
             (state_after ts alg n) = Inr (Inr (x, y))"
  shows "nj = x \<and> f s1 = y"
  using assms by simp

theorem rm_dispatch_by_input_priority_witness:
  "tasks (Scheduler_init [task_a_low, task_c] ''RM'') = [task_a_low, task_c]
   \<and> (\<exists>s cur s1. state_after [task_a_low, task_c] ''RM'' 0 = Inr (s, cur)
         \<and> release_jobs 0 [task_a_low, task_c] (s\<lparr>time := 0\<rparr>) = Inr s1
         \<and> get_active_job s1 = Inr (Some 1)
         \<and> task_id (objects s1 ! 1) = id' task_c)"
proof -
  let ?ts = "[task_a_low, task_c]"
  have pre: "\<forall>task\<in>set ?ts. period task \<noteq> 0"
    by (simp add: task_a_low_def task_c_def)
  note t = rm_dispatch_by_input_priority[OF pre]
  from t have i: "tasks (Scheduler_init ?ts ''RM'') = ?ts" by blast
  from t obtain s cur s1 nj where
    s: "state_after ?ts ''RM'' 0 = Inr (s, cur)"
    and rel: "release_jobs (int 0) ?ts (s\<lparr>time := int 0\<rparr>) = Inr s1"
    and g: "get_active_job s1 = Inr nj" by blast
  have e: "map_sum id (\<lambda>sc. case release_jobs 0 ((\<lambda>_. ?ts) (fst sc)) ((fst sc)\<lparr>time := 0\<rparr>) of
              Inl e \<Rightarrow> Inl e
            | Inr s1 \<Rightarrow> map_sum id (\<lambda>n. (n, (\<lambda>s1. task_id (objects s1 ! 1)) s1)) (get_active_job s1))
             (state_after ?ts ''RM'' 0) = Inr (Inr (Some 1, 3))"
    by code_simp
  note rel0 = rel[unfolded of_nat_0]
  from decision_eval[of ?ts "''RM''" 0 s cur 0 "\<lambda>_. ?ts" s1 nj "\<lambda>s1. task_id (objects s1 ! 1)", OF s rel0 g e]
  have "nj = Some 1" "task_id (objects s1 ! 1) = 3" by simp_all
  moreover have "id' task_c = 3" by (simp add: task_c_def)
  ultimately show ?thesis using i s rel0 g by auto
qed

text \<open>
  The dispatch order under RM depends on the priorities supplied on input: the two task
  sets below have the same periods, and the run dispatches the task with the longer
  period first when its input priority value is the smaller one.
\<close>

theorem rm_dispatch_depends_on_input_priority:
  "period task_a_low < period task_c
   \<and> period task_a_low = period task_a
   \<and> tasks (Scheduler_init [task_a_low, task_c] ''RM'') = [task_a_low, task_c]
   \<and> map_sum id (\<lambda>r. snd (snd r)) (run (Scheduler_init [task_a_low, task_c] ''RM'') (Some 1))
        = Inr [(0, Some 3)]
   \<and> map_sum id (\<lambda>r. snd (snd r)) (run (Scheduler_init [task_a, task_c] ''RM'') (Some 1))
        = Inr [(0, Some 1)]"
proof -
  have "map_sum id (\<lambda>r. snd (snd r)) (run (Scheduler_init [task_a_low, task_c] ''RM'') (Some 1))
        = Inr [(0, Some 3)]" by code_simp
  moreover have "map_sum id (\<lambda>r. snd (snd r)) (run (Scheduler_init [task_a, task_c] ''RM'') (Some 1))
        = Inr [(0, Some 1)]" by code_simp
  ultimately show ?thesis
    by (simp add: task_a_low_def task_a_def task_c_def Scheduler_init_def)
qed

section \<open>Determinism\<close>

text \<open>
  C6.  The caller holds a list of distinct task objects in a store, and a simulation is a
  scheduler constructed from that list and run.  A construction, under any algorithm,
  changes no object that existed before: the deep copy puts the scheduler's tasks at new
  places, and the priorities that DM assigns go to the copies.  The scheduler constructed
  is the one the value model gives for the values of the caller's tasks.  So a second
  simulation constructed from the same list after a first one (of any algorithm; a run
  reads the scheduler's tasks and writes only its own jobs), and a simulation constructed
  from any other list of distinct objects with the same values (fresh deep copies), return
  the same scheduler, the same completed jobs and the same trace as a simulation on the
  untouched store, and \<open>analyze_results\<close> gives the same statistics.  The tie-break is fixed
  too: at every tick of a run under RM, DM or EDF (over tasks with non-zero periods), when
  the ready queue is not empty the job selected is the first job of the queue with the
  least key, and there is only one such job.
\<close>

theorem runs_deterministic:
  assumes refs: "\<forall>r\<in>set rs. r < length h" and dist: "distinct rs"
  shows "(\<forall>r<length h. fst (Scheduler_new h rs alg1) ! r = h ! r)
     \<and> snd (Scheduler_new h rs alg) = Scheduler_init (map ((!) h) rs) alg
     \<and> run (snd (Scheduler_new (fst (Scheduler_new h rs alg1)) rs alg)) d
         = run (snd (Scheduler_new h rs alg)) d
     \<and> map_sum id (\<lambda>r. analyze_results (fst r))
           (run (snd (Scheduler_new (fst (Scheduler_new h rs alg1)) rs alg)) d)
         = map_sum id (\<lambda>r. analyze_results (fst r)) (run (snd (Scheduler_new h rs alg)) d)
     \<and> (\<forall>h' rs'. (\<forall>r\<in>set rs'. r < length h') \<and> distinct rs' \<and> map ((!) h') rs' = map ((!) h) rs
           \<longrightarrow> run (snd (Scheduler_new h' rs' alg)) d = run (snd (Scheduler_new h rs alg)) d
             \<and> map_sum id (\<lambda>r. analyze_results (fst r)) (run (snd (Scheduler_new h' rs' alg)) d)
               = map_sum id (\<lambda>r. analyze_results (fst r)) (run (snd (Scheduler_new h rs alg)) d))
     \<and> ((\<forall>task\<in>set (map ((!) h) rs). period task \<noteq> 0) \<and> alg \<in> {''RM'', ''DM'', ''EDF''}
           \<longrightarrow> (\<forall>n. \<exists>s cur s1 nj.
                 state_after (map ((!) h) rs) alg n = Inr (s, cur)
               \<and> release_jobs (int n) (tasks s) (s\<lparr>time := int n\<rparr>) = Inr s1
               \<and> get_active_job s1 = Inr nj
               \<and> (ready_queue s1 \<noteq> [] \<longrightarrow>
                    (\<exists>a. nj = Some a \<and> first_min (sched_key s1) (ready_queue s1) a
                       \<and> (\<forall>b. first_min (sched_key s1) (ready_queue s1) b \<longrightarrow> b = a)))))"
proof -
  let ?ts = "map ((!) h) rs"
  let ?h1 = "fst (Scheduler_new h rs alg1)"
  note first = Scheduler_new_distinct[OF refs dist, of alg1]
  have 1: "\<forall>r<length h. ?h1 ! r = h ! r" by (rule first(1))
  have 2: "snd (Scheduler_new h rs alg) = Scheduler_init ?ts alg"
    by (rule Scheduler_new_distinct(2)[OF refs dist])
  have same: "snd (Scheduler_new h' rs' alg) = snd (Scheduler_new h rs alg)"
    if "\<forall>r\<in>set rs'. r < length h'" "distinct rs'" "map ((!) h') rs' = ?ts" for h' rs'
    unfolding Scheduler_new_distinct(2)[OF that(1,2)] 2 that(3) ..
  have refs1: "\<forall>r\<in>set rs. r < length ?h1" using refs first(3) by auto
  have vals1: "map ((!) ?h1) rs = ?ts" using refs 1 by simp
  note second = same[OF refs1 dist vals1]
  have 3: "run (snd (Scheduler_new ?h1 rs alg)) d = run (snd (Scheduler_new h rs alg)) d"
    unfolding second ..
  have 4: "map_sum id (\<lambda>r. analyze_results (fst r)) (run (snd (Scheduler_new ?h1 rs alg)) d)
         = map_sum id (\<lambda>r. analyze_results (fst r)) (run (snd (Scheduler_new h rs alg)) d)"
    unfolding second ..
  have 5: "\<forall>h' rs'. (\<forall>r\<in>set rs'. r < length h') \<and> distinct rs' \<and> map ((!) h') rs' = ?ts
           \<longrightarrow> run (snd (Scheduler_new h' rs' alg)) d = run (snd (Scheduler_new h rs alg)) d
             \<and> map_sum id (\<lambda>r. analyze_results (fst r)) (run (snd (Scheduler_new h' rs' alg)) d)
               = map_sum id (\<lambda>r. analyze_results (fst r)) (run (snd (Scheduler_new h rs alg)) d)"
  proof (intro allI impI)
    fix h' rs'
    assume "(\<forall>r\<in>set rs'. r < length h') \<and> distinct rs' \<and> map ((!) h') rs' = ?ts"
    then have "snd (Scheduler_new h' rs' alg) = snd (Scheduler_new h rs alg)"
      by (intro same) simp_all
    then show "run (snd (Scheduler_new h' rs' alg)) d = run (snd (Scheduler_new h rs alg)) d
             \<and> map_sum id (\<lambda>r. analyze_results (fst r)) (run (snd (Scheduler_new h' rs' alg)) d)
               = map_sum id (\<lambda>r. analyze_results (fst r)) (run (snd (Scheduler_new h rs alg)) d)"
      by simp
  qed
  have 6: "(\<forall>task\<in>set ?ts. period task \<noteq> 0) \<and> alg \<in> {''RM'', ''DM'', ''EDF''}
           \<longrightarrow> (\<forall>n. \<exists>s cur s1 nj.
                 state_after ?ts alg n = Inr (s, cur)
               \<and> release_jobs (int n) (tasks s) (s\<lparr>time := int n\<rparr>) = Inr s1
               \<and> get_active_job s1 = Inr nj
               \<and> (ready_queue s1 \<noteq> [] \<longrightarrow>
                    (\<exists>a. nj = Some a \<and> first_min (sched_key s1) (ready_queue s1) a
                       \<and> (\<forall>b. first_min (sched_key s1) (ready_queue s1) b \<longrightarrow> b = a))))"
  proof (intro impI allI)
    fix n
    assume "(\<forall>task\<in>set ?ts. period task \<noteq> 0) \<and> alg \<in> {''RM'', ''DM'', ''EDF''}"
    then have per: "\<forall>task\<in>set ?ts. period task \<noteq> 0" and alg: "alg \<in> {''RM'', ''DM'', ''EDF''}"
      by blast+
    from state_after_decision[OF per alg, of n] obtain s cur s1 nj where
      s: "state_after ?ts alg n = Inr (s, cur)"
      and rel: "release_jobs (int n) (tasks s) (s\<lparr>time := int n\<rparr>) = Inr s1"
      and g: "get_active_job s1 = Inr nj"
      and ne: "ready_queue s1 \<noteq> [] \<longrightarrow> (\<exists>a. nj = Some a \<and> first_min (sched_key s1) (ready_queue s1) a)"
      by blast
    have "\<exists>a. nj = Some a \<and> first_min (sched_key s1) (ready_queue s1) a
                 \<and> (\<forall>b. first_min (sched_key s1) (ready_queue s1) b \<longrightarrow> b = a)"
      if "ready_queue s1 \<noteq> []"
    proof -
      from ne that obtain a where a: "nj = Some a" "first_min (sched_key s1) (ready_queue s1) a" by blast
      with first_min_unique[OF _ a(2)] show ?thesis by blast
    qed
    with s rel g show "\<exists>s cur s1 nj.
                 state_after ?ts alg n = Inr (s, cur)
               \<and> release_jobs (int n) (tasks s) (s\<lparr>time := int n\<rparr>) = Inr s1
               \<and> get_active_job s1 = Inr nj
               \<and> (ready_queue s1 \<noteq> [] \<longrightarrow>
                    (\<exists>a. nj = Some a \<and> first_min (sched_key s1) (ready_queue s1) a
                       \<and> (\<forall>b. first_min (sched_key s1) (ready_queue s1) b \<longrightarrow> b = a)))"
      by blast
  qed
  from 1 2 3 4 5 6 show ?thesis by (intro conjI)
qed

text \<open>
  An instance: a DM simulation is constructed first.  Its tasks are copies at the end of
  the store, renumbered; the caller's two tasks keep their priorities, and the RM
  simulation constructed afterwards runs as on the untouched store.  At tick 0 the two
  ready jobs have the same key, and the first of the queue is selected.
\<close>

theorem runs_deterministic_witness:
  "fst (Scheduler_new [task_a, task_d] [0, 1] ''DM'')
       = [task_a, task_d, task_a\<lparr>priority := 0\<rparr>, task_d\<lparr>priority := 1\<rparr>]
   \<and> map_sum id (\<lambda>r. snd (snd r))
         (run (snd (Scheduler_new (fst (Scheduler_new [task_a, task_d] [0, 1] ''DM'')) [0, 1] ''RM''))
              (Some 4))
       = Inr [(0, Some 1), (1, Some 1), (2, Some 4), (3, None)]
   \<and> (\<exists>s cur s1. state_after [task_a, task_d] ''RM'' 0 = Inr (s, cur)
         \<and> release_jobs 0 (tasks s) (s\<lparr>time := 0\<rparr>) = Inr s1
         \<and> ready_queue s1 = [0, 1]
         \<and> sched_key s1 0 = 1 \<and> sched_key s1 1 = 1
         \<and> get_active_job s1 = Inr (Some 0))"
proof -
  let ?h = "[task_a, task_d]"
  let ?ts = "[task_a, task_d]"
  have pre: "\<forall>r\<in>set [0, 1]. r < length ?h" "distinct [0::nat, 1]" by simp_all
  have vals: "map ((!) ?h) [0, 1] = ?ts" by simp
  note det = runs_deterministic[OF pre, of "''DM''" "''RM''" "Some 4", unfolded vals]
  have per: "(\<forall>task\<in>set ?ts. period task \<noteq> 0) \<and> ''RM'' \<in> {''RM'', ''DM'', ''EDF''}"
    by (simp add: task_a_def task_d_def)
  from det have r: "run (snd (Scheduler_new (fst (Scheduler_new ?h [0, 1] ''DM'')) [0, 1] ''RM'')) (Some 4)
      = run (Scheduler_init ?ts ''RM'') (Some 4)" by simp
  from det per have "\<forall>n. \<exists>s cur s1 nj.
                 state_after ?ts ''RM'' n = Inr (s, cur)
               \<and> release_jobs (int n) (tasks s) (s\<lparr>time := int n\<rparr>) = Inr s1
               \<and> get_active_job s1 = Inr nj
               \<and> (ready_queue s1 \<noteq> [] \<longrightarrow>
                    (\<exists>a. nj = Some a \<and> first_min (sched_key s1) (ready_queue s1) a
                       \<and> (\<forall>b. first_min (sched_key s1) (ready_queue s1) b \<longrightarrow> b = a)))"
    by blast
  then obtain s cur s1 nj where
    s: "state_after ?ts ''RM'' 0 = Inr (s, cur)"
    and rel: "release_jobs (int 0) (tasks s) (s\<lparr>time := int 0\<rparr>) = Inr s1"
    and g: "get_active_job s1 = Inr nj" by blast
  have e: "map_sum id (\<lambda>sc. case release_jobs 0 (tasks (fst sc)) ((fst sc)\<lparr>time := 0\<rparr>) of
              Inl e \<Rightarrow> Inl e
            | Inr s1 \<Rightarrow> map_sum id (\<lambda>n. (n, (\<lambda>s1. (ready_queue s1, sched_key s1 0, sched_key s1 1)) s1)) (get_active_job s1))
             (state_after ?ts ''RM'' 0) = Inr (Inr (Some 0, [0, 1], 1, 1))"
    by code_simp
  note rel0 = rel[unfolded of_nat_0]
  from decision_eval[of ?ts "''RM''" 0 s cur 0 tasks s1 nj "\<lambda>s1. (ready_queue s1, sched_key s1 0, sched_key s1 1)", OF s rel0 g e]
  have "nj = Some 0" "ready_queue s1 = [0, 1]" "sched_key s1 0 = 1" "sched_key s1 1 = 1"
    by simp_all
  moreover have "map_sum id (\<lambda>r. snd (snd r)) (run (Scheduler_init ?ts ''RM'') (Some 4))
       = Inr [(0, Some 1), (1, Some 1), (2, Some 4), (3, None)]" by code_simp
  moreover have "fst (Scheduler_new ?h [0, 1] ''DM'')
       = [task_a, task_d, task_a\<lparr>priority := 0\<rparr>, task_d\<lparr>priority := 1\<rparr>]"
    by code_simp
  ultimately show ?thesis using s rel0 g r by auto
qed


section \<open>Result aggregation\<close>

text \<open>
  The statistics of one task as the specification words them, over its completed jobs:
  zero throughout when there are none; otherwise the greatest response time (finish minus
  arrival), the arithmetic mean of the response times, and the number of jobs whose
  finish time exceeds their absolute deadline.
\<close>

definition observed_stats :: "Job list \<Rightarrow> Stats" where
  "observed_stats js =
     (if js = [] then \<lparr>Sim_WCRT = 0, Sim_Avg_RT = 0, Missed = 0\<rparr>
      else \<lparr>Sim_WCRT = Max ((\<lambda>j. finish_time j - arrival_time j) ` set js),
            Sim_Avg_RT = real_of_int (\<Sum>j\<leftarrow>js. finish_time j - arrival_time j) / real (length js),
            Missed = int (length (filter (\<lambda>j. absolute_deadline j < finish_time j) js))\<rparr>)"

lemma py_max_Max: "py_max b xs = Max (set (b # xs))"
proof (induction xs arbitrary: b)
  case Nil
  show ?case by simp
next
  case (Cons x xs)
  have "py_max b (x # xs) = Max (set ((if b < x then x else b) # xs))"
    using Cons[of "if b < x then x else b"] by simp
  also have "\<dots> = Max (insert (max b x) (set xs))" by (simp add: max_def not_less)
  also have "\<dots> = Max (set (b # x # xs))"
  proof (cases "xs = []")
    case True
    then show ?thesis by simp
  next
    case False
    then show ?thesis by (simp add: max.assoc)
  qed
  finally show ?case .
qed

lemma those_response_times:
  "\<forall>j\<in>set js. finish_time j \<noteq> - 1 \<Longrightarrow>
   those (map response_time js) = Some (map (\<lambda>j. finish_time j - arrival_time j) js)"
  by (induction js) (simp_all add: response_time_def)

lemma task_stats_observed:
  assumes "\<forall>j\<in>set js. finish_time j \<noteq> - 1"
  shows "task_stats js = Inr (observed_stats js)"
proof (cases "js = []")
  case True
  then show ?thesis by (simp add: task_stats_def observed_stats_def)
next
  case False
  let ?rts = "map (\<lambda>j. finish_time j - arrival_time j) js"
  have rts: "?rts \<noteq> []" using False by simp
  have "hd ?rts # tl ?rts = ?rts" using rts by (rule hd_Cons_tl)
  then have "set (hd ?rts # tl ?rts) = (\<lambda>j. finish_time j - arrival_time j) ` set js"
    by (simp only: set_map)
  then have m: "py_max (hd ?rts) (tl ?rts) = Max ((\<lambda>j. finish_time j - arrival_time j) ` set js)"
    by (simp only: py_max_Max)
  have f: "filter is_missed js = filter (\<lambda>j. absolute_deadline j < finish_time j) js"
    using assms by (intro filter_cong) (auto simp: is_missed_def)
  show ?thesis
    using False those_response_times[OF assms] m f
    by (simp add: task_stats_def observed_stats_def del: list.map)
qed

lemma analyze_loop_observed:
  assumes "\<forall>j\<in>set completed. finish_time j \<noteq> - 1"
  shows "analyze_loop ts completed stats =
     Inr (\<lambda>i. if i \<in> id' ` set ts
               then Some (observed_stats (filter (\<lambda>j. task_id j = i) completed))
               else stats i)"
proof (induction ts arbitrary: stats)
  case Nil
  show ?case by simp
next
  case (Cons t ts)
  have "\<forall>j\<in>set (filter (\<lambda>j. task_id j = id' t) completed). finish_time j \<noteq> - 1"
    using assms by simp
  from task_stats_observed[OF this]
  have "analyze_loop (t # ts) completed stats =
        analyze_loop ts completed (stats(id' t \<mapsto> observed_stats (filter (\<lambda>j. task_id j = id' t) completed)))"
    by simp
  also have "\<dots> = Inr (\<lambda>i. if i \<in> id' ` set (t # ts)
               then Some (observed_stats (filter (\<lambda>j. task_id j = i) completed))
               else stats i)"
    unfolding Cons by (auto intro!: ext)
  finally show ?case .
qed

lemma Scheduler_init_ids:
  "id' ` set (tasks (Scheduler_init ts alg)) = id' ` set ts"
  by (simp add: Scheduler_init_def set_assign_priorities)

text \<open>
  C8.  After a run (over tasks with non-zero periods), \<open>analyze_results\<close> returns, and
  for every task the statistics are those of its completed jobs: zero observed WCRT,
  average and missed count when it has none; otherwise the greatest response time, the
  mean response time and the number of completed jobs that finished after their absolute
  deadline.  Every completed job has a finish time, so its response time is defined.  A
  job still in the ready queue is unfinished: it is not among the completed jobs, and
  \<open>is_missed\<close> is false for it.
\<close>

theorem analyze_results_statistics:
  assumes "\<forall>task\<in>set ts. period task \<noteq> 0"
  shows "\<exists>s' jobs h stats.
           run (Scheduler_init ts alg) (Some d) = Inr (s', jobs, h)
         \<and> analyze_results s' = Inr stats
         \<and> (\<forall>task\<in>set ts.
               stats (id' task) = Some (observed_stats (filter (\<lambda>j. task_id j = id' task) jobs)))
         \<and> (\<forall>j\<in>set jobs. response_time j = Some (finish_time j - arrival_time j))
         \<and> (\<forall>a\<in>set (ready_queue s'). a \<notin> set (completed_jobs s')
               \<and> response_time (objects s' ! a) = None \<and> \<not> is_missed (objects s' ! a))"
proof -
  from state_after_inv[OF assms, of alg "nat d"] obtain s' cur' where
    fin: "state_after ts alg (nat d) = Inr (s', cur')" and inv: "sched_inv (int (nat d)) (s', cur')"
    and ts: "tasks s' = tasks (Scheduler_init ts alg)" by blast
  let ?jobs = "map (\<lambda>a. objects s' ! a) (completed_jobs s')"
  note D = sched_invD[OF inv]
  have r: "run (Scheduler_init ts alg) (Some d) = Inr (s', ?jobs, history s')"
    using fin by (simp add: run_state_after)
  have finished: "\<forall>j\<in>set ?jobs. finish_time j \<noteq> - 1" using D(11) by auto
  let ?stats = "\<lambda>i. if i \<in> id' ` set (tasks s')
               then Some (observed_stats (filter (\<lambda>j. task_id j = i) ?jobs))
               else None"
  have a: "analyze_results s' = Inr ?stats"
    unfolding analyze_results_def by (rule analyze_loop_observed[OF finished])
  have ids: "id' ` set (tasks s') = id' ` set ts" using ts Scheduler_init_ids by simp
  have 1: "\<forall>task\<in>set ts. ?stats (id' task) = Some (observed_stats (filter (\<lambda>j. task_id j = id' task) ?jobs))"
    using ids by auto
  have 2: "\<forall>j\<in>set ?jobs. response_time j = Some (finish_time j - arrival_time j)"
    using finished by (simp add: response_time_def)
  have 3: "\<forall>a\<in>set (ready_queue s'). a \<notin> set (completed_jobs s')
               \<and> response_time (objects s' ! a) = None \<and> \<not> is_missed (objects s' ! a)"
    using D(3) D(10) by (auto simp: response_time_def is_missed_def)
  from r a 1 2 3 show ?thesis by blast
qed

theorem analyze_results_statistics_witness:
  "\<exists>s' jobs h stats.
      run (Scheduler_init [task_a, task_b] ''RM'') (Some 20) = Inr (s', jobs, h)
    \<and> analyze_results s' = Inr stats
    \<and> stats 2 = Some \<lparr>Sim_WCRT = 7, Sim_Avg_RT = 6, Missed = 2\<rparr>"
proof -
  let ?ts = "[task_a, task_b]"
  have pre: "\<forall>task\<in>set ?ts. period task \<noteq> 0"
    by (simp add: task_a_def task_b_def)
  from analyze_results_statistics[OF pre, of "''RM''" 20] obtain s' jobs h stats where
    r: "run (Scheduler_init ?ts ''RM'') (Some 20) = Inr (s', jobs, h)"
    and a: "analyze_results s' = Inr stats"
    and st: "\<forall>task\<in>set ?ts. stats (id' task) = Some (observed_stats (filter (\<lambda>j. task_id j = id' task) jobs))"
    by blast
  have e: "map_sum id (\<lambda>r. filter (\<lambda>j. task_id j = 2) (fst (snd r)))
             (run (Scheduler_init ?ts ''RM'') (Some 20))
           = Inr [\<lparr>task_id = 2, job_id = 0, arrival_time = 0, absolute_deadline = 4,
                    remaining_time = 0, start_time = 2, finish_time = 7\<rparr>,
                  \<lparr>task_id = 2, job_id = 1, arrival_time = 10, absolute_deadline = 14,
                    remaining_time = 0, start_time = 10, finish_time = 15\<rparr>]"
    by code_simp
  from e r have f: "filter (\<lambda>j. task_id j = 2) jobs
           = [\<lparr>task_id = 2, job_id = 0, arrival_time = 0, absolute_deadline = 4,
                    remaining_time = 0, start_time = 2, finish_time = 7\<rparr>,
              \<lparr>task_id = 2, job_id = 1, arrival_time = 10, absolute_deadline = 14,
                    remaining_time = 0, start_time = 10, finish_time = 15\<rparr>]"
    by simp
  from st have "stats (id' task_b) = Some (observed_stats (filter (\<lambda>j. task_id j = id' task_b) jobs))"
    by simp
  then have "stats 2 = Some (observed_stats (filter (\<lambda>j. task_id j = 2) jobs))"
    by (simp add: task_b_def)
  then have "stats 2 = Some \<lparr>Sim_WCRT = 7, Sim_Avg_RT = 6, Missed = 2\<rparr>"
    unfolding f by (simp add: observed_stats_def)
  with r a show ?thesis by blast
qed


section \<open>Loading the task set\<close>

text \<open>
  An instance of the parameter \<open>parse\<close> for the examples: unsigned decimal numerals.  On
  the strings used below it agrees with Python's \<open>int\<close>: \<open>int("12")\<close> is 12, and
  \<open>int("x")\<close> raises \<open>ValueError\<close>.
\<close>

definition digit_of :: "char \<Rightarrow> int option" where
  "digit_of c = (if c \<in> set ''0123456789'' then Some (of_char c - 48) else None)"

fun parse_digits :: "string \<Rightarrow> int \<Rightarrow> int option" where
  "parse_digits [] acc = Some acc"
| "parse_digits (c # cs) acc =
     (case digit_of c of None \<Rightarrow> None | Some v \<Rightarrow> parse_digits cs (10 * acc + v))"

definition parse_decimal :: "string \<Rightarrow> int option" where
  "parse_decimal str = (if str = [] then None else parse_digits str 0)"

text \<open>
  Rows as \<open>csv.DictReader\<close> yields them for the header
  \<open>Task,BCET,WCET,Period,Deadline,Priority\<close>: the line \<open>1,1,2,5,5,1\<close>; the line
  \<open>2,1,x,7,7,2\<close>, whose WCET is not an integer; and the short line \<open>3,1\<close>, which stops
  before the WCET column, so that the reader fills the remaining columns with \<open>None\<close>.
\<close>

definition good_row :: csv_row where
  "good_row = map_of [(''Task'', Some ''1''), (''BCET'', Some ''1''), (''WCET'', Some ''2''),
                      (''Period'', Some ''5''), (''Deadline'', Some ''5''), (''Priority'', Some ''1'')]"

definition bad_value_row :: csv_row where
  "bad_value_row = map_of [(''Task'', Some ''2''), (''BCET'', Some ''1''), (''WCET'', Some ''x''),
                           (''Period'', Some ''7''), (''Deadline'', Some ''7''), (''Priority'', Some ''2'')]"

definition short_row :: csv_row where
  "short_row = map_of [(''Task'', Some ''3''), (''BCET'', Some ''1''), (''WCET'', None),
                       (''Period'', None), (''Deadline'', None), (''Priority'', None)]"

lemma parse_decimal_examples:
  "parse_decimal ''1'' = Some 1" "parse_decimal ''2'' = Some 2" "parse_decimal ''3'' = Some 3"
  "parse_decimal ''5'' = Some 5" "parse_decimal ''7'' = Some 7" "parse_decimal ''x'' = None"
  by (simp_all add: parse_decimal_def digit_of_def)

lemma task_of_row_good: "task_of_row parse_decimal good_row = Inl TypeError"
  by (simp add: task_of_row_def raise_or_def row_item_def row_get_def py_int_def Task_init_def
        good_row_def parse_decimal_examples)

lemma task_of_row_bad_value: "task_of_row parse_decimal bad_value_row = Inl ValueError"
  by (simp add: task_of_row_def raise_or_def row_item_def row_get_def py_int_def Task_init_def
        bad_value_row_def parse_decimal_examples)

lemma task_of_row_short: "task_of_row parse_decimal short_row = Inl TypeError"
  by (simp add: task_of_row_def raise_or_def row_item_def row_get_def py_int_def Task_init_def
        short_row_def parse_decimal_examples)

lemma row_get_Task:
  "row_get good_row ''Task'' = Some ''1''" "row_get bad_value_row ''Task'' = Some ''2''"
  "row_get short_row ''Task'' = Some ''3''"
  by (simp_all add: row_get_def good_row_def bad_value_row_def short_row_def)

text \<open>
  No row gets through the constructor: every call of \<open>Task\<close> in the loop leaves out
  \<open>name\<close>, so \<open>task_of_row\<close> never returns a task, and the loader never returns a
  task list that is not empty.
\<close>

lemma task_of_row_never_returns: "task_of_row parse row \<noteq> Inr t"
  by (auto simp: task_of_row_def raise_or_def Task_init_def split: sum.splits)

lemma load_rows_keeps_acc: "load_rows parse rows acc = Inr ts \<Longrightarrow> ts = acc"
proof (induction rows arbitrary: acc)
  case Nil
  then show ?case by simp
next
  case (Cons row rows)
  then show ?case using task_of_row_never_returns[of parse row]
    by (auto split: if_splits sum.splits)
qed

text \<open>
  C5.  The loader on malformed rows.  A row whose WCET is not an integer, read first,
  gives the empty list and the message for a bad value, as the claim says.  A short row,
  which lacks required columns, makes \<open>int(None)\<close> raise \<open>TypeError\<close>, which no
  \<open>except\<close> clause catches; and when a well-formed row precedes the malformed one, the
  constructor call for the well-formed row raises \<open>TypeError\<close> before the malformed row
  is reached.  In both cases the exception leaves the function.
\<close>

theorem load_tasks_malformed_rows:
  "load_tasks_from_csv parse_decimal (Rows [bad_value_row]) = Inr ([], [''Error parsing CSV value''])
   \<and> load_tasks_from_csv parse_decimal (Rows [short_row]) = Inl TypeError
   \<and> load_tasks_from_csv parse_decimal (Rows [good_row, bad_value_row]) = Inl TypeError"
  by (simp add: load_tasks_from_csv_def row_get_Task task_of_row_good task_of_row_bad_value
        task_of_row_short)


section \<open>Backlogs of a fixed-priority schedule\<close>

text \<open>
  The work pending at the start of each tick, as two sequences.  \<open>hp_backlog rel n\<close> is
  the work of the tasks above a given task that is pending at the start of tick \<open>n\<close>,
  when \<open>rel u\<close> is the work they release at tick \<open>u\<close> and one unit is served in every
  tick that has such work.  \<open>own_backlog relH relO n\<close> is the pending work of the task
  itself, served only in the ticks where no higher-priority work is pending.
\<close>

fun hp_backlog :: "(nat \<Rightarrow> int) \<Rightarrow> nat \<Rightarrow> int" where
  "hp_backlog rel 0 = 0"
| "hp_backlog rel (Suc n) =
     (if 0 < hp_backlog rel n + rel n then hp_backlog rel n + rel n - 1
      else hp_backlog rel n + rel n)"

fun own_backlog :: "(nat \<Rightarrow> int) \<Rightarrow> (nat \<Rightarrow> int) \<Rightarrow> nat \<Rightarrow> int" where
  "own_backlog relH relO 0 = 0"
| "own_backlog relH relO (Suc n) =
     (if hp_backlog relH n + relH n = 0 \<and> 0 < own_backlog relH relO n + relO n
      then own_backlog relH relO n + relO n - 1
      else own_backlog relH relO n + relO n)"

lemma hp_backlog_nonneg: "\<forall>u. 0 \<le> rel u \<Longrightarrow> 0 \<le> hp_backlog rel n"
  by (induction n) (auto simp: add_nonneg_nonneg)

lemma own_backlog_nonneg: "\<forall>u. 0 \<le> relO u \<Longrightarrow> 0 \<le> own_backlog relH relO n"
  by (induction n) (auto simp: add_nonneg_nonneg)

lemma hp_busy_sum:
  assumes "\<forall>u. s \<le> u \<and> u < e \<longrightarrow> 0 < hp_backlog rel (Suc u)" "s \<le> e"
  shows "hp_backlog rel e = hp_backlog rel s + sum rel {s..<e} - int (e - s)"
  using assms
proof (induction e)
  case 0
  then show ?case by simp
next
  case (Suc e)
  show ?case
  proof (cases "s = Suc e")
    case True
    then show ?thesis by simp
  next
    case False
    with Suc.prems have se: "s \<le> e" by simp
    have "\<forall>u. s \<le> u \<and> u < e \<longrightarrow> 0 < hp_backlog rel (Suc u)" using Suc.prems(1) by simp
    from Suc.IH[OF this se] have ih: "hp_backlog rel e = hp_backlog rel s + sum rel {s..<e} - int (e - s)" .
    have "0 < hp_backlog rel (Suc e)" using Suc.prems(1) se by simp
    then have "hp_backlog rel (Suc e) = hp_backlog rel e + rel e - 1"
      by (simp split: if_splits)
    with ih se show ?thesis by (simp add: Suc_diff_le)
  qed
qed

lemma last_idle_instant:
  assumes "\<forall>u. 0 \<le> rel u"
  shows "\<exists>s\<le>a. hp_backlog rel s = 0 \<and> (\<forall>u. s < u \<and> u \<le> a \<longrightarrow> 0 < hp_backlog rel u)"
proof (induction a)
  case 0
  show ?case by simp
next
  case (Suc a)
  show ?case
  proof (cases "hp_backlog rel (Suc a) = 0")
    case True
    then show ?thesis by (intro exI[of _ "Suc a"]) simp
  next
    case False
    with hp_backlog_nonneg[OF assms, of "Suc a"] have pos: "0 < hp_backlog rel (Suc a)" by simp
    from Suc obtain s where s: "s \<le> a" "hp_backlog rel s = 0"
      "\<forall>u. s < u \<and> u \<le> a \<longrightarrow> 0 < hp_backlog rel u" by blast
    have "\<forall>u. s < u \<and> u \<le> Suc a \<longrightarrow> 0 < hp_backlog rel u"
    proof (intro allI impI)
      fix u assume "s < u \<and> u \<le> Suc a"
      then consider "u \<le> a" "s < u" | "u = Suc a" by linarith
      then show "0 < hp_backlog rel u" using s(3) pos by cases auto
    qed
    with s show ?thesis by (intro exI[of _ s]) simp
  qed
qed

text \<open>The two backlogs together, over ticks in which one of them is served.\<close>

lemma total_busy_step:
  assumes "\<forall>u. 0 \<le> relH u" "\<forall>u. 0 \<le> relO u" "0 < own_backlog relH relO (Suc n)"
  shows "hp_backlog relH (Suc n) + own_backlog relH relO (Suc n) =
           hp_backlog relH n + own_backlog relH relO n + relH n + relO n - 1"
proof -
  have h: "0 \<le> hp_backlog relH n + relH n"
    using hp_backlog_nonneg[OF assms(1), of n] assms(1) by (simp add: add_nonneg_nonneg)
  have o: "0 < own_backlog relH relO n + relO n"
    using assms(3) by (simp split: if_splits)
  show ?thesis
  proof (cases "hp_backlog relH n + relH n = 0")
    case True
    with o show ?thesis by simp
  next
    case False
    with h have "0 < hp_backlog relH n + relH n" by simp
    then show ?thesis by simp
  qed
qed

lemma total_busy_sum:
  assumes "\<forall>u. 0 \<le> relH u" "\<forall>u. 0 \<le> relO u"
    and "\<forall>u. a \<le> u \<and> u < e \<longrightarrow> 0 < own_backlog relH relO (Suc u)" "a \<le> e"
  shows "hp_backlog relH e + own_backlog relH relO e =
           hp_backlog relH a + own_backlog relH relO a + sum relH {a..<e} + sum relO {a..<e} - int (e - a)"
  using assms(3,4)
proof (induction e)
  case 0
  then show ?case by simp
next
  case (Suc e)
  show ?case
  proof (cases "a = Suc e")
    case True
    then show ?thesis by simp
  next
    case False
    with Suc.prems have ae: "a \<le> e" by simp
    have "\<forall>u. a \<le> u \<and> u < e \<longrightarrow> 0 < own_backlog relH relO (Suc u)" using Suc.prems(1) by simp
    from Suc.IH[OF this ae] have ih: "hp_backlog relH e + own_backlog relH relO e =
           hp_backlog relH a + own_backlog relH relO a + sum relH {a..<e} + sum relO {a..<e} - int (e - a)" .
    have "0 < own_backlog relH relO (Suc e)" using Suc.prems(1) ae by simp
    from total_busy_step[OF assms(1,2) this] ih ae show ?thesis
      by (simp add: Suc_diff_le)
  qed
qed

lemma own_backlog_stays_zero:
  assumes "own_backlog relH relO u = 0" "\<forall>v. u \<le> v \<and> v < w \<longrightarrow> relO v = 0" "u \<le> w"
  shows "own_backlog relH relO w = 0"
  using assms(2,3)
proof (induction w)
  case 0
  with assms(1) show ?case by simp
next
  case (Suc w)
  show ?case
  proof (cases "u = Suc w")
    case True
    with assms(1) show ?thesis by simp
  next
    case False
    with Suc.prems have uw: "u \<le> w" by simp
    have "\<forall>v. u \<le> v \<and> v < w \<longrightarrow> relO v = 0" using Suc.prems(1) by simp
    from Suc.IH[OF this uw] have "own_backlog relH relO w = 0" .
    moreover have "relO w = 0" using Suc.prems(1) uw by simp
    ultimately show ?thesis by simp
  qed
qed


declare hp_backlog.simps(2) [simp del] own_backlog.simps(2) [simp del]

lemma not_dvd_between:
  fixes T :: nat
  assumes "T dvd a" "a < u" "u < a + T"
  shows "\<not> T dvd u"
proof
  assume "T dvd u"
  from \<open>T dvd u\<close> assms(1) have "T dvd (u - a)" by (rule dvd_diff_nat)
  moreover have "0 < u - a" "u - a < T" using assms(2,3) by simp_all
  ultimately show False using nat_dvd_not_less by blast
qed

text \<open>
  The busy-window argument.  The task releases \<open>C\<close> units at every multiple of its
  period \<open>T\<close>; in any window of \<open>R\<close> ticks the higher-priority tasks release at most
  \<open>R - C\<close> units; and \<open>R \<le> T\<close>.  If nothing of the task is pending at a release instant
  \<open>a\<close>, then nothing of it is pending \<open>R\<close> ticks later.
\<close>

lemma own_backlog_window:
  fixes T R :: nat and C :: int
  assumes relH: "\<forall>u. 0 \<le> relH u"
    and relO: "\<forall>u. relO u = (if T dvd u then C else 0)"
    and C: "0 < C" and R: "0 < R" "R \<le> T"
    and win: "\<forall>s. sum relH {s..<s + R} \<le> int R - C"
    and a: "T dvd a" "own_backlog relH relO a = 0"
  shows "own_backlog relH relO (a + R) = 0"
proof (rule ccontr)
  let ?H = "hp_backlog relH" and ?O = "own_backlog relH relO"
  assume "?O (a + R) \<noteq> 0"
  have relO0: "\<forall>u. 0 \<le> relO u" using relO C by simp
  have Hnn: "\<And>n. 0 \<le> ?H n" by (rule hp_backlog_nonneg[OF relH])
  have Onn: "\<And>n. 0 \<le> ?O n" by (rule own_backlog_nonneg[OF relO0])
  have quiet: "relO v = 0" if "a < v" "v < a + T" for v
    using not_dvd_between[OF a(1) that] relO by simp
  have F1: "0 < ?O e" if e: "a < e" "e \<le> a + R" for e
  proof (rule ccontr)
    assume "\<not> 0 < ?O e"
    with Onn[of e] have z: "?O e = 0" by simp
    have "\<forall>v. e \<le> v \<and> v < a + R \<longrightarrow> relO v = 0" using quiet e R(2) by simp
    from own_backlog_stays_zero[OF z this e(2)] \<open>?O (a + R) \<noteq> 0\<close> show False by simp
  qed
  from last_idle_instant[OF relH, of a] obtain s where s: "s \<le> a" "?H s = 0"
    "\<forall>u. s < u \<and> u \<le> a \<longrightarrow> 0 < ?H u" by blast
  show False
  proof (cases "s + R \<le> a")
    case True
    have "\<forall>u. s \<le> u \<and> u < s + R \<longrightarrow> 0 < ?H (Suc u)" using s(3) True by simp
    from hp_busy_sum[OF this] have "?H (s + R) = ?H s + sum relH {s..<s + R} - int R" by simp
    with s(2) win have "?H (s + R) \<le> - C" by (smt (verit, best))
    with C Hnn[of "s + R"] show False by simp
  next
    case False
    let ?e = "s + R"
    have e: "a < ?e" "?e \<le> a + R" using False s(1) by simp_all
    have "\<forall>u. s \<le> u \<and> u < a \<longrightarrow> 0 < ?H (Suc u)" using s(3) by simp
    from hp_busy_sum[OF this s(1)] s(2)
    have Ha: "?H a = sum relH {s..<a} - int (a - s)" by simp
    have "\<forall>u. a \<le> u \<and> u < ?e \<longrightarrow> 0 < ?O (Suc u)" using F1 e(2) by simp
    from total_busy_sum[OF relH relO0 this] e(1)
    have B: "?H ?e + ?O ?e = ?H a + ?O a + sum relH {a..<?e} + sum relO {a..<?e} - int (?e - a)"
      by simp
    have "sum relO {a..<?e} = relO a + sum relO {Suc a..<?e}"
      using e(1) by (simp add: sum.atLeast_Suc_lessThan)
    moreover have "sum relO {Suc a..<?e} = 0"
    proof (rule sum.neutral, rule ballI)
      fix v assume "v \<in> {Suc a..<?e}"
      then have "a < v" "v < a + T" using e(2) R(2) by simp_all
      then show "relO v = 0" by (rule quiet)
    qed
    moreover have "relO a = C" using relO a(1) by simp
    ultimately have sO: "sum relO {a..<?e} = C" by simp
    have "sum relH {s..<?e} = sum relH {s..<a} + sum relH {a..<?e}"
      using s(1) e(1) by (simp add: sum.atLeastLessThan_concat)
    with B Ha a(2) sO have "?H ?e + ?O ?e = sum relH {s..<?e} + C - int (a - s) - int (?e - a)"
      by simp
    moreover have "int (a - s) + int (?e - a) = int R" using s(1) e(1) by simp
    ultimately have "?H ?e + ?O ?e = sum relH {s..<?e} + C - int R" by simp
    with win have "?H ?e + ?O ?e \<le> 0" by (smt (verit, best))
    with Hnn[of ?e] F1[OF e] show False by simp
  qed
qed

lemma own_backlog_periodic:
  fixes T R :: nat and C :: int
  assumes relH: "\<forall>u. 0 \<le> relH u"
    and relO: "\<forall>u. relO u = (if T dvd u then C else 0)"
    and C: "0 < C" and R: "0 < R" "R \<le> T"
    and win: "\<forall>s. sum relH {s..<s + R} \<le> int R - C"
  shows "own_backlog relH relO (k * T) = 0 \<and> own_backlog relH relO (k * T + R) = 0"
proof (induction k)
  case 0
  have "own_backlog relH relO (0 + R) = 0"
    by (rule own_backlog_window[OF relH relO C R win]) simp_all
  then show ?case by simp
next
  case (Suc k)
  then have z: "own_backlog relH relO (k * T + R) = 0" by simp
  have "\<forall>v. k * T + R \<le> v \<and> v < Suc k * T \<longrightarrow> relO v = 0"
  proof (intro allI impI)
    fix v assume v: "k * T + R \<le> v \<and> v < Suc k * T"
    have "\<not> T dvd v"
      by (rule not_dvd_between[of T "k * T"]) (use v R in simp_all)
    with relO show "relO v = 0" by simp
  qed
  from own_backlog_stays_zero[OF z this] R have 1: "own_backlog relH relO (Suc k * T) = 0" by simp
  have "own_backlog relH relO (Suc k * T + R) = 0"
    by (rule own_backlog_window[OF relH relO C R win _ 1]) simp
  with 1 show ?case by simp
qed

text \<open>Work of the task is pending only strictly inside the first \<open>R\<close> ticks of a period.\<close>

lemma own_backlog_pending_window:
  fixes T R :: nat and C :: int
  assumes relH: "\<forall>u. 0 \<le> relH u"
    and relO: "\<forall>u. relO u = (if T dvd u then C else 0)"
    and C: "0 < C" and R: "0 < R" "R \<le> T"
    and win: "\<forall>s. sum relH {s..<s + R} \<le> int R - C"
    and pos: "own_backlog relH relO n \<noteq> 0"
  shows "0 < n mod T \<and> n mod T < R"
proof (rule ccontr)
  assume c: "\<not> (0 < n mod T \<and> n mod T < R)"
  let ?k = "n div T"
  have n: "n = ?k * T + n mod T" by simp
  from own_backlog_periodic[OF relH relO C R win, of ?k]
  have z: "own_backlog relH relO (?k * T) = 0" "own_backlog relH relO (?k * T + R) = 0" by simp_all
  show False
  proof (cases "n mod T = 0")
    case True
    with n have "n = ?k * T" by simp
    with z(1) pos show False by simp
  next
    case False
    with c have r: "R \<le> n mod T" by simp
    have T: "0 < T" using R by simp
    have "\<forall>v. ?k * T + R \<le> v \<and> v < n \<longrightarrow> relO v = 0"
    proof (intro allI impI)
      fix v assume v: "?k * T + R \<le> v \<and> v < n"
      have "v < ?k * T + T" using v n mod_less_divisor[OF T, of n] by linarith
      then have "\<not> T dvd v"
        by (intro not_dvd_between[of T "?k * T"]) (use v R in simp_all)
      with relO show "relO v = 0" by simp
    qed
    moreover have "?k * T + R \<le> n" using r n by linarith
    ultimately have "own_backlog relH relO n = 0" by (rule own_backlog_stays_zero[OF z(2)])
    with pos show False by simp
  qed
qed


section \<open>Releases in a window\<close>

text \<open>The ceiling of a quotient, as the analysis computes it, and the multiples of a period in a window.\<close>

lemma ceil_div_eq:
  fixes p :: int
  assumes "0 < p"
  shows "- ((- a) div p) = a div p + (if a mod p = 0 then 0 else 1)"
  using assms by (simp add: zdiv_zminus1_eq_if)

lemma div_succ_int:
  fixes p n :: int
  assumes "0 < p"
  shows "(n + 1) div p + (if (n + 1) mod p = 0 then 0 else 1) = n div p + 1"
proof -
  let ?q = "n div p" and ?r = "n mod p"
  have n: "p * ?q + ?r = n" by (rule mult_div_mod_eq)
  have r: "0 \<le> ?r" "?r < p" using assms by simp_all
  show ?thesis
  proof (cases "?r + 1 = p")
    case True
    have "p * (?q + 1) = p * ?q + p" by (rule distrib_left[of p ?q 1, simplified])
    with n True have e: "n + 1 = p * (?q + 1) + 0" by linarith
    have "(n + 1) div p = ?q + 1" by (rule int_div_pos_eq[OF e]) (use assms in simp_all)
    moreover have "(n + 1) mod p = 0" by (rule int_mod_pos_eq[OF e]) (use assms in simp_all)
    ultimately show ?thesis by simp
  next
    case False
    with r have lt: "?r + 1 < p" by simp
    from n have e: "n + 1 = p * ?q + (?r + 1)" by linarith
    have "(n + 1) div p = ?q" by (rule int_div_pos_eq[OF e]) (use r lt in simp_all)
    moreover have "(n + 1) mod p = ?r + 1" by (rule int_mod_pos_eq[OF e]) (use r lt in simp_all)
    ultimately show ?thesis using r by simp
  qed
qed

lemma ceil_div_succ:
  fixes p n :: int
  assumes "0 < p"
  shows "- ((- (n + 1)) div p) = - ((- n) div p) + (if n mod p = 0 then 1 else 0)"
  unfolding ceil_div_eq[OF assms] using div_succ_int[OF assms, of n] by simp

lemma floor_div_superadd:
  fixes p :: int
  assumes "0 < p"
  shows "a div p + b div p \<le> (a + b) div p"
proof -
  have "0 \<le> (a mod p + b mod p) div p"
    using assms by (simp add: pos_imp_zdiv_nonneg_iff)
  moreover have "(a + b) div p = a div p + b div p + (a mod p + b mod p) div p"
    by (rule div_add1_eq)
  ultimately show ?thesis by linarith
qed

lemma ceil_div_subadd:
  fixes p :: int
  assumes "0 < p"
  shows "- ((- (a + b)) div p) \<le> - ((- a) div p) + - ((- b) div p)"
  using floor_div_superadd[OF assms, of "- a" "- b"] by simp

text \<open>The number of multiples of \<open>p\<close> below \<open>n\<close>.\<close>

lemma multiples_below:
  fixes p :: int
  assumes "0 < p"
  shows "(\<Sum>u = 0..<n. if int u mod p = 0 then 1 else 0) = - ((- int n) div p)"
proof (induction n)
  case 0
  show ?case by simp
next
  case (Suc n)
  have "- ((- int (Suc n)) div p) = - ((- (int n + 1)) div p)" by (simp add: add.commute)
  also have "\<dots> = - ((- int n) div p) + (if int n mod p = 0 then 1 else 0)"
    by (rule ceil_div_succ[OF assms])
  finally show ?case using Suc by simp
qed

lemma multiples_window:
  fixes p :: int
  assumes "0 < p"
  shows "(\<Sum>u = s..<s + L. if int u mod p = 0 then 1 else 0) \<le> - ((- int L) div p)"
proof -
  let ?f = "\<lambda>u::nat. if int u mod p = 0 then (1::int) else 0"
  have "sum ?f {0..<s + L} = sum ?f {0..<s} + sum ?f {s..<s + L}"
    by (simp add: sum.atLeastLessThan_concat)
  then have "sum ?f {s..<s + L} = - ((- int (s + L)) div p) - - ((- int s) div p)"
    unfolding multiples_below[OF assms] by simp
  also have "\<dots> \<le> - ((- int L) div p)"
    using ceil_div_subadd[OF assms, of "int s" "int L"] by simp
  finally show ?thesis .
qed

lemma release_window:
  fixes p c :: int
  assumes "0 < p" "0 \<le> c"
  shows "(\<Sum>u = s..<s + L. if int u mod p = 0 then c else 0) \<le> - ((- int L) div p) * c"
proof -
  have "(\<Sum>u = s..<s + L. if int u mod p = 0 then c else 0)
          = (\<Sum>u = s..<s + L. if int u mod p = 0 then 1 else 0) * c"
    by (simp add: sum_distrib_right if_distrib[of "\<lambda>x. x * c"] cong: if_cong)
  also have "\<dots> \<le> - ((- int L) div p) * c"
    by (rule mult_right_mono[OF multiples_window[OF assms(1)] assms(2)])
  finally show ?thesis .
qed


section \<open>Pending work in the scheduler\<close>

text \<open>The remaining time of the ready jobs whose task id satisfies \<open>P\<close>.\<close>

definition job_work :: "(int \<Rightarrow> bool) \<Rightarrow> Job \<Rightarrow> int" where
  "job_work P j = (if P (task_id j) then remaining_time j else 0)"

definition pend :: "(int \<Rightarrow> bool) \<Rightarrow> Scheduler \<Rightarrow> int" where
  "pend P s = (\<Sum>a\<leftarrow>ready_queue s. job_work P (objects s ! a))"

text \<open>The work that the tasks with an id in \<open>P\<close> release at tick \<open>t\<close>.\<close>

definition released_work :: "(int \<Rightarrow> bool) \<Rightarrow> Task list \<Rightarrow> int \<Rightarrow> int" where
  "released_work P ts t =
     (\<Sum>task\<leftarrow>ts. if t mod period task = 0 \<and> P (id' task) then wcet task else 0)"

lemma map_nth_append_new:
  "map (\<lambda>i. (xs @ ys) ! i) [length xs..<length xs + length ys] = ys"
  by (rule nth_equalityI) (simp_all add: nth_append)

lemma releases_work:
  "(\<Sum>j\<leftarrow>releases ts t. job_work P j) = released_work P ts t"
  unfolding releases_def released_work_def
  by (induction ts) (simp_all add: new_job_def job_work_def)

lemma pend_released:
  assumes "\<forall>a\<in>set (ready_queue s). a < length (objects s)"
  shows "pend P (released t s) = pend P s + released_work P (tasks s) t"
proof -
  let ?f = "job_work P"
  let ?objs = "objects s @ releases (tasks s) t"
  have old: "map (\<lambda>a. ?f (?objs ! a)) (ready_queue s) = map (\<lambda>a. ?f (objects s ! a)) (ready_queue s)"
    using assms by (intro map_cong) (simp_all add: nth_append)
  have "map (\<lambda>a. ?f (?objs ! a)) [length (objects s)..<length (objects s) + length (releases (tasks s) t)]
          = map ?f (map (\<lambda>i. ?objs ! i) [length (objects s)..<length (objects s) + length (releases (tasks s) t)])"
    by (simp add: comp_def)
  also have "\<dots> = map ?f (releases (tasks s) t)" by (simp only: map_nth_append_new)
  finally have new: "map (\<lambda>a. ?f (?objs ! a)) [length (objects s)..<length (objects s) + length (releases (tasks s) t)]
          = map ?f (releases (tasks s) t)" .
  have "pend P (released t s) = sum_list (map (\<lambda>a. ?f (?objs ! a)) (ready_queue s))
          + sum_list (map (\<lambda>a. ?f (?objs ! a)) [length (objects s)..<length (objects s) + length (releases (tasks s) t)])"
    by (simp add: pend_def)
  also have "\<dots> = pend P s + released_work P (tasks s) t"
    unfolding old new releases_work by (simp add: pend_def)
  finally show ?thesis .
qed

lemma sum_list_map_cong:
  fixes f g :: "'a \<Rightarrow> int"
  shows "(\<And>x. x \<in> set xs \<Longrightarrow> f x = g x) \<Longrightarrow> sum_list (map f xs) = sum_list (map g xs)"
  by (induction xs) auto

lemma in_remove1D: "x \<in> set (remove1 y xs) \<Longrightarrow> x \<in> set xs"
  using notin_set_remove1 by fastforce

lemma sum_list_change_one:
  fixes f g :: "'a \<Rightarrow> int"
  assumes "a \<in> set xs" "distinct xs" "\<And>x. x \<in> set xs \<Longrightarrow> x \<noteq> a \<Longrightarrow> g x = f x"
  shows "sum_list (map g xs) = sum_list (map f xs) - f a + g a"
proof -
  have r: "sum_list (map g (remove1 a xs)) = sum_list (map f (remove1 a xs))"
  proof (rule sum_list_map_cong)
    fix x assume x: "x \<in> set (remove1 a xs)"
    with assms(2) have "x \<noteq> a" by auto
    with in_remove1D[OF x] show "g x = f x" by (rule assms(3))
  qed
  have "sum_list (map g xs) = g a + sum_list (map g (remove1 a xs))"
    by (rule sum_list_map_remove1[OF assms(1)])
  moreover have "sum_list (map f xs) = f a + sum_list (map f (remove1 a xs))"
    by (rule sum_list_map_remove1[OF assms(1)])
  ultimately show ?thesis using r by simp
qed

lemma pend_tick_result:
  assumes "distinct (ready_queue s)" "\<forall>a\<in>set (ready_queue s). a < length (objects s)"
    and "\<forall>a. nj = Some a \<longrightarrow> a \<in> set (ready_queue s)"
  shows "pend P (fst (tick_result t nj s)) =
           pend P s - (case nj of None \<Rightarrow> 0
                       | Some a \<Rightarrow> if P (task_id (objects s ! a)) then 1 else 0)"
proof (cases nj)
  case None
  then show ?thesis by (simp add: tick_result_None pend_def)
next
  case (Some a)
  with assms(3) have a: "a \<in> set (ready_queue s)" by simp
  with assms(2) have al: "a < length (objects s)" by simp
  let ?s2 = "fst (tick_result t (Some a) s)"
  let ?f = "\<lambda>x. job_work P (objects s ! x)"
  let ?g = "\<lambda>x. job_work P (objects ?s2 ! x)"
  let ?d = "if P (task_id (objects s ! a)) then 1 else 0 :: int"
  have nj': "\<forall>b. Some a = Some b \<longrightarrow> b < length (objects s)" using al by simp
  have nth: "objects ?s2 ! x = (if x = a then executed_job t (objects s ! a) else objects s ! x)"
    if "x < length (objects s)" for x
    using tick_result_nth[OF nj' that, of t] by auto
  have other: "?g x = ?f x" if "x \<in> set (ready_queue s)" "x \<noteq> a" for x
    using that assms(2) nth[of x] by simp
  have ga: "?g a = ?f a - ?d" using nth[OF al] by (simp add: job_work_def)
  show ?thesis
  proof (cases "remaining_time (objects s ! a) = 1")
    case True
    have rq: "ready_queue ?s2 = remove1 a (ready_queue s)"
      using tick_result_ready_queue[OF nj', of t] True by simp
    have "sum_list (map ?g (remove1 a (ready_queue s))) = sum_list (map ?f (remove1 a (ready_queue s)))"
    proof (rule sum_list_map_cong)
      fix x assume x: "x \<in> set (remove1 a (ready_queue s))"
      with assms(1) have "x \<noteq> a" by auto
      with in_remove1D[OF x] show "?g x = ?f x" by (rule other)
    qed
    then have "pend P ?s2 = sum_list (map ?f (remove1 a (ready_queue s)))"
      unfolding pend_def rq .
    moreover have "sum_list (map ?f (ready_queue s)) = ?f a + sum_list (map ?f (remove1 a (ready_queue s)))"
      by (rule sum_list_map_remove1[OF a])
    moreover have "?f a = ?d" using True by (simp add: job_work_def)
    ultimately show ?thesis using Some by (simp add: pend_def)
  next
    case False
    have rq: "ready_queue ?s2 = ready_queue s"
      using tick_result_ready_queue[OF nj', of t] False by simp
    have "sum_list (map ?g (ready_queue s)) = sum_list (map ?f (ready_queue s)) - ?f a + ?g a"
      by (rule sum_list_change_one[OF a assms(1)]) (rule other)
    with ga have "pend P ?s2 = pend P s - ?d" unfolding pend_def rq by simp
    then show ?thesis using Some by simp
  qed
qed

lemma pend_pos_job:
  assumes "0 < pend P s"
  shows "\<exists>b\<in>set (ready_queue s). P (task_id (objects s ! b))"
proof (rule ccontr)
  assume "\<not> ?thesis"
  then have "sum_list (map (\<lambda>a. job_work P (objects s ! a)) (ready_queue s))
      = sum_list (map (\<lambda>a. 0) (ready_queue s))"
    by (intro sum_list_map_cong) (auto simp: job_work_def)
  then have "pend P s = 0" by (simp add: pend_def)
  with assms show False by simp
qed

lemma pend_nonneg:
  assumes "\<forall>a\<in>set (ready_queue s). 0 < remaining_time (objects s ! a)"
  shows "0 \<le> pend P s"
  unfolding pend_def using assms by (intro sum_list_nonneg) (auto simp: job_work_def)

lemma pend_zero_no_job:
  assumes "\<forall>a\<in>set (ready_queue s). 0 < remaining_time (objects s ! a)" "pend P s = 0"
    and "b \<in> set (ready_queue s)"
  shows "\<not> P (task_id (objects s ! b))"
proof
  assume P: "P (task_id (objects s ! b))"
  let ?f = "\<lambda>a. job_work P (objects s ! a)"
  have "sum_list (map ?f (ready_queue s)) = ?f b + sum_list (map ?f (remove1 b (ready_queue s)))"
    by (rule sum_list_map_remove1[OF assms(3)])
  moreover have "0 \<le> sum_list (map ?f (remove1 b (ready_queue s)))"
    using assms(1) by (intro sum_list_nonneg) (auto simp: job_work_def less_imp_le dest!: in_remove1D)
  moreover have "0 < ?f b" using P assms(1,3) by (simp add: job_work_def)
  ultimately have "0 < pend P s" by (simp add: pend_def)
  with assms(2) show False by simp
qed


section \<open>Fixed-priority runs\<close>

text \<open>
  The setting of the response-time bound: a scheduler under RM or DM whose tasks have
  positive periods and execution times, pairwise distinct ids and pairwise distinct
  priority values, and one of its tasks.
\<close>

definition fp_setting :: "Task list \<Rightarrow> string \<Rightarrow> Task \<Rightarrow> bool" where
  "fp_setting TS alg tau =
     (alg \<in> {''RM'', ''DM''} \<and> (\<forall>t\<in>set TS. 0 < period t \<and> 0 < wcet t)
      \<and> distinct (map id' TS) \<and> distinct (map priority TS) \<and> tau \<in> set TS)"

text \<open>The ids of the tasks with a priority value below that of \<open>tau\<close>.\<close>

definition hp_id :: "Task list \<Rightarrow> Task \<Rightarrow> int \<Rightarrow> bool" where
  "hp_id TS tau i = (\<exists>h\<in>set TS. id' h = i \<and> priority h < priority tau)"

lemma get_task_distinct:
  assumes "distinct (map id' TS)" "t \<in> set TS"
  shows "get_task TS (id' t) = Inr t"
  using assms by (induction TS) (auto simp: image_iff)

lemma ready_job_task:
  assumes "fp_setting TS alg tau" "tasks s1 = TS" "algorithm s1 = alg"
    and "task_id (objects s1 ! b) \<in> id' ` set TS"
  shows "\<exists>t\<in>set TS. id' t = task_id (objects s1 ! b) \<and> sched_key s1 b = priority t"
proof -
  from assms(4) obtain t where t: "t \<in> set TS" "id' t = task_id (objects s1 ! b)" by auto
  have d: "distinct (map id' TS)" using assms(1) by (simp add: fp_setting_def)
  have "get_task TS (task_id (objects s1 ! b)) = Inr t"
    using get_task_distinct[OF d t(1)] t(2) by simp
  moreover have "algorithm s1 \<noteq> ''EDF''" using assms(1,3) by (auto simp: fp_setting_def)
  ultimately have "sched_key s1 b = priority t"
    using assms(2) by (simp add: sched_key_def task_priority_def)
  with t show ?thesis by blast
qed

lemma distinct_map_eq:
  assumes "distinct (map f xs)" "x \<in> set xs" "y \<in> set xs" "f x = f y"
  shows "x = y"
  using assms by (meson distinct_map inj_onD)

lemma ready_job_hp_iff:
  assumes "fp_setting TS alg tau" "tasks s1 = TS" "algorithm s1 = alg"
    and "task_id (objects s1 ! b) \<in> id' ` set TS"
  shows "hp_id TS tau (task_id (objects s1 ! b)) \<longleftrightarrow> sched_key s1 b < priority tau"
    and "task_id (objects s1 ! b) = id' tau \<longleftrightarrow> sched_key s1 b = priority tau"
proof -
  from ready_job_task[OF assms] obtain t where t: "t \<in> set TS" "id' t = task_id (objects s1 ! b)"
    "sched_key s1 b = priority t" by blast
  have d: "distinct (map id' TS)" and dp: "distinct (map priority TS)" and tau: "tau \<in> set TS"
    using assms(1) by (simp_all add: fp_setting_def)
  show "hp_id TS tau (task_id (objects s1 ! b)) \<longleftrightarrow> sched_key s1 b < priority tau"
  proof
    assume "hp_id TS tau (task_id (objects s1 ! b))"
    then obtain h where h: "h \<in> set TS" "id' h = task_id (objects s1 ! b)" "priority h < priority tau"
      unfolding hp_id_def by blast
    have "h = t" by (rule distinct_map_eq[OF d h(1) t(1)]) (use h(2) t(2) in simp)
    with h(3) t(3) show "sched_key s1 b < priority tau" by simp
  next
    assume "sched_key s1 b < priority tau"
    with t show "hp_id TS tau (task_id (objects s1 ! b))" unfolding hp_id_def by auto
  qed
  show "task_id (objects s1 ! b) = id' tau \<longleftrightarrow> sched_key s1 b = priority tau"
  proof
    assume "task_id (objects s1 ! b) = id' tau"
    then have "t = tau" using distinct_map_eq[OF d t(1) tau] t(2) by simp
    with t(3) show "sched_key s1 b = priority tau" by simp
  next
    assume "sched_key s1 b = priority tau"
    then have "t = tau" using distinct_map_eq[OF dp t(1) tau] t(3) by simp
    with t(2) show "task_id (objects s1 ! b) = id' tau" by simp
  qed
qed

lemma pend_pos_iff:
  assumes "\<forall>a\<in>set (ready_queue s). 0 < remaining_time (objects s ! a)"
  shows "0 < pend P s \<longleftrightarrow> (\<exists>b\<in>set (ready_queue s). P (task_id (objects s ! b)))"
proof
  assume "0 < pend P s"
  then show "\<exists>b\<in>set (ready_queue s). P (task_id (objects s ! b))" by (rule pend_pos_job)
next
  assume "\<exists>b\<in>set (ready_queue s). P (task_id (objects s ! b))"
  then obtain b where b: "b \<in> set (ready_queue s)" "P (task_id (objects s ! b))" by blast
  have "pend P s \<noteq> 0" using pend_zero_no_job[OF assms _ b(1), of P] b(2) by blast
  with pend_nonneg[OF assms, of P] show "0 < pend P s" by simp
qed

text \<open>
  Who runs: a job of a higher-priority task whenever one is ready; otherwise a job of
  \<open>tau\<close> whenever one is ready.
\<close>

lemma fp_decision:
  assumes fp: "fp_setting TS alg tau" and s1: "tasks s1 = TS" "algorithm s1 = alg"
    and ids: "\<forall>b\<in>set (ready_queue s1). task_id (objects s1 ! b) \<in> id' ` set TS"
    and pos: "\<forall>b\<in>set (ready_queue s1). 0 < remaining_time (objects s1 ! b)"
    and g: "get_active_job s1 = Inr nj"
  shows "(case nj of None \<Rightarrow> 0 | Some a \<Rightarrow> if hp_id TS tau (task_id (objects s1 ! a)) then 1 else 0)
           = (if 0 < pend (hp_id TS tau) s1 then 1 else (0::int))
       \<and> (case nj of None \<Rightarrow> 0 | Some a \<Rightarrow> if task_id (objects s1 ! a) = id' tau then 1 else 0)
           = (if pend (hp_id TS tau) s1 = 0 \<and> 0 < pend (\<lambda>i. i = id' tau) s1 then 1 else (0::int))"
proof -
  let ?hp = "hp_id TS tau" and ?own = "\<lambda>i. i = id' tau"
  have hpi: "0 < pend ?hp s1 \<longleftrightarrow> (\<exists>b\<in>set (ready_queue s1). sched_key s1 b < priority tau)"
    unfolding pend_pos_iff[OF pos] using ready_job_hp_iff(1)[OF fp s1] ids by blast
  have owni: "0 < pend ?own s1 \<longleftrightarrow> (\<exists>b\<in>set (ready_queue s1). sched_key s1 b = priority tau)"
    unfolding pend_pos_iff[OF pos] using ready_job_hp_iff(2)[OF fp s1] ids by blast
  have hp0: "pend ?hp s1 = 0 \<longleftrightarrow> \<not> 0 < pend ?hp s1" using pend_nonneg[OF pos, of ?hp] by auto
  show ?thesis
  proof (cases "ready_queue s1 = []")
    case True
    from get_active_job_idle[of s1] True g have "nj = None" by simp
    moreover have "pend ?hp s1 = 0" "pend ?own s1 = 0" using True by (simp_all add: pend_def)
    ultimately show ?thesis by simp
  next
    case False
    have alg: "algorithm s1 \<in> {''RM'', ''DM'', ''EDF''}" using fp s1(2) by (auto simp: fp_setting_def)
    have ids': "\<forall>a\<in>set (ready_queue s1). task_id (objects s1 ! a) \<in> id' ` set (tasks s1)"
      using ids s1(1) by simp
    from get_active_job_first_min[OF False alg ids'] g obtain a where
      a: "nj = Some a" "first_min (sched_key s1) (ready_queue s1) a" by auto
    from first_min_mem[OF a(2)] have am: "a \<in> set (ready_queue s1)"
      and amin: "\<forall>x\<in>set (ready_queue s1). sched_key s1 a \<le> sched_key s1 x" by simp_all
    have ida: "task_id (objects s1 ! a) \<in> id' ` set TS" using ids am by simp
    note ka = ready_job_hp_iff[OF fp s1 ida]
    have 1: "?hp (task_id (objects s1 ! a)) \<longleftrightarrow> 0 < pend ?hp s1"
      unfolding ka(1) hpi using am amin by force
    have 2: "task_id (objects s1 ! a) = id' tau \<longleftrightarrow> pend ?hp s1 = 0 \<and> 0 < pend ?own s1"
      unfolding ka(2) hp0 hpi owni using am amin by force
    show ?thesis using a(1) 1 2 by simp
  qed
qed


lemma releases_remaining_pos:
  assumes "\<forall>t\<in>set ts. 0 < wcet t" "i < length (releases ts t0)"
  shows "0 < remaining_time (releases ts t0 ! i)"
proof -
  from assms(2) have "releases ts t0 ! i \<in> set (releases ts t0)" by simp
  then obtain task where "task \<in> set ts" "releases ts t0 ! i = new_job task t0"
    by (auto simp: releases_def)
  with assms(1) show ?thesis by (simp add: new_job_def)
qed

lemma fp_setting_periods:
  assumes "fp_setting TS alg tau" "TS = tasks (Scheduler_init ts alg)"
  shows "\<forall>task\<in>set ts. period task \<noteq> 0"
proof
  fix task assume "task \<in> set ts"
  then have "period task \<in> period ` set TS" using assms(2) Scheduler_init_periods by blast
  then obtain t where "t \<in> set TS" "period t = period task" by auto
  with assms(1) show "period task \<noteq> 0" by (auto simp: fp_setting_def)
qed

text \<open>
  The pending work of the higher-priority tasks and of the task itself, at the start of
  each tick of the run, are the two backlog sequences.
\<close>

lemma fp_backlogs:
  assumes fp: "fp_setting TS alg tau" and TS: "TS = tasks (Scheduler_init ts alg)"
  shows "\<exists>s cur. state_after ts alg n = Inr (s, cur)
     \<and> (\<forall>a\<in>set (ready_queue s). 0 < remaining_time (objects s ! a))
     \<and> pend (hp_id TS tau) s = hp_backlog (\<lambda>u. released_work (hp_id TS tau) TS (int u)) n
     \<and> pend (\<lambda>i. i = id' tau) s =
         own_backlog (\<lambda>u. released_work (hp_id TS tau) TS (int u))
           (\<lambda>u. released_work (\<lambda>i. i = id' tau) TS (int u)) n"
proof (induction n)
  case 0
  have "ready_queue (Scheduler_init ts alg) = []" by (simp add: Scheduler_init_def)
  then show ?case by (simp add: state_after_0 pend_def)
next
  case (Suc n)
  let ?hp = "hp_id TS tau" and ?own = "\<lambda>i. i = id' tau"
  let ?relH = "\<lambda>u. released_work ?hp TS (int u)" and ?relO = "\<lambda>u. released_work ?own TS (int u)"
  note per = fp_setting_periods[OF fp TS]
  from state_after_step[OF per, of alg n] obtain s cur nj where
    s: "state_after ts alg n = Inr (s, cur)" and inv: "sched_inv (int n) (s, cur)"
    and ts: "tasks s = tasks (Scheduler_init ts alg)" and alg: "algorithm s = alg"
    and inv1: "sched_inv (int n) (released (int n) s, cur)"
    and g: "get_active_job (released (int n) s) = Inr nj"
    and nj: "\<forall>a. nj = Some a \<longrightarrow> a \<in> set (ready_queue (released (int n) s))
               \<and> a < length (objects (released (int n) s))"
    and st: "state_after ts alg (Suc n) = Inr (tick_result (int n) nj (released (int n) s))"
    by blast
  let ?s1 = "released (int n) s"
  let ?s2 = "fst (tick_result (int n) nj ?s1)" and ?c2 = "snd (tick_result (int n) nj ?s1)"
  from Suc s have pos: "\<forall>a\<in>set (ready_queue s). 0 < remaining_time (objects s ! a)"
    and H: "pend ?hp s = hp_backlog ?relH n"
    and O: "pend ?own s = own_backlog ?relH ?relO n" by auto
  note D = sched_invD[OF inv] and D1 = sched_invD[OF inv1]
  have wc: "\<forall>t\<in>set (tasks s). 0 < wcet t" using fp ts TS by (simp add: fp_setting_def)
  have pos1: "\<forall>a\<in>set (ready_queue ?s1). 0 < remaining_time (objects ?s1 ! a)"
  proof
    fix a assume "a \<in> set (ready_queue ?s1)"
    then consider "a \<in> set (ready_queue s)"
      | "length (objects s) \<le> a" "a < length (objects s) + length (releases (tasks s) (int n))"
      by auto
    then show "0 < remaining_time (objects ?s1 ! a)"
    proof cases
      case 1
      with pos D(2)[OF 1] show ?thesis by (simp add: nth_append)
    next
      case 2
      then have "a - length (objects s) < length (releases (tasks s) (int n))" by simp
      from releases_remaining_pos[OF wc this] 2 show ?thesis by (simp add: nth_append)
    qed
  qed
  have rq: "\<forall>a\<in>set (ready_queue s). a < length (objects s)" using D(2) by blast
  have rq1: "\<forall>a\<in>set (ready_queue ?s1). a < length (objects ?s1)" using D1(2) by blast
  have nj1: "\<forall>a. nj = Some a \<longrightarrow> a \<in> set (ready_queue ?s1)" using nj by blast
  have nj2: "\<forall>a. nj = Some a \<longrightarrow> a < length (objects ?s1)" using nj by blast
  have ids1: "\<forall>b\<in>set (ready_queue ?s1). task_id (objects ?s1 ! b) \<in> id' ` set TS"
    using D1(4) ts TS by simp
  have ts1: "tasks ?s1 = TS" "algorithm ?s1 = alg" using ts TS alg by simp_all
  note dec = fp_decision[OF fp ts1 ids1 pos1 g]
  have tss: "tasks s = TS" using ts TS by simp
  have H1: "pend ?hp ?s1 = hp_backlog ?relH n + ?relH n"
    using pend_released[OF rq, of ?hp "int n"] H tss by simp
  have O1: "pend ?own ?s1 = own_backlog ?relH ?relO n + ?relO n"
    using pend_released[OF rq, of ?own "int n"] O tss by simp
  have H2: "pend ?hp ?s2 = hp_backlog ?relH (Suc n)"
    using pend_tick_result[OF D1(1) rq1 nj1, of ?hp "int n"] dec H1
    by (simp add: hp_backlog.simps(2))
  have O2: "pend ?own ?s2 = own_backlog ?relH ?relO (Suc n)"
    using pend_tick_result[OF D1(1) rq1 nj1, of ?own "int n"] dec H1 O1
    by (simp add: own_backlog.simps(2))
  have pos2: "\<forall>a\<in>set (ready_queue ?s2). 0 < remaining_time (objects ?s2 ! a)"
  proof
    fix a assume a: "a \<in> set (ready_queue ?s2)"
    have a1: "a \<in> set (ready_queue ?s1)"
      using a tick_result_ready_queue[OF nj2, of "int n"]
      by (cases nj) (auto split: if_splits dest: in_remove1D)
    show "0 < remaining_time (objects ?s2 ! a)"
    proof (cases "nj = Some a")
      case True
      have "remaining_time (objects ?s1 ! a) \<noteq> 1"
      proof
        assume "remaining_time (objects ?s1 ! a) = 1"
        with True tick_result_ready_queue[OF nj2, of "int n"]
        have "ready_queue ?s2 = remove1 a (ready_queue ?s1)" by simp
        with a D1(1) show False by simp
      qed
      moreover have "0 < remaining_time (objects ?s1 ! a)" using pos1 a1 by blast
      ultimately show ?thesis using tick_result_nth[OF nj2 rq1[rule_format, OF a1], of "int n"] True
        by simp
    next
      case False
      then show ?thesis using tick_result_nth[OF nj2 rq1[rule_format, OF a1], of "int n"] pos1 a1
        by simp
    qed
  qed
  have "state_after ts alg (Suc n) = Inr (?s2, ?c2)" using st by simp
  with pos2 H2 O2 show ?case by blast
qed


lemma released_work_nonneg:
  assumes "\<forall>t\<in>set TS. 0 < wcet t"
  shows "0 \<le> released_work P TS t"
  unfolding released_work_def using assms by (intro sum_list_nonneg) (auto simp: less_imp_le)

lemma sum_list_indicator_absent:
  fixes c :: int
  shows "a \<notin> set xs \<Longrightarrow> (\<Sum>x\<leftarrow>xs. if x = a then c else 0) = 0"
  by (induction xs) auto

lemma sum_list_indicator:
  fixes c :: int
  assumes "distinct xs" "a \<in> set xs"
  shows "(\<Sum>x\<leftarrow>xs. if x = a then c else 0) = c"
  using assms by (induction xs) (auto simp: sum_list_indicator_absent)

lemma released_work_own:
  assumes "distinct (map id' TS)" "tau \<in> set TS"
  shows "released_work (\<lambda>i. i = id' tau) TS t = (if t mod period tau = 0 then wcet tau else 0)"
proof -
  have d: "distinct TS" using assms(1) by (simp add: distinct_map)
  have "released_work (\<lambda>i. i = id' tau) TS t
          = (\<Sum>x\<leftarrow>TS. if x = tau then (if t mod period tau = 0 then wcet tau else 0) else 0)"
    unfolding released_work_def
  proof (rule sum_list_map_cong)
    fix x assume x: "x \<in> set TS"
    have "id' x = id' tau \<longleftrightarrow> x = tau" using distinct_map_eq[OF assms(1) x assms(2)] by auto
    then show "(if t mod period x = 0 \<and> id' x = id' tau then wcet x else 0)
       = (if x = tau then (if t mod period tau = 0 then wcet tau else 0) else 0)" by auto
  qed
  also have "\<dots> = (if t mod period tau = 0 then wcet tau else 0)"
    by (rule sum_list_indicator[OF d assms(2)])
  finally show ?thesis .
qed

lemma hp_id_iff:
  assumes "distinct (map id' TS)" "t \<in> set TS"
  shows "hp_id TS tau (id' t) \<longleftrightarrow> priority t < priority tau"
proof
  assume "hp_id TS tau (id' t)"
  then obtain h where h: "h \<in> set TS" "id' h = id' t" "priority h < priority tau"
    unfolding hp_id_def by blast
  from distinct_map_eq[OF assms(1) h(1) assms(2) h(2)] h(3) show "priority t < priority tau" by simp
next
  assume "priority t < priority tau"
  with assms(2) show "hp_id TS tau (id' t)" unfolding hp_id_def by blast
qed

lemma released_work_hp:
  assumes "distinct (map id' TS)"
  shows "released_work (hp_id TS tau) TS t
           = (\<Sum>h\<leftarrow>filter (\<lambda>h. priority h < priority tau) TS. if t mod period h = 0 then wcet h else 0)"
proof -
  have "released_work (hp_id TS tau) TS t
     = (\<Sum>x\<leftarrow>TS. if priority x < priority tau then (if t mod period x = 0 then wcet x else 0) else 0)"
    unfolding released_work_def
  proof (rule sum_list_map_cong)
    fix x assume "x \<in> set TS"
    from hp_id_iff[OF assms this, of tau]
    show "(if t mod period x = 0 \<and> hp_id TS tau (id' x) then wcet x else 0)
        = (if priority x < priority tau then (if t mod period x = 0 then wcet x else 0) else 0)"
      by auto
  qed
  then show ?thesis by (simp only: sum_list_map_filter')
qed

lemma window_bound_list:
  assumes "\<forall>h\<in>set hs. 0 < period h \<and> 0 \<le> wcet h"
  shows "(\<Sum>u = s..<s + L. \<Sum>h\<leftarrow>hs. if int u mod period h = 0 then wcet h else 0)
           \<le> (\<Sum>h\<leftarrow>hs. (- ((- int L) div period h)) * wcet h)"
  using assms
proof (induction hs)
  case Nil
  show ?case by simp
next
  case (Cons h hs)
  have "(\<Sum>u = s..<s + L. \<Sum>x\<leftarrow>h # hs. if int u mod period x = 0 then wcet x else 0)
      = (\<Sum>u = s..<s + L. if int u mod period h = 0 then wcet h else 0)
        + (\<Sum>u = s..<s + L. \<Sum>x\<leftarrow>hs. if int u mod period x = 0 then wcet x else 0)"
    by (simp add: sum.distrib)
  moreover have "(\<Sum>u = s..<s + L. if int u mod period h = 0 then wcet h else 0)
                   \<le> (- ((- int L) div period h)) * wcet h"
    by (rule release_window) (use Cons.prems in simp_all)
  moreover have "(\<Sum>u = s..<s + L. \<Sum>x\<leftarrow>hs. if int u mod period x = 0 then wcet x else 0)
                   \<le> (\<Sum>x\<leftarrow>hs. (- ((- int L) div period x)) * wcet x)"
    by (rule Cons.IH) (use Cons.prems in simp)
  ultimately show ?case by simp
qed


lemma releases_nth_task:
  assumes "i < length (releases ts t)"
  shows "\<exists>task\<in>set ts. releases ts t ! i = new_job task t \<and> t mod period task = 0"
proof -
  from assms have "releases ts t ! i \<in> set (releases ts t)" by simp
  then show ?thesis by (auto simp: releases_def)
qed

lemma int_mod_nat_dvd:
  assumes "0 < p"
  shows "int n mod p = 0 \<longleftrightarrow> nat p dvd n"
proof -
  have "int n mod p = 0 \<longleftrightarrow> p dvd int n" by (simp add: dvd_eq_mod_eq_0)
  also have "\<dots> \<longleftrightarrow> int (nat p) dvd int n" using assms by simp
  also have "\<dots> \<longleftrightarrow> nat p dvd n" by (rule int_dvd_int_iff)
  finally show ?thesis .
qed

lemma div_Suc_not_dvd:
  assumes "Suc n mod T \<noteq> 0"
  shows "Suc n div T = n div T"
  using assms by (simp add: div_Suc)

text \<open>
  The jobs of \<open>tau\<close> during the run, when in every window of \<open>R\<close> ticks the
  higher-priority tasks release at most \<open>R - wcet tau\<close> units of work and
  \<open>R \<le> period tau\<close>: a job of \<open>tau\<close> that is ready at the start of tick \<open>n\<close> arrived at the
  last multiple of the period, and every completed job of \<open>tau\<close> finished within \<open>R\<close>
  ticks of its arrival.
\<close>

lemma fp_job_windows:
  fixes R :: nat
  assumes fp: "fp_setting TS alg tau" and TS: "TS = tasks (Scheduler_init ts alg)"
    and R: "0 < R" "R \<le> nat (period tau)"
    and win: "\<forall>s. (\<Sum>u = s..<s + R. released_work (hp_id TS tau) TS (int u)) \<le> int R - wcet tau"
  shows "\<exists>s cur. state_after ts alg n = Inr (s, cur)
     \<and> (\<forall>b\<in>set (ready_queue s). task_id (objects s ! b) = id' tau \<longrightarrow>
           arrival_time (objects s ! b) = int (nat (period tau) * (n div nat (period tau))))
     \<and> (\<forall>b\<in>set (completed_jobs s). task_id (objects s ! b) = id' tau \<longrightarrow>
           finish_time (objects s ! b) - arrival_time (objects s ! b) \<le> int R)"
proof (induction n)
  case 0
  have "ready_queue (Scheduler_init ts alg) = []" "completed_jobs (Scheduler_init ts alg) = []"
    by (simp_all add: Scheduler_init_def)
  then show ?case by (simp add: state_after_0)
next
  case (Suc n)
  let ?T = "nat (period tau)"
  let ?hp = "hp_id TS tau" and ?own = "\<lambda>i. i = id' tau"
  let ?relH = "\<lambda>u. released_work ?hp TS (int u)" and ?relO = "\<lambda>u. released_work ?own TS (int u)"
  have d: "distinct (map id' TS)" and tau: "tau \<in> set TS" and wc: "\<forall>t\<in>set TS. 0 < wcet t"
    and ptau: "0 < period tau" and C: "0 < wcet tau"
    using fp by (auto simp: fp_setting_def)
  have relH: "\<forall>u. 0 \<le> ?relH u" using released_work_nonneg[OF wc] by blast
  have relO: "\<forall>u. ?relO u = (if ?T dvd u then wcet tau else 0)"
    using released_work_own[OF d tau] int_mod_nat_dvd[OF ptau] by simp
  note window = own_backlog_pending_window[OF relH relO C R win]
  note per = fp_setting_periods[OF fp TS]
  from state_after_step[OF per, of alg n] obtain s cur nj where
    s: "state_after ts alg n = Inr (s, cur)" and inv: "sched_inv (int n) (s, cur)"
    and ts: "tasks s = tasks (Scheduler_init ts alg)"
    and inv1: "sched_inv (int n) (released (int n) s, cur)"
    and nj: "\<forall>a. nj = Some a \<longrightarrow> a \<in> set (ready_queue (released (int n) s))
               \<and> a < length (objects (released (int n) s))"
    and st: "state_after ts alg (Suc n) = Inr (tick_result (int n) nj (released (int n) s))"
    by blast
  let ?s1 = "released (int n) s"
  let ?s2 = "fst (tick_result (int n) nj ?s1)" and ?c2 = "snd (tick_result (int n) nj ?s1)"
  have st2: "state_after ts alg (Suc n) = Inr (?s2, ?c2)" using st by simp
  from Suc s have ihq: "\<forall>b\<in>set (ready_queue s). task_id (objects s ! b) = id' tau \<longrightarrow>
           arrival_time (objects s ! b) = int (?T * (n div ?T))"
    and ihc: "\<forall>b\<in>set (completed_jobs s). task_id (objects s ! b) = id' tau \<longrightarrow>
           finish_time (objects s ! b) - arrival_time (objects s ! b) \<le> int R" by auto
  from fp_backlogs[OF fp TS, of n] s
  have pos: "\<forall>a\<in>set (ready_queue s). 0 < remaining_time (objects s ! a)"
    and O: "pend ?own s = own_backlog ?relH ?relO n" by auto
  from fp_backlogs[OF fp TS, of "Suc n"] st2
  have pos2: "\<forall>a\<in>set (ready_queue ?s2). 0 < remaining_time (objects ?s2 ! a)"
    and O2: "pend ?own ?s2 = own_backlog ?relH ?relO (Suc n)" by auto
  note D = sched_invD[OF inv] and D1 = sched_invD[OF inv1]
  have nj2: "\<forall>a. nj = Some a \<longrightarrow> a < length (objects ?s1)" using nj by blast
  have tss: "tasks s = TS" using ts TS by simp
  text \<open>The jobs in the ready queue after the releases: old ones, and the new ones.\<close>
  have old: "objects ?s1 ! b = objects s ! b" if "b \<in> set (ready_queue s)" for b
    using D(2)[OF that] by (simp add: nth_append)
  have new: "arrival_time (objects ?s1 ! b) = int n \<and> ?T dvd n"
    if b: "b \<in> set (ready_queue ?s1)" "b \<notin> set (ready_queue s)" "task_id (objects ?s1 ! b) = id' tau" for b
  proof -
    from b(1,2) have "b \<in> set [length (objects s)..<length (objects s) + length (releases (tasks s) (int n))]"
      by simp
    then have "length (objects s) \<le> b \<and> b < length (objects s) + length (releases TS (int n))"
      unfolding tss by simp
    then have r: "length (objects s) \<le> b" "b - length (objects s) < length (releases TS (int n))"
      by linarith+
    from releases_nth_task[OF r(2)] obtain task where task: "task \<in> set TS"
      "releases TS (int n) ! (b - length (objects s)) = new_job task (int n)" "int n mod period task = 0"
      by (elim bexE conjE)
    have o: "objects ?s1 ! b = new_job task (int n)" using r task(2) tss by (simp add: nth_append)
    with b(3) have "id' task = id' tau" by (simp add: new_job_def)
    from distinct_map_eq[OF d task(1) tau this] have "task = tau" .
    with task(3) int_mod_nat_dvd[OF ptau, of n] o show ?thesis by (simp add: new_job_def)
  qed
  have arr1: "arrival_time (objects ?s1 ! b) = int (?T * (n div ?T))"
    if b: "b \<in> set (ready_queue ?s1)" "task_id (objects ?s1 ! b) = id' tau" for b
  proof (cases "b \<in> set (ready_queue s)")
    case True
    with ihq old[OF True] b(2) show ?thesis by simp
  next
    case False
    from new[OF b(1) False b(2)] show ?thesis by auto
  qed
  have nth2: "objects ?s2 ! b = (if nj = Some b then executed_job (int n) (objects ?s1 ! b) else objects ?s1 ! b)"
    if "b < length (objects ?s1)" for b
    using tick_result_nth[OF nj2 that, of "int n"] .
  have q2: "\<forall>b\<in>set (ready_queue ?s2). task_id (objects ?s2 ! b) = id' tau \<longrightarrow>
           arrival_time (objects ?s2 ! b) = int (?T * (Suc n div ?T))"
  proof (intro ballI impI)
    fix b assume b: "b \<in> set (ready_queue ?s2)" "task_id (objects ?s2 ! b) = id' tau"
    have b1: "b \<in> set (ready_queue ?s1)"
      using b(1) tick_result_ready_queue[OF nj2, of "int n"]
      by (cases nj) (auto split: if_splits dest: in_remove1D)
    have bl: "b < length (objects ?s1)" using D1(2)[OF b1] .
    have t1: "task_id (objects ?s1 ! b) = id' tau" and a2: "arrival_time (objects ?s2 ! b) = arrival_time (objects ?s1 ! b)"
      using b(2) nth2[OF bl] by (auto split: if_splits)
    have "0 < pend ?own ?s2" unfolding pend_pos_iff[OF pos2] using b by blast
    with O2 have "own_backlog ?relH ?relO (Suc n) \<noteq> 0" by simp
    from window[OF this] have "Suc n mod ?T \<noteq> 0" by simp
    from div_Suc_not_dvd[OF this] arr1[OF b1 t1] a2
    show "arrival_time (objects ?s2 ! b) = int (?T * (Suc n div ?T))" by simp
  qed
  have c2: "\<forall>b\<in>set (completed_jobs ?s2). task_id (objects ?s2 ! b) = id' tau \<longrightarrow>
           finish_time (objects ?s2 ! b) - arrival_time (objects ?s2 ! b) \<le> int R"
  proof (intro ballI impI)
    fix b assume b: "b \<in> set (completed_jobs ?s2)" "task_id (objects ?s2 ! b) = id' tau"
    from b(1) tick_result_completed_jobs[OF nj2, of "int n"]
    consider "b \<in> set (completed_jobs s)" | "nj = Some b" "remaining_time (objects ?s1 ! b) = 1"
      by (cases nj) (auto split: if_splits)
    then show "finish_time (objects ?s2 ! b) - arrival_time (objects ?s2 ! b) \<le> int R"
    proof cases
      case 1
      have bl: "b < length (objects s)" using D(9)[OF 1] .
      have "b \<notin> set (ready_queue ?s1)" using D(10)[OF 1] bl by auto
      with nj have "nj \<noteq> Some b" by blast
      with nth2[of b] bl have "objects ?s2 ! b = objects s ! b" by (simp add: nth_append)
      with ihc 1 b(2) show ?thesis by simp
    next
      case 2
      with nj have b1: "b \<in> set (ready_queue ?s1)" and bl: "b < length (objects ?s1)" by auto
      from nth2[OF bl] 2 have o2: "objects ?s2 ! b = executed_job (int n) (objects ?s1 ! b)" by simp
      with b(2) have t1: "task_id (objects ?s1 ! b) = id' tau" by simp
      have fin: "finish_time (objects ?s2 ! b) = int n + 1"
        and arr: "arrival_time (objects ?s2 ! b) = arrival_time (objects ?s1 ! b)"
        using o2 2(2) by simp_all
      show ?thesis
      proof (cases "b \<in> set (ready_queue s)")
        case True
        with t1 old[OF True] have "task_id (objects s ! b) = id' tau" by simp
        then have "0 < pend ?own s" unfolding pend_pos_iff[OF pos] using True by blast
        with O have "own_backlog ?relH ?relO n \<noteq> 0" by simp
        from window[OF this] have m: "n mod ?T < R" by simp
        have "int n = int (?T * (n div ?T)) + int (n mod ?T)"
          by (metis mult_div_mod_eq of_nat_add)
        with arr1[OF b1 t1] fin arr m show ?thesis by simp
      next
        case False
        from new[OF b1 False t1] fin arr R(1) show ?thesis by simp
      qed
    qed
  qed
  from st2 q2 c2 show ?case by blast
qed


section \<open>The analysis and the simulation compared\<close>

text \<open>
  With a positive estimate and periods below \<open>2\<^sup>5\<^sup>3\<close> the float ceilings are exact: the
  loop body computes the recurrence of the docstring, and no division overflows.
\<close>

lemma exact_in_range:
  assumes hp: "\<forall>h\<in>set hps. 0 < period h \<and> period h < 2 ^ 53" and R: "0 < R" "R < 2 ^ 53"
  shows "next_candidate task hps R = exact_candidate task hps R"
    and "\<not> division_overflows hps R"
proof -
  have "map (\<lambda>h. float_ceil (float_quotient R (period h)) * wcet h) hps
      = map (\<lambda>h. (- ((- R) div period h)) * wcet h) hps"
  proof (rule map_cong[OF refl])
    fix h assume "h \<in> set hps"
    with hp have "0 < period h" "period h < 2 ^ 53" by simp_all
    from float_ceil_exact(1)[OF R this]
    show "float_ceil (float_quotient R (period h)) * wcet h = (- ((- R) div period h)) * wcet h"
      by simp
  qed
  then show "next_candidate task hps R = exact_candidate task hps R"
    unfolding next_candidate_def exact_candidate_def by (simp only:)
  show "\<not> division_overflows hps R"
    unfolding division_overflows_def using hp float_ceil_exact(2)[OF R] by blast
qed

text \<open>
  For a task and higher-priority tasks with wcets, periods and deadline below \<open>2\<^sup>5\<^sup>3\<close>,
  \<open>calculate_exact_wcrt_rm\<close> returns a value that is at least the task's wcet; when the
  value is within the deadline, it is a fixed point of the recurrence of the docstring.
\<close>

lemma calculate_exact_wcrt_rm_fixed_point:
  assumes hp: "\<forall>h\<in>set hps. 0 < period h \<and> period h < 2 ^ 53 \<and> 0 \<le> wcet h"
    and w: "0 < wcet task" "wcet task < 2 ^ 53" and dl: "deadline task < 2 ^ 53"
  shows "\<exists>r. calculate_exact_wcrt_rm task hps = Some (Inr r) \<and> wcet task \<le> r
            \<and> (r \<le> deadline task \<longrightarrow> exact_candidate task hps r = r)"
proof -
  let ?c = "candidate task hps"
  have hp1: "\<forall>h\<in>set hps. 0 < period h \<and> 0 \<le> wcet h"
    and hp2: "\<forall>h\<in>set hps. 0 < period h \<and> period h < 2 ^ 53" using hp by auto
  from wcrt_loop_from[OF hp1 w(1), of 0] obtain n where
    run: "\<forall>k. 0 \<le> k \<and> k < n \<longrightarrow> \<not> division_overflows hps (?c k)
            \<and> ?c (Suc k) \<le> deadline task \<and> ?c (Suc k) \<noteq> ?c k"
    and exit: "division_overflows hps (?c n) \<and> wcrt_loop task hps (?c 0) = Some (Inl OverflowError)
        \<or> \<not> division_overflows hps (?c n) \<and> wcrt_loop task hps (?c 0) = Some (Inr (?c (Suc n)))
          \<and> (?c (Suc n) > deadline task \<or> ?c (Suc n) = ?c n)"
    by (elim exE conjE)
  have "\<forall>k<n. ?c (Suc k) \<le> deadline task" using run by simp
  from candidate_bounded[OF this order_refl] w(2) dl have small: "?c n < 2 ^ 53"
    by (simp add: max_def split: if_splits)
  have pos: "0 < ?c n" by (rule candidate_pos[OF hp1 w(1)])
  note ex = exact_in_range[OF hp2 pos small]
  from exit ex(2) have r: "wcrt_loop task hps (?c 0) = Some (Inr (?c (Suc n)))"
    and last: "?c (Suc n) > deadline task \<or> ?c (Suc n) = ?c n" by blast+
  have 1: "calculate_exact_wcrt_rm task hps = Some (Inr (?c (Suc n)))"
    using r by (simp add: calculate_exact_wcrt_rm_def)
  have 2: "wcet task \<le> ?c (Suc n)" by (rule candidate_ge_wcet[OF hp1 w(1)])
  have 3: "?c (Suc n) \<le> deadline task \<longrightarrow> exact_candidate task hps (?c (Suc n)) = ?c (Suc n)"
  proof
    assume "?c (Suc n) \<le> deadline task"
    with last have e: "?c (Suc n) = ?c n" by simp
    have "?c (Suc n) = next_candidate task hps (?c n)" by simp
    also have "\<dots> = exact_candidate task hps (?c n)" by (rule ex(1))
    finally have "?c (Suc n) = exact_candidate task hps (?c n)" .
    then show "exact_candidate task hps (?c (Suc n)) = ?c (Suc n)" unfolding e by simp
  qed
  from 1 2 3 show ?thesis by blast
qed

lemma rm_analysis_loop_frame:
  assumes "\<forall>h\<in>set (hps @ rest). 0 < period h \<and> 0 < wcet h"
    and "\<forall>h\<in>set (hps @ rest). wcet h < 2 ^ 53 \<and> period h < 2 ^ 53 \<and> deadline h < 2 ^ 53"
  shows "\<exists>res. rm_analysis_loop hps rest results = Some (Inr res)
            \<and> (\<forall>i. i \<notin> id' ` set rest \<longrightarrow> res i = results i)"
  using assms
proof (induction rest arbitrary: hps results)
  case Nil
  show ?case by simp
next
  case (Cons t rest)
  have hp: "\<forall>h\<in>set hps. 0 < period h \<and> period h < 2 ^ 53 \<and> 0 \<le> wcet h"
    and w: "0 < wcet t" "wcet t < 2 ^ 53" "deadline t < 2 ^ 53"
    using Cons.prems by (auto simp: less_imp_le)
  from calculate_exact_wcrt_rm_fixed_point[OF hp w] obtain r where
    r: "calculate_exact_wcrt_rm t hps = Some (Inr r)" by blast
  let ?results = "results(id' t \<mapsto> \<lparr>Period = period t, WCET = wcet t, WCRT_Analytic = r,
                Schedulable = (r \<le> deadline t)\<rparr>)"
  have step: "rm_analysis_loop hps (t # rest) results = rm_analysis_loop (hps @ [t]) rest ?results"
    using r by simp
  have "\<forall>h\<in>set ((hps @ [t]) @ rest). 0 < period h \<and> 0 < wcet h"
    "\<forall>h\<in>set ((hps @ [t]) @ rest). wcet h < 2 ^ 53 \<and> period h < 2 ^ 53 \<and> deadline h < 2 ^ 53"
    using Cons.prems by simp_all
  from Cons.IH[OF this, of ?results] obtain res where
    res: "rm_analysis_loop (hps @ [t]) rest ?results = Some (Inr res)"
         "\<forall>i. i \<notin> id' ` set rest \<longrightarrow> res i = ?results i" by blast
  have "\<forall>i. i \<notin> id' ` set (t # rest) \<longrightarrow> res i = results i" using res(2) by simp
  with step res(1) show ?case by simp
qed

text \<open>
  The entry of the result dictionary for a task whose id does not occur later in the
  order: its WCRT is computed against the tasks before it.
\<close>

lemma rm_analysis_loop_entry:
  assumes "\<forall>h\<in>set (hps @ pre @ tau # post). 0 < period h \<and> 0 < wcet h"
    and "\<forall>h\<in>set (hps @ pre @ tau # post). wcet h < 2 ^ 53 \<and> period h < 2 ^ 53 \<and> deadline h < 2 ^ 53"
    and "id' tau \<notin> id' ` set post"
  shows "\<exists>res r. rm_analysis_loop hps (pre @ tau # post) results = Some (Inr res)
            \<and> calculate_exact_wcrt_rm tau (hps @ pre) = Some (Inr r)
            \<and> res (id' tau) = Some \<lparr>Period = period tau, WCET = wcet tau, WCRT_Analytic = r,
                                     Schedulable = (r \<le> deadline tau)\<rparr>"
  using assms
proof (induction pre arbitrary: hps results)
  case Nil
  have hp: "\<forall>h\<in>set hps. 0 < period h \<and> period h < 2 ^ 53 \<and> 0 \<le> wcet h"
    and w: "0 < wcet tau" "wcet tau < 2 ^ 53" "deadline tau < 2 ^ 53"
    using Nil.prems(1,2) by (auto simp: less_imp_le)
  from calculate_exact_wcrt_rm_fixed_point[OF hp w] obtain r where
    r: "calculate_exact_wcrt_rm tau hps = Some (Inr r)" by blast
  let ?results = "results(id' tau \<mapsto> \<lparr>Period = period tau, WCET = wcet tau, WCRT_Analytic = r,
                Schedulable = (r \<le> deadline tau)\<rparr>)"
  have step: "rm_analysis_loop hps (tau # post) results = rm_analysis_loop (hps @ [tau]) post ?results"
    using r by simp
  have "\<forall>h\<in>set ((hps @ [tau]) @ post). 0 < period h \<and> 0 < wcet h"
    "\<forall>h\<in>set ((hps @ [tau]) @ post). wcet h < 2 ^ 53 \<and> period h < 2 ^ 53 \<and> deadline h < 2 ^ 53"
    using Nil.prems(1,2) by simp_all
  from rm_analysis_loop_frame[OF this, of ?results] obtain res where
    res: "rm_analysis_loop (hps @ [tau]) post ?results = Some (Inr res)"
         "\<forall>i. i \<notin> id' ` set post \<longrightarrow> res i = ?results i" by blast
  from res(2) Nil.prems(3) have "res (id' tau) = ?results (id' tau)" by blast
  then have "res (id' tau) = Some \<lparr>Period = period tau, WCET = wcet tau, WCRT_Analytic = r,
                Schedulable = (r \<le> deadline tau)\<rparr>" by simp
  with step res(1) r show ?case by simp
next
  case (Cons t pre)
  have hp: "\<forall>h\<in>set hps. 0 < period h \<and> period h < 2 ^ 53 \<and> 0 \<le> wcet h"
    and w: "0 < wcet t" "wcet t < 2 ^ 53" "deadline t < 2 ^ 53"
    using Cons.prems(1,2) by (auto simp: less_imp_le)
  from calculate_exact_wcrt_rm_fixed_point[OF hp w] obtain r where
    r: "calculate_exact_wcrt_rm t hps = Some (Inr r)" by blast
  let ?results = "results(id' t \<mapsto> \<lparr>Period = period t, WCET = wcet t, WCRT_Analytic = r,
                Schedulable = (r \<le> deadline t)\<rparr>)"
  have step: "rm_analysis_loop hps ((t # pre) @ tau # post) results
                = rm_analysis_loop (hps @ [t]) (pre @ tau # post) ?results"
    using r by simp
  have "\<forall>h\<in>set ((hps @ [t]) @ pre @ tau # post). 0 < period h \<and> 0 < wcet h"
    "\<forall>h\<in>set ((hps @ [t]) @ pre @ tau # post). wcet h < 2 ^ 53 \<and> period h < 2 ^ 53 \<and> deadline h < 2 ^ 53"
    using Cons.prems(1,2) by simp_all
  from Cons.IH[OF this Cons.prems(3), of ?results] obtain res r' where
    res: "rm_analysis_loop (hps @ [t]) (pre @ tau # post) ?results = Some (Inr res)"
      "calculate_exact_wcrt_rm tau ((hps @ [t]) @ pre) = Some (Inr r')"
      "res (id' tau) = Some \<lparr>Period = period tau, WCET = wcet tau, WCRT_Analytic = r',
                                     Schedulable = (r' \<le> deadline tau)\<rparr>"
    by (elim exE conjE)
  have 1: "rm_analysis_loop hps ((t # pre) @ tau # post) results = Some (Inr res)"
    using step res(1) by (simp only:)
  have 2: "calculate_exact_wcrt_rm tau (hps @ t # pre) = Some (Inr r')" using res(2) by simp
  from 1 2 res(3) show ?case by blast
qed

text \<open>
  The simulation side: when \<open>R\<close> is a fixed point of the recurrence over the tasks with
  a smaller priority value, and is at most the period, every completed job of the task
  has a response time of at most \<open>R\<close>.
\<close>

lemma fp_completed_bound:
  fixes R :: nat
  assumes fp: "fp_setting TS alg tau" and TS: "TS = tasks (Scheduler_init ts alg)"
    and R: "0 < R" "R \<le> nat (period tau)"
    and fixp: "int R = wcet tau + (\<Sum>h\<leftarrow>filter (\<lambda>h. priority h < priority tau) TS.
                                    (- ((- int R) div period h)) * wcet h)"
  shows "\<exists>s cur. state_after ts alg n = Inr (s, cur)
     \<and> (\<forall>b\<in>set (completed_jobs s). task_id (objects s ! b) = id' tau \<longrightarrow>
           finish_time (objects s ! b) - arrival_time (objects s ! b) \<le> int R)"
proof -
  have d: "distinct (map id' TS)" and pos: "\<forall>t\<in>set TS. 0 < period t \<and> 0 < wcet t"
    using fp by (auto simp: fp_setting_def)
  let ?hs = "filter (\<lambda>h. priority h < priority tau) TS"
  have hs: "\<forall>h\<in>set ?hs. 0 < period h \<and> 0 \<le> wcet h" using pos by (auto simp: less_imp_le)
  have win: "\<forall>s. (\<Sum>u = s..<s + R. released_work (hp_id TS tau) TS (int u)) \<le> int R - wcet tau"
  proof
    fix s
    have "(\<Sum>u = s..<s + R. released_work (hp_id TS tau) TS (int u))
        = (\<Sum>u = s..<s + R. \<Sum>h\<leftarrow>?hs. if int u mod period h = 0 then wcet h else 0)"
      by (simp only: released_work_hp[OF d])
    also have "\<dots> \<le> (\<Sum>h\<leftarrow>?hs. (- ((- int R) div period h)) * wcet h)"
      by (rule window_bound_list[OF hs])
    also have "\<dots> = int R - wcet tau" using fixp by linarith
    finally show "(\<Sum>u = s..<s + R. released_work (hp_id TS tau) TS (int u)) \<le> int R - wcet tau" .
  qed
  from fp_job_windows[OF fp TS R win, of n] show ?thesis by blast
qed

lemma observed_stats_wcrt_le:
  assumes "\<forall>j\<in>set js. finish_time j - arrival_time j \<le> R" "0 \<le> R"
  shows "Sim_WCRT (observed_stats js) \<le> R"
proof (cases "js = []")
  case True
  with assms(2) show ?thesis by (simp add: observed_stats_def)
next
  case False
  then have "Max ((\<lambda>j. finish_time j - arrival_time j) ` set js) \<le> R"
    using assms(1) by (subst Max_le_iff) auto
  with False show ?thesis by (simp add: observed_stats_def)
qed

text \<open>
  A run followed by \<open>analyze_results\<close> returns; the state it ends in is the state after
  the ticks of the duration (the hyperperiod when no duration is given).
\<close>

lemma run_analyze_returns:
  assumes "\<forall>task\<in>set ts. period task \<noteq> 0"
  shows "\<exists>n s cur stats.
           state_after ts alg n = Inr (s, cur)
         \<and> run (Scheduler_init ts alg) d
             = Inr (s, map (\<lambda>a. objects s ! a) (completed_jobs s), history s)
         \<and> analyze_results s = Inr stats
         \<and> (\<forall>task\<in>set ts. stats (id' task) =
               Some (observed_stats (filter (\<lambda>j. task_id j = id' task)
                                        (map (\<lambda>a. objects s ! a) (completed_jobs s)))))"
proof -
  define dd where "dd = (case d of None \<Rightarrow> hyperperiod (Scheduler_init ts alg) | Some d \<Rightarrow> d)"
  have rd: "run (Scheduler_init ts alg) d = run (Scheduler_init ts alg) (Some dd)"
    by (simp add: run_def dd_def)
  from state_after_inv[OF assms, of alg "nat dd"] obtain s' cur' where
    fin: "state_after ts alg (nat dd) = Inr (s', cur')" and inv: "sched_inv (int (nat dd)) (s', cur')"
    and ts: "tasks s' = tasks (Scheduler_init ts alg)" by blast
  let ?jobs = "map (\<lambda>a. objects s' ! a) (completed_jobs s')"
  note D = sched_invD[OF inv]
  have r: "run (Scheduler_init ts alg) d = Inr (s', ?jobs, history s')"
    unfolding rd using fin by (simp add: run_state_after)
  have finished: "\<forall>j\<in>set ?jobs. finish_time j \<noteq> - 1" using D(11) by auto
  let ?stats = "\<lambda>i. if i \<in> id' ` set (tasks s')
               then Some (observed_stats (filter (\<lambda>j. task_id j = i) ?jobs))
               else None"
  have a: "analyze_results s' = Inr ?stats"
    unfolding analyze_results_def by (rule analyze_loop_observed[OF finished])
  have ids: "id' ` set (tasks s') = id' ` set ts" using ts Scheduler_init_ids by simp
  have 1: "\<forall>task\<in>set ts. ?stats (id' task) = Some (observed_stats (filter (\<lambda>j. task_id j = id' task) ?jobs))"
    using ids by auto
  from fin r a 1 show ?thesis by blast
qed


text \<open>
  The comparison in one step: \<open>tau0\<close> is the task as the analysis sees it and \<open>tau\<close> the
  same task as the scheduler holds it; \<open>hps\<close> are the tasks the analysis takes as of
  higher priority, which contribute the same interference as the tasks with a smaller
  priority value in the scheduler.
\<close>

lemma sim_bound_core:
  assumes fp: "fp_setting TS alg tau" and TS: "TS = tasks (Scheduler_init ts alg)"
    and tau0: "id' tau0 = id' tau" "wcet tau0 = wcet tau" "period tau0 = period tau"
    and hpsum: "\<forall>g::int \<Rightarrow> int \<Rightarrow> int. (\<Sum>h\<leftarrow>hps. g (period h) (wcet h))
                  = (\<Sum>h\<leftarrow>filter (\<lambda>h. priority h < priority tau) TS. g (period h) (wcet h))"
    and r: "exact_candidate tau0 hps r = r" "wcet tau0 \<le> r" "r \<le> period tau0"
    and st: "state_after ts alg n = Inr (s, cur)"
  shows "Sim_WCRT (observed_stats (filter (\<lambda>j. task_id j = id' tau0)
                      (map (\<lambda>a. objects s ! a) (completed_jobs s)))) \<le> r"
proof -
  have pos: "\<forall>t\<in>set TS. 0 < period t \<and> 0 < wcet t" and tau: "tau \<in> set TS"
    using fp by (auto simp: fp_setting_def)
  let ?hs = "filter (\<lambda>h. priority h < priority tau) TS"
  have sum_eq: "(\<Sum>h\<leftarrow>hps. (- ((- r) div period h)) * wcet h)
              = (\<Sum>h\<leftarrow>?hs. (- ((- r) div period h)) * wcet h)"
    using hpsum[rule_format, of "\<lambda>p c. (- ((- r) div p)) * c"] .
  have w: "0 < wcet tau" using pos tau by blast
  with r(2) tau0(2) have rpos: "0 < r" by linarith
  define R where "R = nat r"
  have R: "int R = r" "0 < R" "R \<le> nat (period tau)"
    using rpos r(3) tau0(3) by (simp_all add: R_def)
  have "r = wcet tau0 + (\<Sum>h\<leftarrow>hps. (- ((- r) div period h)) * wcet h)"
    using r(1) by (simp add: exact_candidate_def)
  then have fixp: "int R = wcet tau + (\<Sum>h\<leftarrow>?hs. (- ((- int R) div period h)) * wcet h)"
    unfolding sum_eq tau0(2) R(1) .
  from fp_completed_bound[OF fp TS R(2,3) fixp, of n] st
  have b: "\<forall>b\<in>set (completed_jobs s). task_id (objects s ! b) = id' tau \<longrightarrow>
           finish_time (objects s ! b) - arrival_time (objects s ! b) \<le> r"
    unfolding R(1) by simp
  let ?js = "filter (\<lambda>j. task_id j = id' tau0) (map (\<lambda>a. objects s ! a) (completed_jobs s))"
  have "\<forall>j\<in>set ?js. finish_time j - arrival_time j \<le> r"
    using b tau0(1) by auto
  moreover have "0 \<le> r" using rpos by simp
  ultimately show ?thesis by (rule observed_stats_wcrt_le)
qed

section \<open>Rate monotonic: the order of the analysis and the input priorities\<close>

lemma sum_list_set_eq:
  fixes f :: "'a \<Rightarrow> int"
  assumes "distinct xs" "distinct ys" "set xs = set ys"
  shows "(\<Sum>x\<leftarrow>xs. f x) = (\<Sum>y\<leftarrow>ys. f y)"
  using assms by (simp add: sum_list_distinct_conv_sum_set)

lemma rm_key_neq:
  "id' a \<noteq> id' b \<Longrightarrow> (period a, id' a) \<noteq> (period b, id' b)"
  by simp

text \<open>
  In the list sorted by (period, id), over tasks with distinct ids and input priorities
  ordered like (period, id), the tasks before \<open>tau\<close> are the tasks with a smaller
  priority value.
\<close>

lemma rm_prefix_set:
  assumes d: "distinct (map id' ts)"
    and cons: "\<forall>x\<in>set ts. \<forall>y\<in>set ts. (period x, id' x) < (period y, id' y) \<longrightarrow> priority x < priority y"
    and S: "sort_key (\<lambda>x. (period x, id' x)) ts = pre @ tau # post"
  shows "set pre = set (filter (\<lambda>h. priority h < priority tau) ts)"
    and "distinct pre" and "id' tau \<notin> id' ` set post"
proof -
  let ?k = "\<lambda>x. (period x, id' x)"
  have dts: "distinct ts" and inj: "inj_on id' (set ts)" using d by (simp_all add: distinct_map)
  have dS: "distinct (pre @ tau # post)" using dts S[symmetric] by simp
  have setS: "set ts = set pre \<union> {tau} \<union> set post"
  proof -
    have "set ts = set (sort_key ?k ts)" by simp
    then show ?thesis unfolding S by auto
  qed
  have sorted: "sorted (map ?k (pre @ tau # post))" using sorted_sort_key[of ?k ts] S by simp
  have tau: "tau \<in> set ts" using setS by simp
  have ne_id: "id' a \<noteq> id' b" if "a \<in> set ts" "b \<in> set ts" "a \<noteq> b" for a b
    using inj_onD[OF inj _ that(1,2)] that(3) by blast
  have before: "?k h < ?k tau" if h: "h \<in> set pre" for h
  proof -
    have "?k h \<le> ?k tau" using sorted h by (simp add: sorted_append)
    moreover have "h \<noteq> tau" using dS h by auto
    with h tau setS have "id' h \<noteq> id' tau" by (intro ne_id) auto
    then have "?k h \<noteq> ?k tau" by (rule rm_key_neq)
    ultimately show ?thesis by (rule order.not_eq_order_implies_strict[rotated])
  qed
  have after: "?k tau < ?k h" if h: "h \<in> set post" for h
  proof -
    have "?k tau \<le> ?k h" using sorted h by (simp add: sorted_append)
    moreover have "h \<noteq> tau" using dS h by auto
    with h tau setS have "id' tau \<noteq> id' h" by (intro ne_id) auto
    then have "?k tau \<noteq> ?k h" by (rule rm_key_neq)
    ultimately show ?thesis by (rule order.not_eq_order_implies_strict[rotated])
  qed
  show "set pre = set (filter (\<lambda>h. priority h < priority tau) ts)"
  proof (intro set_eqI iffI)
    fix h assume h: "h \<in> set pre"
    then have hts: "h \<in> set ts" using setS by simp
    from cons[rule_format, OF hts tau before[OF h]] hts
    show "h \<in> set (filter (\<lambda>h. priority h < priority tau) ts)" by simp
  next
    fix h assume "h \<in> set (filter (\<lambda>h. priority h < priority tau) ts)"
    then have h: "h \<in> set ts" "priority h < priority tau" by simp_all
    have "h \<notin> set post"
    proof
      assume p: "h \<in> set post"
      have "priority tau < priority h" by (rule cons[rule_format, OF tau h(1) after[OF p]])
      with h(2) show False by simp
    qed
    moreover have "h \<noteq> tau" using h(2) by auto
    ultimately show "h \<in> set pre" using h(1) setS by auto
  qed
  show "distinct pre" using dS by simp
  show "id' tau \<notin> id' ` set post"
  proof
    assume "id' tau \<in> id' ` set post"
    then obtain h where h: "h \<in> set post" "id' h = id' tau" by auto
    have "h \<noteq> tau" using dS h(1) by auto
    with h(1) tau setS have "id' h \<noteq> id' tau" by (intro ne_id) auto
    with h(2) show False by simp
  qed
qed

lemma rm_distinct_priorities:
  assumes d: "distinct (map id' ts)"
    and cons: "\<forall>x\<in>set ts. \<forall>y\<in>set ts. (period x, id' x) < (period y, id' y) \<longrightarrow> priority x < priority y"
  shows "distinct (map priority ts)"
proof -
  have dts: "distinct ts" and inj: "inj_on id' (set ts)" using d by (simp_all add: distinct_map)
  have "inj_on priority (set ts)"
  proof (rule inj_onI)
    fix x y assume xy: "x \<in> set ts" "y \<in> set ts" "priority x = priority y"
    show "x = y"
    proof (rule ccontr)
      assume "x \<noteq> y"
      then have "id' x \<noteq> id' y" using inj_onD[OF inj _ xy(1,2)] by blast
      then have "(period x, id' x) \<noteq> (period y, id' y)" by (rule rm_key_neq)
      then consider "(period x, id' x) < (period y, id' y)" | "(period y, id' y) < (period x, id' x)"
        by (rule linorder_neqE)
      then show False
      proof cases
        case 1
        from cons[rule_format, OF xy(1,2) 1] xy(3) show False by simp
      next
        case 2
        from cons[rule_format, OF xy(2,1) 2] xy(3) show False by simp
      qed
    qed
  qed
  with dts show ?thesis by (simp add: distinct_map)
qed


section \<open>Deadline monotonic: the priorities the scheduler assigns\<close>

lemma assign_from_member:
  assumes "t \<in> set (map (\<lambda>(i, t). t\<lparr>priority := int i\<rparr>) (enumerate n xs))"
  shows "\<exists>t0\<in>set xs. \<exists>i\<ge>n. t = t0\<lparr>priority := int i\<rparr>"
  using assms
proof (induction xs arbitrary: n)
  case Nil
  then show ?case by simp
next
  case (Cons x xs)
  have "enumerate n (x # xs) = (n, x) # enumerate (Suc n) xs" by simp
  with Cons.prems have "t \<in> set (x\<lparr>priority := int n\<rparr> #
      map (\<lambda>(i, t). t\<lparr>priority := int i\<rparr>) (enumerate (Suc n) xs))" by simp
  then have "t = x\<lparr>priority := int n\<rparr>
    \<or> t \<in> set (map (\<lambda>(i, t). t\<lparr>priority := int i\<rparr>) (enumerate (Suc n) xs))"
    by (simp only: set_ConsD list.set insert_iff)
  then consider "t = x\<lparr>priority := int n\<rparr>"
    | "t \<in> set (map (\<lambda>(i, t). t\<lparr>priority := int i\<rparr>) (enumerate (Suc n) xs))" by blast
  then show ?case
  proof cases
    case 1
    then have "x \<in> set (x # xs) \<and> n \<le> n \<and> t = x\<lparr>priority := int n\<rparr>" by simp
    then show ?thesis by blast
  next
    case 2
    from Cons.IH[OF 2] obtain t0 i where "t0 \<in> set xs" "Suc n \<le> i" "t = t0\<lparr>priority := int i\<rparr>"
      by blast
    then have "t0 \<in> set (x # xs) \<and> n \<le> i \<and> t = t0\<lparr>priority := int i\<rparr>" by simp
    then show ?thesis by blast
  qed
qed

lemma assign_from_filter:
  "filter (\<lambda>h. priority h < int (n + m)) (map (\<lambda>(i, t). t\<lparr>priority := int i\<rparr>) (enumerate n xs))
     = map (\<lambda>(i, t). t\<lparr>priority := int i\<rparr>) (enumerate n (take m xs))"
proof (induction xs arbitrary: n m)
  case Nil
  show ?case by simp
next
  case (Cons x xs)
  show ?case
  proof (cases m)
    case 0
    have "\<forall>h\<in>set (map (\<lambda>(i, t). t\<lparr>priority := int i\<rparr>) (enumerate n (x # xs))). \<not> priority h < int n"
    proof
      fix h assume "h \<in> set (map (\<lambda>(i, t). t\<lparr>priority := int i\<rparr>) (enumerate n (x # xs)))"
      from assign_from_member[OF this] show "\<not> priority h < int n" by auto
    qed
    then have "filter (\<lambda>h. priority h < int n) (map (\<lambda>(i, t). t\<lparr>priority := int i\<rparr>) (enumerate n (x # xs))) = []"
      by (simp only: filter_False)
    with 0 show ?thesis by simp
  next
    case (Suc m')
    let ?L = "map (\<lambda>(i, t). t\<lparr>priority := int i\<rparr>) (enumerate n (x # xs))"
    have b: "int (n + m) = int (Suc n + m')" using Suc by simp
    have "filter (\<lambda>h. priority h < int (n + m)) ?L = filter (\<lambda>h. priority h < int (Suc n + m')) ?L"
      by (simp only: b)
    also have "\<dots> = x\<lparr>priority := int n\<rparr> #
         filter (\<lambda>h. priority h < int (Suc n + m'))
           (map (\<lambda>(i, t). t\<lparr>priority := int i\<rparr>) (enumerate (Suc n) xs))"
      by simp
    also have "\<dots> = x\<lparr>priority := int n\<rparr> #
         map (\<lambda>(i, t). t\<lparr>priority := int i\<rparr>) (enumerate (Suc n) (take m' xs))"
      by (simp only: Cons)
    also have "\<dots> = map (\<lambda>(i, t). t\<lparr>priority := int i\<rparr>) (enumerate n (take m (x # xs)))"
      using Suc by simp
    finally show ?thesis .
  qed
qed

lemma assign_from_sum:
  fixes g :: "int \<Rightarrow> int \<Rightarrow> int"
  shows "(\<Sum>h\<leftarrow>map (\<lambda>(i, t). t\<lparr>priority := int i\<rparr>) (enumerate n xs). g (period h) (wcet h))
           = (\<Sum>h\<leftarrow>xs. g (period h) (wcet h))"
  by (induction xs arbitrary: n) simp_all

lemma assign_from_ids:
  "map id' (map (\<lambda>(i, t). t\<lparr>priority := int i\<rparr>) (enumerate n xs)) = map id' xs"
  by (induction xs arbitrary: n) simp_all

lemma assign_from_priorities:
  "map priority (map (\<lambda>(i, t). t\<lparr>priority := int i\<rparr>) (enumerate n xs)) = map int [n..<n + length xs]"
  by (induction xs arbitrary: n) (simp_all add: upt_rec)

lemma distinct_ids_sort_key:
  assumes "distinct (map id' ts)"
  shows "distinct (map id' (sort_key f ts))"
  using assms by (simp add: distinct_map)

text \<open>
  Under DM the scheduler holds the tasks sorted by deadline, with the position as the
  priority value.  For the task at a position of that order, the tasks with a smaller
  priority value are the tasks before it.
\<close>

lemma dm_setting:
  assumes pos: "\<forall>t\<in>set ts. 0 < wcet t \<and> 0 < period t" and d: "distinct (map id' ts)"
    and S: "sort_key deadline ts = pre @ tau0 # post"
    and TS: "TS = tasks (Scheduler_init ts ''DM'')"
    and tau: "tau = tau0\<lparr>priority := int (length pre)\<rparr>"
  shows "fp_setting TS ''DM'' tau"
    and "\<forall>g::int \<Rightarrow> int \<Rightarrow> int. (\<Sum>h\<leftarrow>pre. g (period h) (wcet h))
            = (\<Sum>h\<leftarrow>filter (\<lambda>h. priority h < priority tau) TS. g (period h) (wcet h))"
    and "id' tau0 \<notin> id' ` set post"
proof -
  let ?F = "\<lambda>(i, t). t\<lparr>priority := int i\<rparr>"
  have TS': "TS = map ?F (enumerate 0 (pre @ tau0 # post))"
    unfolding TS S[symmetric] by (simp add: Scheduler_init_def assign_priorities_def)
  have setS: "set (pre @ tau0 # post) = set ts" unfolding S[symmetric] by simp
  have dS: "distinct (map id' (pre @ tau0 # post))"
    unfolding S[symmetric] by (rule distinct_ids_sort_key[OF d])
  show post: "id' tau0 \<notin> id' ` set post" using dS by auto
  have mem: "tau \<in> set TS"
    unfolding TS' tau by (simp add: enumerate_append_eq)
  have posTS: "\<forall>t\<in>set TS. 0 < period t \<and> 0 < wcet t"
  proof
    fix t assume "t \<in> set TS"
    then have "t \<in> set (map ?F (enumerate 0 (pre @ tau0 # post)))" unfolding TS' .
    from assign_from_member[OF this] obtain t0 i where
      t0: "t0 \<in> set (pre @ tau0 # post)" "t = t0\<lparr>priority := int i\<rparr>" by blast
    from t0(1) setS pos have "0 < wcet t0 \<and> 0 < period t0" by blast
    with t0(2) show "0 < period t \<and> 0 < wcet t" by simp
  qed
  have dids: "distinct (map id' TS)" unfolding TS' assign_from_ids by (rule dS)
  have dpri: "distinct (map priority TS)"
    unfolding TS' assign_from_priorities
    by (intro iffD2[OF distinct_map] conjI distinct_upt inj_onI) simp
  show "fp_setting TS ''DM'' tau"
    unfolding fp_setting_def using posTS dids dpri mem by simp
  have pt: "priority tau = int (0 + length pre)" unfolding tau by simp
  have "filter (\<lambda>h. priority h < priority tau) TS = map ?F (enumerate 0 (take (length pre) (pre @ tau0 # post)))"
    unfolding pt TS' by (rule assign_from_filter)
  then have f: "filter (\<lambda>h. priority h < priority tau) TS = map ?F (enumerate 0 pre)" by simp
  show "\<forall>g::int \<Rightarrow> int \<Rightarrow> int. (\<Sum>h\<leftarrow>pre. g (period h) (wcet h))
            = (\<Sum>h\<leftarrow>filter (\<lambda>h. priority h < priority tau) TS. g (period h) (wcet h))"
    unfolding f assign_from_sum by simp
qed

text \<open>The same for RM, where the scheduler keeps the input list and its priorities.\<close>

lemma rm_setting:
  assumes pos: "\<forall>t\<in>set ts. 0 < wcet t \<and> 0 < period t" and d: "distinct (map id' ts)"
    and cons: "\<forall>x\<in>set ts. \<forall>y\<in>set ts. (period x, id' x) < (period y, id' y) \<longrightarrow> priority x < priority y"
    and S: "sort_key (\<lambda>x. (period x, id' x)) ts = pre @ tau # post"
    and TS: "TS = tasks (Scheduler_init ts ''RM'')"
  shows "fp_setting TS ''RM'' tau"
    and "\<forall>g::int \<Rightarrow> int \<Rightarrow> int. (\<Sum>h\<leftarrow>pre. g (period h) (wcet h))
            = (\<Sum>h\<leftarrow>filter (\<lambda>h. priority h < priority tau) TS. g (period h) (wcet h))"
proof -
  have TS': "TS = ts" unfolding TS by (simp add: Scheduler_init_def)
  have "set (sort_key (\<lambda>x. (period x, id' x)) ts) = set ts" by simp
  then have tau: "tau \<in> set ts" unfolding S by auto
  show "fp_setting TS ''RM'' tau"
    unfolding fp_setting_def TS' using pos d rm_distinct_priorities[OF d cons] tau by simp
  note p = rm_prefix_set[OF d cons S]
  have dts: "distinct ts" using d by (simp add: distinct_map)
  show "\<forall>g::int \<Rightarrow> int \<Rightarrow> int. (\<Sum>h\<leftarrow>pre. g (period h) (wcet h))
            = (\<Sum>h\<leftarrow>filter (\<lambda>h. priority h < priority tau) TS. g (period h) (wcet h))"
  proof
    fix g :: "int \<Rightarrow> int \<Rightarrow> int"
    show "(\<Sum>h\<leftarrow>pre. g (period h) (wcet h))
            = (\<Sum>h\<leftarrow>filter (\<lambda>h. priority h < priority tau) TS. g (period h) (wcet h))"
      unfolding TS' by (rule sum_list_set_eq[OF p(2) _ p(1)]) (simp add: dts)
  qed
qed


section \<open>Simulated against analytic worst-case response times\<close>

text \<open>
  Modelled from the spec: \<open>perform_dm_analysis\<close>, which main.py imports from analysis.py
  and analysis.py does not define.  The specification's response-time analysis orders the
  tasks by the static-priority rule (for DM: ascending deadline), computes the exact WCRT of
  each task against all tasks ordered before it, and produces per task the period, the
  wcet, the WCRT and the flag WCRT \<open>\<le>\<close> deadline.  The specification does not say how tasks
  with equal deadlines are ordered, so the ordering function is a parameter; \<open>dm_order\<close>
  says what the specification requires of it.  The rest is the loop of
  \<open>perform_rm_analysis\<close>.
\<close>

definition dm_order :: "Task list \<Rightarrow> Task list \<Rightarrow> bool" where
  "dm_order ts S = (sorted (map deadline S) \<and> set S = set ts \<and> length S = length ts)"

definition perform_dm_analysis ::
  "(Task list \<Rightarrow> Task list) \<Rightarrow> Task list \<Rightarrow> (py_error + (int \<rightharpoonup> Analysis)) option" where
  "perform_dm_analysis by_deadline ts = rm_analysis_loop [] (by_deadline ts) Map.empty"

text \<open>
  The analysis over an order \<open>pre @ tau0 # post\<close> of the tasks and a run of the
  scheduler, side by side.  Both return.  When (under the condition \<open>C\<close>) the tasks of
  \<open>pre\<close> are the tasks the scheduler ranks before \<open>tau0\<close>, and the analysis reports
  \<open>tau0\<close> schedulable with a WCRT within its period, the observed WCRT is at most the
  analytic one.
\<close>

lemma wcrt_comparison:
  assumes pos: "\<forall>t\<in>set ts. 0 < wcet t \<and> 0 < period t"
    and range: "\<forall>t\<in>set ts. wcet t < 2 ^ 53 \<and> period t < 2 ^ 53 \<and> deadline t < 2 ^ 53"
    and S: "set (pre @ tau0 # post) = set ts" "id' tau0 \<notin> id' ` set post"
    and TS: "TS = tasks (Scheduler_init ts alg)"
    and setting: "C \<Longrightarrow> fp_setting TS alg tau
        \<and> (\<forall>g::int \<Rightarrow> int \<Rightarrow> int. (\<Sum>h\<leftarrow>pre. g (period h) (wcet h))
            = (\<Sum>h\<leftarrow>filter (\<lambda>h. priority h < priority tau) TS. g (period h) (wcet h)))"
    and tau: "id' tau0 = id' tau" "wcet tau0 = wcet tau" "period tau0 = period tau"
  shows "\<exists>res a s jobs h stats st.
            rm_analysis_loop [] (pre @ tau0 # post) Map.empty = Some (Inr res)
          \<and> res (id' tau0) = Some a
          \<and> run (Scheduler_init ts alg) dur = Inr (s, jobs, h)
          \<and> analyze_results s = Inr stats \<and> stats (id' tau0) = Some st
          \<and> (C \<and> Schedulable a \<and> WCRT_Analytic a \<le> period tau0
                \<longrightarrow> Sim_WCRT st \<le> WCRT_Analytic a)"
proof -
  have tau0: "tau0 \<in> set ts" using S(1) by auto
  have posS: "\<forall>h\<in>set ([] @ pre @ tau0 # post). 0 < period h \<and> 0 < wcet h"
    using pos S(1) by simp
  have rangeS: "\<forall>h\<in>set ([] @ pre @ tau0 # post).
      wcet h < 2 ^ 53 \<and> period h < 2 ^ 53 \<and> deadline h < 2 ^ 53"
    using range S(1) by simp
  from rm_analysis_loop_entry[OF posS rangeS S(2), of Map.empty] obtain res r where
    res: "rm_analysis_loop [] (pre @ tau0 # post) Map.empty = Some (Inr res)"
    and calc: "calculate_exact_wcrt_rm tau0 ([] @ pre) = Some (Inr r)"
    and entry: "res (id' tau0) = Some \<lparr>Period = period tau0, WCET = wcet tau0, WCRT_Analytic = r,
                                     Schedulable = (r \<le> deadline tau0)\<rparr>"
    by (elim exE conjE)
  let ?a = "\<lparr>Period = period tau0, WCET = wcet tau0, WCRT_Analytic = r,
             Schedulable = (r \<le> deadline tau0)\<rparr>"
  have hp: "\<forall>h\<in>set pre. 0 < period h \<and> period h < 2 ^ 53 \<and> 0 \<le> wcet h"
    and w: "0 < wcet tau0" "wcet tau0 < 2 ^ 53" "deadline tau0 < 2 ^ 53"
    using posS rangeS by (auto simp: less_imp_le)
  from calculate_exact_wcrt_rm_fixed_point[OF hp w] calc
  have r: "wcet tau0 \<le> r" "r \<le> deadline tau0 \<longrightarrow> exact_candidate tau0 pre r = r" by simp_all
  have per: "\<forall>task\<in>set ts. period task \<noteq> 0" using pos by auto
  from run_analyze_returns[OF per, of alg dur] obtain n s cur stats where
    st: "state_after ts alg n = Inr (s, cur)"
    and run: "run (Scheduler_init ts alg) dur
             = Inr (s, map (\<lambda>a. objects s ! a) (completed_jobs s), history s)"
    and an: "analyze_results s = Inr stats"
    and stats: "\<forall>task\<in>set ts. stats (id' task) =
               Some (observed_stats (filter (\<lambda>j. task_id j = id' task)
                                        (map (\<lambda>a. objects s ! a) (completed_jobs s))))"
    by (elim exE conjE)
  let ?st = "observed_stats (filter (\<lambda>j. task_id j = id' tau0)
                               (map (\<lambda>a. objects s ! a) (completed_jobs s)))"
  have st0: "stats (id' tau0) = Some ?st" using stats tau0 by blast
  have bound: "C \<and> Schedulable ?a \<and> WCRT_Analytic ?a \<le> period tau0
                 \<longrightarrow> Sim_WCRT ?st \<le> WCRT_Analytic ?a"
  proof
    assume "C \<and> Schedulable ?a \<and> WCRT_Analytic ?a \<le> period tau0"
    then have c: C and sch: "r \<le> deadline tau0" and rp: "r \<le> period tau0" by simp_all
    from setting[OF c] have fp: "fp_setting TS alg tau"
      and hpsum: "\<forall>g::int \<Rightarrow> int \<Rightarrow> int. (\<Sum>h\<leftarrow>pre. g (period h) (wcet h))
            = (\<Sum>h\<leftarrow>filter (\<lambda>h. priority h < priority tau) TS. g (period h) (wcet h))"
      by blast+
    from r(2) sch have fixp: "exact_candidate tau0 pre r = r" by simp
    from sim_bound_core[OF fp TS tau hpsum fixp r(1) rp st]
    show "Sim_WCRT ?st \<le> WCRT_Analytic ?a" by simp
  qed
  from res entry run an st0 bound show ?thesis by blast
qed

text \<open>
  Two orders by deadline agree on the tasks before \<open>tau\<close> when they are the same order, or
  when no other task has the deadline of \<open>tau\<close>.
\<close>

lemma sorted_prefix_set:
  assumes "sorted (map deadline (pre @ tau # post))" "distinct (pre @ tau # post)"
    and "\<forall>t\<in>set (pre @ tau # post). t \<noteq> tau \<longrightarrow> deadline t \<noteq> deadline tau"
  shows "set pre = {t \<in> set (pre @ tau # post). deadline t < deadline tau}"
proof (intro set_eqI iffI)
  fix t assume t: "t \<in> set pre"
  then have "deadline t \<le> deadline tau" using assms(1) by (simp add: sorted_append)
  moreover have "t \<noteq> tau" using assms(2) t by auto
  ultimately have "deadline t < deadline tau" using assms(3) t by force
  with t show "t \<in> {t \<in> set (pre @ tau # post). deadline t < deadline tau}" by simp
next
  fix t assume "t \<in> {t \<in> set (pre @ tau # post). deadline t < deadline tau}"
  then have t: "t \<in> set (pre @ tau # post)" "deadline t < deadline tau" by simp_all
  have "t \<notin> set post"
  proof
    assume "t \<in> set post"
    then have "deadline tau \<le> deadline t" using assms(1) by (simp add: sorted_append)
    with t(2) show False by simp
  qed
  moreover have "t \<noteq> tau" using t(2) by auto
  ultimately show "t \<in> set pre" using t(1) by auto
qed

lemma dm_prefix_sum:
  fixes g :: "Task \<Rightarrow> int"
  assumes S: "sorted (map deadline (pre @ tau # post))" "distinct (pre @ tau # post)"
    and S0: "sorted (map deadline (pre0 @ tau # post0))" "distinct (pre0 @ tau # post0)"
    and same: "set (pre @ tau # post) = set (pre0 @ tau # post0)"
    and tie: "pre @ tau # post = pre0 @ tau # post0
        \<or> (\<forall>t\<in>set (pre @ tau # post). t \<noteq> tau \<longrightarrow> deadline t \<noteq> deadline tau)"
  shows "(\<Sum>h\<leftarrow>pre. g h) = (\<Sum>h\<leftarrow>pre0. g h)"
  using tie
proof
  assume e: "pre @ tau # post = pre0 @ tau # post0"
  have n: "tau \<notin> set pre" "tau \<notin> set post" using S(2) by auto
  from e have "pre = pre0" unfolding append_Cons_eq_iff[OF n] by (rule conjunct1)
  then show ?thesis by simp
next
  assume n: "\<forall>t\<in>set (pre @ tau # post). t \<noteq> tau \<longrightarrow> deadline t \<noteq> deadline tau"
  then have n0: "\<forall>t\<in>set (pre0 @ tau # post0). t \<noteq> tau \<longrightarrow> deadline t \<noteq> deadline tau"
    unfolding same .
  have "set pre = set pre0"
    unfolding sorted_prefix_set[OF S n] sorted_prefix_set[OF S0 n0] same ..
  moreover have "distinct pre" "distinct pre0" using S(2) S0(2) by simp_all
  ultimately show ?thesis by (intro sum_list_set_eq)
qed

lemma dm_order_distinct:
  assumes "dm_order ts S" "distinct ts"
  shows "distinct S"
proof -
  have "card (set S) = length S"
    using assms distinct_card[of ts] by (simp add: dm_order_def)
  then show ?thesis by (rule card_distinct)
qed

lemma dm_order_sort_key: "dm_order ts (sort_key deadline ts)"
  by (simp add: dm_order_def)


text \<open>
  C2.  For a task set with positive wcets and periods, all of wcet, period and deadline
  below \<open>2\<^sup>5\<^sup>3\<close> (where the float quotients of the analysis are exact and none overflows)
  and distinct ids, and a task \<open>tau\<close> of it: the RM analysis, the RM run (over the
  hyperperiod when no duration is given) and the aggregation of its results all return,
  with an entry for \<open>tau\<close> each.  When the analysis reports \<open>tau\<close> schedulable (its WCRT is
  within the deadline) with a WCRT within the period, and the input priorities, by which
  the scheduler dispatches under RM, are ordered like (period, id), the observed WCRT of
  \<open>tau\<close> is at most the analytic WCRT.  Likewise for DM, where the scheduler assigns the
  priorities itself, against the analysis over any order of the tasks by deadline, when
  that order is the scheduler's (equal deadlines in input order) or no other task has the
  deadline of \<open>tau\<close>.  For a task reported unschedulable the analytic value is the first
  candidate above the deadline, and the observed WCRT may exceed it.
\<close>

theorem simulated_wcrt_within_analytic:
  assumes pos: "\<forall>t\<in>set ts. 0 < wcet t \<and> 0 < period t"
    and range: "\<forall>t\<in>set ts. wcet t < 2 ^ 53 \<and> period t < 2 ^ 53 \<and> deadline t < 2 ^ 53"
    and d: "distinct (map id' ts)" and tau: "tau \<in> set ts"
  shows "(\<exists>res a s jobs h stats st.
            perform_rm_analysis ts = Some (Inr res) \<and> res (id' tau) = Some a
          \<and> run (Scheduler_init ts ''RM'') dur = Inr (s, jobs, h)
          \<and> analyze_results s = Inr stats \<and> stats (id' tau) = Some st
          \<and> ((\<forall>x\<in>set ts. \<forall>y\<in>set ts.
                  (period x, id' x) < (period y, id' y) \<longrightarrow> priority x < priority y)
              \<and> Schedulable a \<and> WCRT_Analytic a \<le> period tau
                \<longrightarrow> Sim_WCRT st \<le> WCRT_Analytic a))
       \<and> (\<forall>by_deadline. dm_order ts (by_deadline ts) \<longrightarrow>
           (\<exists>res a s jobs h stats st.
              perform_dm_analysis by_deadline ts = Some (Inr res) \<and> res (id' tau) = Some a
            \<and> run (Scheduler_init ts ''DM'') dur = Inr (s, jobs, h)
            \<and> analyze_results s = Inr stats \<and> stats (id' tau) = Some st
            \<and> ((by_deadline ts = sort_key deadline ts
                   \<or> (\<forall>t\<in>set ts. t \<noteq> tau \<longrightarrow> deadline t \<noteq> deadline tau))
                \<and> Schedulable a \<and> WCRT_Analytic a \<le> period tau
                  \<longrightarrow> Sim_WCRT st \<le> WCRT_Analytic a)))"
proof
  let ?k = "\<lambda>x. (period x, id' x)"
  let ?C = "\<forall>x\<in>set ts. \<forall>y\<in>set ts. ?k x < ?k y \<longrightarrow> priority x < priority y"
  have "tau \<in> set (sort_key ?k ts)" using tau by simp
  from split_list[OF this] obtain pre post where S: "sort_key ?k ts = pre @ tau # post" by blast
  have setS: "set (pre @ tau # post) = set ts" unfolding S[symmetric] by simp
  have "distinct (map id' (pre @ tau # post))"
    unfolding S[symmetric] by (rule distinct_ids_sort_key[OF d])
  then have post: "id' tau \<notin> id' ` set post" by auto
  have setting: "fp_setting (tasks (Scheduler_init ts ''RM'')) ''RM'' tau
        \<and> (\<forall>g::int \<Rightarrow> int \<Rightarrow> int. (\<Sum>h\<leftarrow>pre. g (period h) (wcet h))
            = (\<Sum>h\<leftarrow>filter (\<lambda>h. priority h < priority tau) (tasks (Scheduler_init ts ''RM'')).
                 g (period h) (wcet h)))" if c: ?C
    using rm_setting[OF pos d c S refl] by (intro conjI)
  from wcrt_comparison[OF pos range setS post refl setting refl refl refl, of ?C dur]
  show "\<exists>res a s jobs h stats st.
            perform_rm_analysis ts = Some (Inr res) \<and> res (id' tau) = Some a
          \<and> run (Scheduler_init ts ''RM'') dur = Inr (s, jobs, h)
          \<and> analyze_results s = Inr stats \<and> stats (id' tau) = Some st
          \<and> (?C \<and> Schedulable a \<and> WCRT_Analytic a \<le> period tau
                \<longrightarrow> Sim_WCRT st \<le> WCRT_Analytic a)"
    unfolding perform_rm_analysis_def S .
next
  show "\<forall>by_deadline. dm_order ts (by_deadline ts) \<longrightarrow>
           (\<exists>res a s jobs h stats st.
              perform_dm_analysis by_deadline ts = Some (Inr res) \<and> res (id' tau) = Some a
            \<and> run (Scheduler_init ts ''DM'') dur = Inr (s, jobs, h)
            \<and> analyze_results s = Inr stats \<and> stats (id' tau) = Some st
            \<and> ((by_deadline ts = sort_key deadline ts
                   \<or> (\<forall>t\<in>set ts. t \<noteq> tau \<longrightarrow> deadline t \<noteq> deadline tau))
                \<and> Schedulable a \<and> WCRT_Analytic a \<le> period tau
                  \<longrightarrow> Sim_WCRT st \<le> WCRT_Analytic a))"
  proof (intro allI impI)
    fix by_deadline assume ord: "dm_order ts (by_deadline ts)"
    define S where "S = by_deadline ts"
    let ?C = "S = sort_key deadline ts \<or> (\<forall>t\<in>set ts. t \<noteq> tau \<longrightarrow> deadline t \<noteq> deadline tau)"
    have dts: "distinct ts" and inj: "inj_on id' (set ts)" using d by (simp_all add: distinct_map)
    have Sset: "set S = set ts" and Ssorted: "sorted (map deadline S)"
      using ord unfolding S_def dm_order_def by simp_all
    have dS: "distinct S" using dm_order_distinct[OF ord dts] unfolding S_def .
    have "tau \<in> set S" using tau Sset by simp
    from split_list[OF this] obtain pre post where S: "S = pre @ tau # post" by blast
    have setS: "set (pre @ tau # post) = set ts" using Sset unfolding S .
    have "distinct (map id' (pre @ tau # post))"
      using dS inj Sset unfolding S[symmetric] by (simp add: distinct_map)
    then have post: "id' tau \<notin> id' ` set post" by auto
    have "tau \<in> set (sort_key deadline ts)" using tau by simp
    from split_list[OF this] obtain pre0 post0 where
      S0: "sort_key deadline ts = pre0 @ tau # post0" by blast
    define tau' where "tau' = tau\<lparr>priority := int (length pre0)\<rparr>"
    note dm = dm_setting[OF pos d S0 refl tau'_def]
    have sorted0: "sorted (map deadline (pre0 @ tau # post0))"
      using sorted_sort_key[of deadline ts] unfolding S0 .
    have d0: "distinct (pre0 @ tau # post0)" using dts unfolding S0[symmetric] by simp
    have set0: "set (pre @ tau # post) = set (pre0 @ tau # post0)"
      unfolding setS S0[symmetric] by simp
    have setting: "fp_setting (tasks (Scheduler_init ts ''DM'')) ''DM'' tau'
          \<and> (\<forall>g::int \<Rightarrow> int \<Rightarrow> int. (\<Sum>h\<leftarrow>pre. g (period h) (wcet h))
              = (\<Sum>h\<leftarrow>filter (\<lambda>h. priority h < priority tau') (tasks (Scheduler_init ts ''DM'')).
                   g (period h) (wcet h)))" if c: ?C
    proof (intro conjI allI)
      show "fp_setting (tasks (Scheduler_init ts ''DM'')) ''DM'' tau'" by (rule dm(1))
      fix g :: "int \<Rightarrow> int \<Rightarrow> int"
      from c have tie: "pre @ tau # post = pre0 @ tau # post0
          \<or> (\<forall>t\<in>set (pre @ tau # post). t \<noteq> tau \<longrightarrow> deadline t \<noteq> deadline tau)"
        unfolding S S0 setS .
      have "(\<Sum>h\<leftarrow>pre. g (period h) (wcet h)) = (\<Sum>h\<leftarrow>pre0. g (period h) (wcet h))"
        by (rule dm_prefix_sum[OF Ssorted[unfolded S] dS[unfolded S] sorted0 d0 set0 tie])
      also have "\<dots> = (\<Sum>h\<leftarrow>filter (\<lambda>h. priority h < priority tau') (tasks (Scheduler_init ts ''DM'')).
                   g (period h) (wcet h))"
        using dm(2) by blast
      finally show "(\<Sum>h\<leftarrow>pre. g (period h) (wcet h))
              = (\<Sum>h\<leftarrow>filter (\<lambda>h. priority h < priority tau') (tasks (Scheduler_init ts ''DM'')).
                   g (period h) (wcet h))" .
    qed
    have eqs: "id' tau = id' tau'" "wcet tau = wcet tau'" "period tau = period tau'"
      by (simp_all add: tau'_def)
    from wcrt_comparison[OF pos range setS post refl setting eqs, of ?C dur]
    show "\<exists>res a s jobs h stats st.
              perform_dm_analysis by_deadline ts = Some (Inr res) \<and> res (id' tau) = Some a
            \<and> run (Scheduler_init ts ''DM'') dur = Inr (s, jobs, h)
            \<and> analyze_results s = Inr stats \<and> stats (id' tau) = Some st
            \<and> ((by_deadline ts = sort_key deadline ts
                   \<or> (\<forall>t\<in>set ts. t \<noteq> tau \<longrightarrow> deadline t \<noteq> deadline tau))
                \<and> Schedulable a \<and> WCRT_Analytic a \<le> period tau
                  \<longrightarrow> Sim_WCRT st \<le> WCRT_Analytic a)"
      unfolding perform_dm_analysis_def S_def[symmetric] S .
  qed
qed

text \<open>
  An instance: \<open>task_c\<close> next to \<open>task_a\<close>.  Both analyses give \<open>task_c\<close> a WCRT of
  7, within its deadline and period of 10, and the runs over the hyperperiod observe at
  most 7.
\<close>

theorem simulated_wcrt_within_analytic_witness:
  "(\<exists>res a s jobs h stats st.
       perform_rm_analysis [task_a, task_c] = Some (Inr res) \<and> res 3 = Some a
     \<and> Schedulable a \<and> WCRT_Analytic a = 7 \<and> WCRT_Analytic a \<le> period task_c
     \<and> run (Scheduler_init [task_a, task_c] ''RM'') None = Inr (s, jobs, h)
     \<and> analyze_results s = Inr stats \<and> stats 3 = Some st \<and> Sim_WCRT st \<le> 7)
   \<and> (\<exists>res a s jobs h stats st.
       perform_dm_analysis (sort_key deadline) [task_a, task_c] = Some (Inr res) \<and> res 3 = Some a
     \<and> Schedulable a \<and> WCRT_Analytic a = 7 \<and> WCRT_Analytic a \<le> period task_c
     \<and> run (Scheduler_init [task_a, task_c] ''DM'') None = Inr (s, jobs, h)
     \<and> analyze_results s = Inr stats \<and> stats 3 = Some st \<and> Sim_WCRT st \<le> 7)"
proof -
  let ?ts = "[task_a, task_c]"
  let ?a = "\<lparr>Period = 10, WCET = 3, WCRT_Analytic = 7, Schedulable = True\<rparr>"
  have pre: "\<forall>t\<in>set ?ts. 0 < wcet t \<and> 0 < period t"
    "\<forall>t\<in>set ?ts. wcet t < 2 ^ 53 \<and> period t < 2 ^ 53 \<and> deadline t < 2 ^ 53"
    "distinct (map id' ?ts)" "task_c \<in> set ?ts"
    by (simp_all add: task_a_def task_c_def)
  have ordered: "\<forall>x\<in>set ?ts. \<forall>y\<in>set ?ts.
                  (period x, id' x) < (period y, id' y) \<longrightarrow> priority x < priority y"
    by (simp add: task_a_def task_c_def)
  have i: "id' task_c = 3" and p: "period task_c = 10" by (simp_all add: task_c_def)
  note both = simulated_wcrt_within_analytic[OF pre, of None]
  have rm: "map_option (map_sum id (\<lambda>res. res 3)) (perform_rm_analysis ?ts) = Some (Inr (Some ?a))"
    by code_simp
  have dm: "map_option (map_sum id (\<lambda>res. res 3)) (perform_dm_analysis (sort_key deadline) ?ts)
              = Some (Inr (Some ?a))"
    by code_simp
  from both[THEN conjunct1] obtain res a s jobs h stats st where
    1: "perform_rm_analysis ?ts = Some (Inr res)" "res (id' task_c) = Some a"
       "run (Scheduler_init ?ts ''RM'') None = Inr (s, jobs, h)"
       "analyze_results s = Inr stats" "stats (id' task_c) = Some st"
    and b1: "(\<forall>x\<in>set ?ts. \<forall>y\<in>set ?ts.
                  (period x, id' x) < (period y, id' y) \<longrightarrow> priority x < priority y)
              \<and> Schedulable a \<and> WCRT_Analytic a \<le> period task_c
                \<longrightarrow> Sim_WCRT st \<le> WCRT_Analytic a"
    by (elim exE conjE)
  from rm 1(1,2) have a: "a = ?a" unfolding i by simp
  from b1 ordered have "Sim_WCRT st \<le> 7" unfolding a p by simp
  with 1 a have first: "\<exists>res a s jobs h stats st.
       perform_rm_analysis ?ts = Some (Inr res) \<and> res 3 = Some a
     \<and> Schedulable a \<and> WCRT_Analytic a = 7 \<and> WCRT_Analytic a \<le> period task_c
     \<and> run (Scheduler_init ?ts ''RM'') None = Inr (s, jobs, h)
     \<and> analyze_results s = Inr stats \<and> stats 3 = Some st \<and> Sim_WCRT st \<le> 7"
    unfolding i p by (intro exI[of _ res] exI[of _ ?a] exI[of _ s] exI[of _ jobs] exI[of _ h]
                         exI[of _ stats] exI[of _ st]) simp
  from both[THEN conjunct2, rule_format, of "sort_key deadline", OF dm_order_sort_key]
  obtain res' a' s' jobs' h' stats' st' where
    2: "perform_dm_analysis (sort_key deadline) ?ts = Some (Inr res')" "res' (id' task_c) = Some a'"
       "run (Scheduler_init ?ts ''DM'') None = Inr (s', jobs', h')"
       "analyze_results s' = Inr stats'" "stats' (id' task_c) = Some st'"
    and b2: "(sort_key deadline ?ts = sort_key deadline ?ts
               \<or> (\<forall>t\<in>set ?ts. t \<noteq> task_c \<longrightarrow> deadline t \<noteq> deadline task_c))
             \<and> Schedulable a' \<and> WCRT_Analytic a' \<le> period task_c
                \<longrightarrow> Sim_WCRT st' \<le> WCRT_Analytic a'"
    by (elim exE conjE)
  from dm 2(1,2) have a': "a' = ?a" unfolding i by simp
  from b2 have "Sim_WCRT st' \<le> 7" unfolding a' p by simp
  with 2 a' have second: "\<exists>res a s jobs h stats st.
       perform_dm_analysis (sort_key deadline) ?ts = Some (Inr res) \<and> res 3 = Some a
     \<and> Schedulable a \<and> WCRT_Analytic a = 7 \<and> WCRT_Analytic a \<le> period task_c
     \<and> run (Scheduler_init ?ts ''DM'') None = Inr (s, jobs, h)
     \<and> analyze_results s = Inr stats \<and> stats 3 = Some st \<and> Sim_WCRT st \<le> 7"
    unfolding i p by (intro exI[of _ res'] exI[of _ ?a] exI[of _ s'] exI[of _ jobs'] exI[of _ h']
                         exI[of _ stats'] exI[of _ st']) simp
  from first second show ?thesis by (rule conjI)
qed

text \<open>
  The claim fails for a task the analysis reports unschedulable.  \<open>task_a\<close> and \<open>task_b\<close>
  satisfy the preconditions of the data model and carry priorities in rate-monotonic
  order.  For \<open>task_b\<close> (wcet 3, deadline 4, period 10) the iteration of
  \<open>calculate_exact_wcrt_rm\<close> stops at the first candidate above the deadline, 5; the RM
  run over the hyperperiod observes a response time of 7.
\<close>

theorem observed_wcrt_exceeds_analytic:
  "0 < wcet task_a \<and> 0 < period task_a \<and> 0 < deadline task_a
   \<and> 0 < wcet task_b \<and> 0 < period task_b \<and> 0 < deadline task_b
   \<and> period task_a < period task_b \<and> priority task_a < priority task_b
   \<and> map_option (map_sum id (\<lambda>res. map_option WCRT_Analytic (res (id' task_b))))
        (perform_rm_analysis [task_a, task_b]) = Some (Inr (Some 5))
   \<and> map_sum id (\<lambda>r. map_sum id (\<lambda>stats. map_option Sim_WCRT (stats (id' task_b)))
                          (analyze_results (fst r)))
        (run (Scheduler_init [task_a, task_b] ''RM'') None) = Inr (Inr (Some 7))"
proof -
  have "map_option (map_sum id (\<lambda>res. map_option WCRT_Analytic (res (id' task_b))))
        (perform_rm_analysis [task_a, task_b]) = Some (Inr (Some 5))" by code_simp
  moreover have "map_sum id (\<lambda>r. map_sum id (\<lambda>stats. map_option Sim_WCRT (stats (id' task_b)))
                          (analyze_results (fst r)))
        (run (Scheduler_init [task_a, task_b] ''RM'') None) = Inr (Inr (Some 7))" by code_simp
  ultimately show ?thesis by (simp add: task_a_def task_b_def)
qed

subsection \<open>Each condition of the comparison is needed\<close>

text \<open>
  The entry of the analysis for the task with id \<open>i\<close>, and the WCRT observed for it after a
  run over the hyperperiod, as \<open>main\<close> reads them from the two dictionaries.
\<close>

definition analytic_entry :: "(py_error + (int \<rightharpoonup> Analysis)) option \<Rightarrow> int \<Rightarrow> (py_error + Analysis option) option" where
  "analytic_entry r i = map_option (map_sum id (\<lambda>res. res i)) r"

definition observed_wcrt :: "Task list \<Rightarrow> string \<Rightarrow> int \<Rightarrow> py_error + py_error + int option" where
  "observed_wcrt ts alg i =
     map_sum id (\<lambda>r. map_sum id (\<lambda>stats. map_option Sim_WCRT (stats i)) (analyze_results (fst r)))
       (run (Scheduler_init ts alg) None)"

text \<open>
  A WCRT beyond the period: with a deadline of 11 above its period of 10, the second task
  is reported schedulable with a WCRT of 11, and a later job of it is observed to take 12.
\<close>

lemma bound_needs_wcrt_within_period:
  "analytic_entry (perform_rm_analysis
       [task_a\<lparr>wcet := 3, period := 6, deadline := 6\<rparr>,
        task_b\<lparr>wcet := 5, period := 10, deadline := 11\<rparr>]) 2
     = Some (Inr (Some \<lparr>Period = 10, WCET = 5, WCRT_Analytic = 11, Schedulable = True\<rparr>))
   \<and> observed_wcrt
       [task_a\<lparr>wcet := 3, period := 6, deadline := 6\<rparr>,
        task_b\<lparr>wcet := 5, period := 10, deadline := 11\<rparr>] ''RM'' 2 = Inr (Inr (Some 12))"
  by (rule conjI; code_simp)

text \<open>
  Input priorities against the rate-monotonic order: \<open>task_a_low\<close> has the shorter
  period and the larger priority value.  The analysis ranks it first and gives 2; the
  scheduler runs \<open>task_c\<close> first, and 5 is observed.
\<close>

lemma bound_needs_priority_order:
  "analytic_entry (perform_rm_analysis [task_a_low, task_c]) 1
     = Some (Inr (Some \<lparr>Period = 4, WCET = 2, WCRT_Analytic = 2, Schedulable = True\<rparr>))
   \<and> observed_wcrt [task_a_low, task_c] ''RM'' 1 = Inr (Inr (Some 5))"
  by (rule conjI; code_simp)

text \<open>
  Two tasks with the same id: the jobs of the third task carry the id of the first, and the
  scheduler looks up their priority under that id.  They run before the second task, which
  the analysis does not account for: 3 against an observed 4.
\<close>

lemma bound_needs_distinct_ids:
  "analytic_entry (perform_rm_analysis
       [task_a\<lparr>wcet := 1\<rparr>, task_b\<lparr>wcet := 2, period := 6, deadline := 6\<rparr>,
        task_c\<lparr>id' := 1, wcet := 1, period := 12, deadline := 12\<rparr>]) 2
     = Some (Inr (Some \<lparr>Period = 6, WCET = 2, WCRT_Analytic = 3, Schedulable = True\<rparr>))
   \<and> observed_wcrt
       [task_a\<lparr>wcet := 1\<rparr>, task_b\<lparr>wcet := 2, period := 6, deadline := 6\<rparr>,
        task_c\<lparr>id' := 1, wcet := 1, period := 12, deadline := 12\<rparr>] ''RM'' 2 = Inr (Inr (Some 4))"
  by (rule conjI; code_simp)

text \<open>
  A wcet beyond the range of a float: the analysis raises \<open>OverflowError\<close> and has no
  entry for any task.
\<close>

lemma analysis_needs_float_range:
  "analytic_entry (perform_rm_analysis
       [task_a\<lparr>wcet := 1, period := 2, deadline := 2\<rparr>, task_b\<lparr>wcet := 10 ^ 309, period := 4\<rparr>]) 1
     = Some (Inl OverflowError)"
  by code_simp

text \<open>
  Operands above \<open>2\<^sup>5\<^sup>3\<close>: for a task with a wcet of \<open>2\<^sup>5\<^sup>3 + 1\<close> under a task of period 2 and
  wcet 1, the analysis converges to \<open>2\<^sup>5\<^sup>4 + 1\<close> and reports the task schedulable.  That value
  is no solution of the recurrence of the docstring, which gives \<open>2\<^sup>5\<^sup>4 + 2\<close> there: the float
  quotient \<open>(2\<^sup>5\<^sup>4 + 1) / 2\<close> is rounded down to \<open>2\<^sup>5\<^sup>3\<close>.
\<close>

lemma analysis_inexact_above_float_precision:
  "analytic_entry (perform_rm_analysis
       [task_a\<lparr>wcet := 1, period := 2, deadline := 2\<rparr>,
        task_b\<lparr>wcet := 2 ^ 53 + 1, period := 2 ^ 55, deadline := 2 ^ 55\<rparr>]) 2
     = Some (Inr (Some \<lparr>Period = 2 ^ 55, WCET = 2 ^ 53 + 1, WCRT_Analytic = 2 ^ 54 + 1,
                             Schedulable = True\<rparr>))
   \<and> exact_candidate (task_b\<lparr>wcet := 2 ^ 53 + 1, period := 2 ^ 55, deadline := 2 ^ 55\<rparr>)
       [task_a\<lparr>wcet := 1, period := 2, deadline := 2\<rparr>] (2 ^ 54 + 1) = 2 ^ 54 + 2"
  by (rule conjI; code_simp)

text \<open>
  Equal deadlines under DM: the scheduler ranks the two tasks in input order, so the second
  waits for the first and 4 is observed.  An analysis that orders them the other way gives
  the second task a WCRT of 2.
\<close>

lemma dm_bound_needs_same_order:
  "dm_order [task_a\<lparr>period := 10, deadline := 5\<rparr>, task_b\<lparr>wcet := 2, deadline := 5\<rparr>]
      (rev [task_a\<lparr>period := 10, deadline := 5\<rparr>, task_b\<lparr>wcet := 2, deadline := 5\<rparr>])
   \<and> analytic_entry (perform_dm_analysis rev
       [task_a\<lparr>period := 10, deadline := 5\<rparr>, task_b\<lparr>wcet := 2, deadline := 5\<rparr>]) 2
     = Some (Inr (Some \<lparr>Period = 10, WCET = 2, WCRT_Analytic = 2, Schedulable = True\<rparr>))
   \<and> observed_wcrt
       [task_a\<lparr>period := 10, deadline := 5\<rparr>, task_b\<lparr>wcet := 2, deadline := 5\<rparr>] ''DM'' 2
     = Inr (Inr (Some 4))"
  by (intro conjI; code_simp)

end
